(* ===== verification/Prelude.thy ===== *)
theory Prelude
  imports Main "HOL-Library.Word" "HOL-Library.Monad_Syntax"
begin

text \<open>
  Shared vocabulary of the development: the kernel's 64-bit integer arithmetic on \<^typ>\<open>nat\<close>, the
  panic monad and its total-correctness calculus, power-of-two blocks, and the generic list and
  sum lemmas that the component theories use.

  A Rust \<open>u64\<close> (or \<open>usize\<close>, \<open>u32\<close>) is a \<^typ>\<open>nat\<close>; the operations that the source writes as
  \<open>checked_add\<close>, \<open>saturating_add\<close>, \<open>wrapping_add\<close> carry the bound \<open>2 ^ 64\<close> explicitly. A
  computation that may panic (a failed \<open>kassert!\<close>, an \<open>expect\<close> on \<open>None\<close>, a slice index out of
  range, a subtraction below zero) returns an \<open>option\<close>: \<^term>\<open>None\<close> is the panic.
\<close>

section \<open>Collections\<close>

named_theorems panic_intros \<open>introduction rules of the total-correctness calculus\<close>
named_theorems block_simps \<open>facts on power-of-two blocks\<close>

section \<open>64-bit arithmetic\<close>

type_synonym u64 = nat

definition U64_MAX :: u64 where
  "U64_MAX = 18446744073709551615"

lemma U64_MAX_power: "U64_MAX = 2 ^ 64 - 1"
  by (simp add: U64_MAX_def)

definition checked_add :: "u64 \<Rightarrow> u64 \<Rightarrow> u64 option" where
  "checked_add a b = (if a + b \<le> U64_MAX then Some (a + b) else None)"

definition saturating_add :: "u64 \<Rightarrow> u64 \<Rightarrow> u64" where
  "saturating_add a b = min (a + b) U64_MAX"

definition saturating_mul :: "u64 \<Rightarrow> u64 \<Rightarrow> u64" where
  "saturating_mul a b = min (a * b) U64_MAX"

definition wrapping_add :: "u64 \<Rightarrow> u64 \<Rightarrow> u64" where
  "wrapping_add a b = (a + b) mod 18446744073709551616"

definition wrapping_sub :: "u64 \<Rightarrow> u64 \<Rightarrow> u64" where
  "wrapping_sub a b = (a + (18446744073709551616 - b)) mod 18446744073709551616"

definition clamp :: "u64 \<Rightarrow> u64 \<Rightarrow> u64 \<Rightarrow> u64" where
  "clamp x lo hi = (if x < lo then lo else if hi < x then hi else x)"

lemma wrapping_sub_eq: "b \<le> a \<Longrightarrow> a \<le> U64_MAX \<Longrightarrow> wrapping_sub a b = a - b"
proof -
  assume "b \<le> a" "a \<le> U64_MAX"
  then have e: "a + (18446744073709551616 - b) = (a - b) + 18446744073709551616" by (simp add: U64_MAX_def)
  show ?thesis using \<open>a \<le> U64_MAX\<close> unfolding wrapping_sub_def e mod_add_self2 by (simp add: U64_MAX_def)
qed

lemma wrapping_add_eq: "a + b \<le> U64_MAX \<Longrightarrow> wrapping_add a b = a + b"
  by (simp add: wrapping_add_def U64_MAX_def)

lemma saturating_add_le [simp]: "saturating_add a b \<le> U64_MAX"
  by (simp add: saturating_add_def)

lemma saturating_add_eq: "a + b \<le> U64_MAX \<Longrightarrow> saturating_add a b = a + b"
  by (simp add: saturating_add_def)

lemma saturating_add_mono: "a \<le> a' \<Longrightarrow> b \<le> b' \<Longrightarrow> saturating_add a b \<le> saturating_add a' b'"
  by (auto simp: saturating_add_def)

lemma saturating_mul_mono: "a \<le> a' \<Longrightarrow> b \<le> b' \<Longrightarrow> saturating_mul a b \<le> saturating_mul a' b'"
  by (auto simp: saturating_mul_def intro: mult_le_mono min.coboundedI1)

lemma checked_add_Some [simp]: "checked_add a b = Some c \<longleftrightarrow> c = a + b \<and> a + b \<le> U64_MAX"
  by (auto simp: checked_add_def)

lemma checked_add_None [simp]: "checked_add a b = None \<longleftrightarrow> U64_MAX < a + b"
  by (auto simp: checked_add_def)

section \<open>The panic monad\<close>

text \<open>
  \<^term>\<open>None\<close> is a kernel panic. \<open>returns m P\<close> is total correctness: the computation does not
  panic and its result satisfies the postcondition.
\<close>

definition kassert :: "bool \<Rightarrow> unit option" where
  "kassert b = (if b then Some () else None)"

definition checked_sub :: "u64 \<Rightarrow> u64 \<Rightarrow> u64 option" where
  "checked_sub a b = (if b \<le> a then Some (a - b) else None)"

definition returns :: "'a option \<Rightarrow> ('a \<Rightarrow> bool) \<Rightarrow> bool" where
  "returns m P \<longleftrightarrow> (\<exists>x. m = Some x \<and> P x)"

lemma kassert_Some [simp]: "kassert b = Some u \<longleftrightarrow> b"
  by (simp add: kassert_def)

lemma kassert_True [simp]: "kassert True = Some ()"
  by (simp add: kassert_def)

lemma kassert_False [simp]: "kassert False = None"
  by (simp add: kassert_def)

lemma checked_sub_Some [simp]: "checked_sub a b = Some c \<longleftrightarrow> b \<le> a \<and> c = a - b"
  by (auto simp: checked_sub_def)

lemma returns_Some [simp]: "returns (Some x) P \<longleftrightarrow> P x"
  by (simp add: returns_def)

lemma returns_None [simp]: "\<not> returns None P"
  by (simp add: returns_def)

lemma returns_bind [panic_intros]:
  "returns m Q \<Longrightarrow> (\<And>x. Q x \<Longrightarrow> returns (f x) P) \<Longrightarrow> returns (m \<bind> f) P"
  by (auto simp: returns_def)

lemma returns_mono: "returns m Q \<Longrightarrow> (\<And>x. Q x \<Longrightarrow> P x) \<Longrightarrow> returns m P"
  by (auto simp: returns_def)

lemma returns_kassert [panic_intros]: "b \<Longrightarrow> P () \<Longrightarrow> returns (kassert b) P"
  by simp

lemma returns_checked_sub [panic_intros]: "b \<le> a \<Longrightarrow> P (a - b) \<Longrightarrow> returns (checked_sub a b) P"
  by (simp add: checked_sub_def)

lemma returns_if [panic_intros]:
  "(b \<Longrightarrow> returns m P) \<Longrightarrow> (\<not> b \<Longrightarrow> returns n P) \<Longrightarrow> returns (if b then m else n) P"
  by simp

lemma returns_conj: "returns m P \<Longrightarrow> (\<And>x. m = Some x \<Longrightarrow> Q x) \<Longrightarrow> returns m (\<lambda>x. P x \<and> Q x)"
  by (auto simp: returns_def)

lemma returnsE: "returns m P \<Longrightarrow> (\<And>x. m = Some x \<Longrightarrow> P x \<Longrightarrow> R) \<Longrightarrow> R"
  by (auto simp: returns_def)

end
