(* ===== verification/Zones.thy ===== *)
theory Zones
  imports Prelude
begin

text \<open>
  The bounded-address partition of physical memory
  (\<open>crates/kernel/mm-pmm/src/zone/*.rs\<close>): zone identities, the allocation-flag maps, zone
  boundaries and layout, mobility classes, the fallback list, the lowmem reserve and the
  watermark gate, together with the watermark derivation of \<open>watermark.rs\<close>.
\<close>

unbundle bit_operations_syntax

section \<open>Zone identities (zone/types.rs)\<close>

datatype zone_type = Dma | Dma32 | Normal | MovableZone

definition NR_ZONES :: nat where
  "NR_ZONES = 4"

fun zone_index :: "zone_type \<Rightarrow> nat" where
  "zone_index Dma = 0"
| "zone_index Dma32 = 1"
| "zone_index Normal = 2"
| "zone_index MovableZone = 3"

definition zone_from_index :: "nat \<Rightarrow> zone_type option" where
  "zone_from_index idx =
     (if idx = 0 then Some Dma
      else if idx = 1 then Some Dma32
      else if idx = 2 then Some Normal
      else if idx = 3 then Some MovableZone
      else None)"

fun zone_name :: "zone_type \<Rightarrow> string" where
  "zone_name Dma = ''DMA''"
| "zone_name Dma32 = ''DMA32''"
| "zone_name Normal = ''Normal''"
| "zone_name MovableZone = ''Movable''"

section \<open>Allocation flags (zone/gfp.rs)\<close>

type_synonym gfp = "32 word"

definition GFP_DMA :: gfp where "GFP_DMA = 0x01"
definition GFP_HIGHMEM :: gfp where "GFP_HIGHMEM = 0x02"
definition GFP_DMA32 :: gfp where "GFP_DMA32 = 0x04"
definition GFP_MOVABLE :: gfp where "GFP_MOVABLE = 0x08"
definition GFP_RECLAIMABLE :: gfp where "GFP_RECLAIMABLE = 0x10"
definition GFP_ZONEMASK :: gfp where
  "GFP_ZONEMASK = GFP_DMA OR GFP_HIGHMEM OR GFP_DMA32 OR GFP_MOVABLE"
definition GFP_HIGH :: gfp where "GFP_HIGH = 0x20"

lemmas gfp_flag_defs = GFP_DMA_def GFP_HIGHMEM_def GFP_DMA32_def GFP_MOVABLE_def
  GFP_RECLAIMABLE_def GFP_ZONEMASK_def GFP_HIGH_def

definition grants_min_reserve :: "gfp \<Rightarrow> bool" where
  "grants_min_reserve flags \<longleftrightarrow> flags AND GFP_HIGH \<noteq> 0"

datatype gfp_error = GfpError

definition gfp_zone :: "gfp \<Rightarrow> gfp_error + zone_type" where
  "gfp_zone flags =
     (let z = flags AND GFP_ZONEMASK in
      if z = 0x0 then Inr Normal
      else if z = 0x1 then Inr Dma
      else if z = 0x2 then Inr Normal
      else if z = 0x4 then Inr Dma32
      else if z = 0x8 then Inr Normal
      else if z = 0x9 then Inr Dma
      else if z = 0xa then Inr MovableZone
      else if z = 0xc then Inr Dma32
      else Inl GfpError)"

section \<open>Zone boundaries (zone/limits.rs)\<close>

definition X86_DMA_LIMIT_BYTES :: u64 where "X86_DMA_LIMIT_BYTES = 16 * 1024 * 1024"
definition DMA32_LIMIT_BYTES :: u64 where "DMA32_LIMIT_BYTES = 2 ^ 32"
definition PAGE_SIZE_BYTES :: u64 where "PAGE_SIZE_BYTES = 4096"
definition PAGEBLOCK_ORDER :: nat where "PAGEBLOCK_ORDER = 9"
definition PAGEBLOCK_PAGES :: u64 where "PAGEBLOCK_PAGES = 2 ^ PAGEBLOCK_ORDER"

record zone_limits =
  dma_end_pfn :: u64
  dma32_end_pfn :: u64
  movable_start_pfn :: "u64 option"

record zone_span =
  start_pfn :: u64
  end_pfn :: u64

definition spanned_pages :: "zone_span \<Rightarrow> u64" where
  "spanned_pages sp = end_pfn sp - start_pfn sp"

definition span_is_empty :: "zone_span \<Rightarrow> bool" where
  "span_is_empty sp \<longleftrightarrow> end_pfn sp \<le> start_pfn sp"

definition span_contains :: "zone_span \<Rightarrow> u64 \<Rightarrow> bool" where
  "span_contains sp pfn \<longleftrightarrow> start_pfn sp \<le> pfn \<and> pfn < end_pfn sp"

definition pfn_down :: "u64 \<Rightarrow> u64 \<Rightarrow> u64" where
  "pfn_down bytes page_bytes = bytes div page_bytes"

definition limits_x86_64 :: "u64 \<Rightarrow> u64 \<Rightarrow> zone_limits" where
  "limits_x86_64 pfn_max page_bytes =
     \<lparr>dma_end_pfn = min (pfn_down X86_DMA_LIMIT_BYTES page_bytes) pfn_max,
      dma32_end_pfn = min (pfn_down DMA32_LIMIT_BYTES page_bytes) pfn_max,
      movable_start_pfn = None\<rparr>"

definition limits_aarch64 :: "u64 option \<Rightarrow> u64 \<Rightarrow> u64 \<Rightarrow> u64 \<Rightarrow> zone_limits" where
  "limits_aarch64 fw_dma_limit_bytes dram_start_bytes pfn_max page_bytes =
     (let dma32_end = min (pfn_down DMA32_LIMIT_BYTES page_bytes) pfn_max;
          limit0 = (case fw_dma_limit_bytes of None \<Rightarrow> U64_MAX | Some b \<Rightarrow> b);
          limit = (if dram_start_bytes < DMA32_LIMIT_BYTES then min limit0 (DMA32_LIMIT_BYTES - 1)
                   else limit0);
          dma_end = (if limit = U64_MAX then pfn_max
                     else min (pfn_down limit page_bytes + 1) pfn_max)
      in \<lparr>dma_end_pfn = dma_end, dma32_end_pfn = dma32_end, movable_start_pfn = None\<rparr>)"

text \<open>The spans of the four zones, in address order.\<close>

type_synonym zone_layout = "zone_span list"

fun layout_spans :: "u64 \<Rightarrow> u64 list \<Rightarrow> zone_layout" where
  "layout_spans cur [] = []"
| "layout_spans cur (cap # caps) =
     (let e = (if cap > cur then cap else cur)
      in \<lparr>start_pfn = cur, end_pfn = e\<rparr> # layout_spans e caps)"

definition movable_start :: "zone_limits \<Rightarrow> u64 \<Rightarrow> u64" where
  "movable_start limits pfn_max =
     min (case movable_start_pfn limits of
            None \<Rightarrow> pfn_max
          | Some start \<Rightarrow>
              (case checked_add start (PAGEBLOCK_PAGES - 1) of
                 None \<Rightarrow> pfn_max
               | Some e \<Rightarrow> (e div PAGEBLOCK_PAGES) * PAGEBLOCK_PAGES))
         pfn_max"

definition layout_new :: "zone_limits \<Rightarrow> u64 \<Rightarrow> zone_layout" where
  "layout_new limits pfn_max =
     (let ms = movable_start limits pfn_max
      in layout_spans 0
           [min (min (dma_end_pfn limits) pfn_max) ms,
            min (min (dma32_end_pfn limits) pfn_max) ms,
            ms,
            pfn_max])"

definition single_normal :: "u64 \<Rightarrow> zone_layout" where
  "single_normal pfn_max =
     layout_new \<lparr>dma_end_pfn = 0, dma32_end_pfn = 0, movable_start_pfn = None\<rparr> pfn_max"

definition layout_span :: "zone_layout \<Rightarrow> zone_type \<Rightarrow> zone_span" where
  "layout_span l z = l ! zone_index z"

fun index_of_from :: "nat \<Rightarrow> zone_layout \<Rightarrow> u64 \<Rightarrow> nat" where
  "index_of_from i [] pfn = NR_ZONES"
| "index_of_from i (sp # sps) pfn = (if span_contains sp pfn then i else index_of_from (Suc i) sps pfn)"

definition index_of :: "zone_layout \<Rightarrow> u64 \<Rightarrow> nat" where
  "index_of l pfn = index_of_from 0 l pfn"

fun zone_of_from :: "nat \<Rightarrow> zone_layout \<Rightarrow> u64 \<Rightarrow> zone_type option" where
  "zone_of_from i [] pfn = None"
| "zone_of_from i (sp # sps) pfn =
     (if span_contains sp pfn then zone_from_index i else zone_of_from (Suc i) sps pfn)"

definition zone_of :: "zone_layout \<Rightarrow> u64 \<Rightarrow> zone_type option" where
  "zone_of l pfn = zone_of_from 0 l pfn"

definition layout_pfn_max :: "zone_layout \<Rightarrow> u64" where
  "layout_pfn_max l = end_pfn (l ! (NR_ZONES - 1))"

section \<open>Address bounds (zone/dma.rs)\<close>

definition gfp_for_pfn_limit :: "zone_layout \<Rightarrow> u64 \<Rightarrow> gfp" where
  "gfp_for_pfn_limit l limit =
     (if limit \<le> end_pfn (layout_span l Dma) then GFP_DMA
      else if limit \<le> end_pfn (layout_span l Dma32) then GFP_DMA32
      else 0)"

definition narrow_zone_bits :: "gfp \<Rightarrow> gfp option" where
  "narrow_zone_bits g =
     (let rest = g AND NOT GFP_ZONEMASK in
      if g AND (GFP_DMA32 OR GFP_DMA) = 0 then Some (rest OR GFP_DMA32)
      else if g AND GFP_DMA = 0 then Some (rest OR GFP_DMA)
      else None)"

section \<open>Mobility classes (zone/migrate.rs)\<close>

datatype migrate_type = Unmovable | Movable | Reclaimable

definition MIGRATE_TYPES :: nat where
  "MIGRATE_TYPES = 3"

fun mt_index :: "migrate_type \<Rightarrow> nat" where
  "mt_index Unmovable = 0"
| "mt_index Movable = 1"
| "mt_index Reclaimable = 2"

fun fallbacks :: "migrate_type \<Rightarrow> migrate_type list" where
  "fallbacks Unmovable = [Reclaimable, Movable]"
| "fallbacks Movable = [Reclaimable, Unmovable]"
| "fallbacks Reclaimable = [Unmovable, Movable]"

definition mt_from_index :: "nat \<Rightarrow> migrate_type" where
  "mt_from_index i = (if i = 1 then Movable else if i = 2 then Reclaimable else Unmovable)"

definition gfp_migratetype :: "gfp \<Rightarrow> gfp_error + migrate_type" where
  "gfp_migratetype flags =
     (let m = flags AND (GFP_MOVABLE OR GFP_RECLAIMABLE) in
      if m = 0 then Inr Unmovable
      else if m = GFP_MOVABLE then Inr Movable
      else if m = GFP_RECLAIMABLE then Inr Reclaimable
      else Inl GfpError)"

section \<open>Fallback order (zone/zonelist.rs)\<close>

record zonelist =
  zl_entries :: "nat list"
  zl_len :: nat

definition zonelist_default :: zonelist where
  "zonelist_default = \<lparr>zl_entries = replicate NR_ZONES 0, zl_len = 0\<rparr>"

fun zonelist_build_loop :: "nat \<Rightarrow> bool list \<Rightarrow> zonelist \<Rightarrow> zonelist" where
  "zonelist_build_loop 0 populated out = out"
| "zonelist_build_loop (Suc i) populated out =
     zonelist_build_loop i populated
       (if populated ! i
        then \<lparr>zl_entries = (zl_entries out)[zl_len out := i], zl_len = zl_len out + 1\<rparr>
        else out)"

definition zonelist_build :: "bool list \<Rightarrow> zonelist" where
  "zonelist_build populated = zonelist_build_loop NR_ZONES populated zonelist_default"

definition zonelist_entry :: "zonelist \<Rightarrow> nat \<Rightarrow> nat option" where
  "zonelist_entry zl pos = (if pos < zl_len zl then Some (zl_entries zl ! pos) else None)"

text \<open>
  The iterator's \<open>next\<close>: the zone it yields with the cursor it leaves, and the sequence a
  \<open>for\<close> loop over it visits.
\<close>

function walk_next :: "zonelist \<Rightarrow> nat \<Rightarrow> nat \<Rightarrow> (zone_type option \<times> nat)" where
  "walk_next zl highest pos =
     (if pos < zl_len zl then
        (let idx = zl_entries zl ! pos in
         if idx \<le> highest then (zone_from_index idx, pos + 1) else walk_next zl highest (pos + 1))
      else (None, pos))"
  by pat_completeness auto
termination
  by (relation "measure (\<lambda>(zl, highest, pos). zl_len zl - pos)") auto

declare walk_next.simps [simp del]

lemma walk_next_pos: "walk_next zl highest pos = (r, pos') \<Longrightarrow> pos \<le> pos' \<and> (r \<noteq> None \<longrightarrow> pos < pos' \<and> pos < zl_len zl)"
proof (induction zl highest pos arbitrary: r pos' rule: walk_next.induct)
  case (1 zl highest pos)
  show ?case
  proof (cases "pos < zl_len zl \<and> \<not> zl_entries zl ! pos \<le> highest")
    case True
    with 1 show ?thesis by (fastforce simp: walk_next.simps [of zl highest pos] Let_def)
  next
    case False
    with 1(2) show ?thesis
      by (auto simp: walk_next.simps [of zl highest pos] Let_def split: if_splits)
  qed
qed

function walk_from :: "zonelist \<Rightarrow> nat \<Rightarrow> nat \<Rightarrow> zone_type list" where
  "walk_from zl highest pos =
     (case walk_next zl highest pos of
        (None, _) \<Rightarrow> []
      | (Some z, pos') \<Rightarrow> z # walk_from zl highest pos')"
  by pat_completeness auto
termination
  by (relation "measure (\<lambda>(zl, highest, pos). zl_len zl - pos)") (auto dest!: walk_next_pos [OF sym])

declare walk_from.simps [simp del]

definition zonelist_walk :: "zonelist \<Rightarrow> nat \<Rightarrow> zone_type list" where
  "zonelist_walk zl highest = walk_from zl highest 0"

section \<open>Lowmem reserve (zone/reserve.rs)\<close>

definition DEFAULT_LOWMEM_RESERVE_RATIO :: "u64 list" where
  "DEFAULT_LOWMEM_RESERVE_RATIO = [256, 256, 32, 0]"

type_synonym lowmem_reserve_matrix = "u64 list list"

fun reserve_scan :: "bool \<Rightarrow> u64 \<Rightarrow> u64 \<Rightarrow> u64 list \<Rightarrow> u64 list" where
  "reserve_scan clear ratio upper [] = []"
| "reserve_scan clear ratio upper (m # ms) =
     (let upper' = saturating_add upper m
      in (if clear then 0 else upper' div ratio) # reserve_scan clear ratio upper' ms)"

definition reserve_row :: "u64 list \<Rightarrow> u64 list \<Rightarrow> nat \<Rightarrow> u64 list" where
  "reserve_row managed ratio i =
     (if i < NR_ZONES - 1 then
        replicate (i + 1) 0 @
        reserve_scan (ratio ! i = 0 \<or> managed ! i = 0) (ratio ! i) 0 (drop (i + 1) managed)
      else replicate NR_ZONES 0)"

definition lowmem_reserve :: "u64 list \<Rightarrow> u64 list \<Rightarrow> lowmem_reserve_matrix" where
  "lowmem_reserve managed ratio = map (reserve_row managed ratio) [0..<NR_ZONES]"

section \<open>The allocation gate (zone/wmark.rs)\<close>

datatype alloc_wmark = Low | Min | MinReserve | MinNonBlock

definition slowpath_wmark :: "bool \<Rightarrow> bool \<Rightarrow> alloc_wmark" where
  "slowpath_wmark min_reserve can_block =
     (if \<not> min_reserve then Min
      else if can_block then MinReserve else MinNonBlock)"

definition MAX_ORDER :: nat where "MAX_ORDER = 20"
definition ORDERS :: nat where "ORDERS = MAX_ORDER + 1"

fun area_pages_from :: "nat \<Rightarrow> u64 \<Rightarrow> u64 list \<Rightarrow> u64" where
  "area_pages_from o' acc [] = acc"
| "area_pages_from o' acc (n # ns) =
     area_pages_from (Suc o') (saturating_add acc ((n * 2 ^ o') mod 2 ^ 64)) ns"

definition area_free_pages :: "u64 list \<Rightarrow> u64" where
  "area_free_pages area = area_pages_from 0 0 area"

fun effective_min :: "u64 \<Rightarrow> alloc_wmark \<Rightarrow> u64" where
  "effective_min mark Low = mark"
| "effective_min mark Min = mark"
| "effective_min mark MinReserve = mark - mark div 2"
| "effective_min mark MinNonBlock = (let m = mark - mark div 2 in m - m div 4)"

definition zone_watermark_ok_pages :: "u64 \<Rightarrow> alloc_wmark \<Rightarrow> u64 \<Rightarrow> u64 \<Rightarrow> bool" where
  "zone_watermark_ok_pages mark wmark reserve free \<longleftrightarrow>
     saturating_add (effective_min mark wmark) reserve < free"

definition zone_watermark_ok ::
  "zone_type \<Rightarrow> nat \<Rightarrow> u64 \<Rightarrow> alloc_wmark \<Rightarrow> lowmem_reserve_matrix \<Rightarrow> nat \<Rightarrow> u64 list \<Rightarrow> bool" where
  "zone_watermark_ok zone order mark wmark reserve highest area =
     (let free = area_free_pages area - (2 ^ order - 1);
          idx = (if highest < NR_ZONES then highest else NR_ZONES - 1)
      in if \<not> zone_watermark_ok_pages mark wmark (reserve ! zone_index zone ! idx) free then False
         else if order = 0 then True
         else list_ex (\<lambda>o'. area ! o' > 0) [order..<ORDERS])"

section \<open>Watermark derivation (watermark.rs)\<close>

definition WATERMARK_SCALE_DENOMINATOR :: u64 where "WATERMARK_SCALE_DENOMINATOR = 10000"
definition MIN_FREE_KBYTES_FLOOR :: u64 where "MIN_FREE_KBYTES_FLOOR = 128"
definition MIN_FREE_KBYTES_CEILING :: u64 where "MIN_FREE_KBYTES_CEILING = 262144"
definition KIB_BYTES :: u64 where "KIB_BYTES = 1024"
definition CAPPED_MIN_SHARE :: u64 where "CAPPED_MIN_SHARE = 1024"
definition CAPPED_MIN_FLOOR :: u64 where "CAPPED_MIN_FLOOR = 32"
definition CAPPED_MIN_CEILING :: u64 where "CAPPED_MIN_CEILING = 128"

record watermark_tunables =
  min_free_kbytes :: "u64 option"
  watermark_scale_factor :: u64

record zone_watermarks =
  wm_min :: u64
  wm_low :: u64
  wm_high :: u64
  wm_promo :: u64

definition zone_watermarks_default :: zone_watermarks where
  "zone_watermarks_default = \<lparr>wm_min = 0, wm_low = 0, wm_high = 0, wm_promo = 0\<rparr>"

function integer_sqrt_loop :: "u64 \<Rightarrow> u64 \<Rightarrow> u64 \<Rightarrow> u64 \<Rightarrow> u64" where
  "integer_sqrt_loop value left right answer =
     (if left \<le> right then
        (let middle = left + (right - left) div 2 in
         if middle \<le> value div middle then integer_sqrt_loop value (middle + 1) right middle
         else integer_sqrt_loop value left (middle - 1) answer)
      else answer)"
  by pat_completeness auto
termination
  by (relation "measure (\<lambda>(value, left, right, answer). right + 1 - left)") (auto simp: Let_def)

declare integer_sqrt_loop.simps [simp del]

definition integer_sqrt :: "u64 \<Rightarrow> u64" where
  "integer_sqrt value =
     (if value < 2 then value
      else integer_sqrt_loop value 1 (min value 4294967295) 1)"

definition default_min_free_kbytes :: "u64 \<Rightarrow> u64 \<Rightarrow> u64" where
  "default_min_free_kbytes managed_pages page_bytes =
     (let lowmem_kbytes = saturating_mul managed_pages page_bytes div KIB_BYTES;
          target = integer_sqrt (saturating_mul lowmem_kbytes 16)
      in clamp target MIN_FREE_KBYTES_FLOOR MIN_FREE_KBYTES_CEILING)"

definition derive_zone_watermarks ::
  "u64 \<Rightarrow> u64 \<Rightarrow> watermark_tunables \<Rightarrow> u64 \<Rightarrow> bool \<Rightarrow> zone_watermarks" where
  "derive_zone_watermarks managed_pages total_managed_pages tunables page_bytes cap_min =
     (if managed_pages = 0 \<or> total_managed_pages = 0 \<or> page_bytes = 0 then zone_watermarks_default
      else
        let min_kbytes = (case min_free_kbytes tunables of
                            None \<Rightarrow> default_min_free_kbytes total_managed_pages page_bytes
                          | Some kb \<Rightarrow> kb);
            total_min_pages = saturating_mul min_kbytes KIB_BYTES div page_bytes;
            proportional = saturating_mul total_min_pages managed_pages div total_managed_pages;
            scale = saturating_mul managed_pages (watermark_scale_factor tunables)
                      div WATERMARK_SCALE_DENOMINATOR;
            gap = max (proportional div 4) scale;
            mn = (if cap_min
                  then clamp (managed_pages div CAPPED_MIN_SHARE) CAPPED_MIN_FLOOR CAPPED_MIN_CEILING
                  else proportional)
        in \<lparr>wm_min = mn,
            wm_low = saturating_add mn gap,
            wm_high = saturating_add mn (saturating_mul gap 2),
            wm_promo = saturating_add mn (saturating_mul gap 3)\<rparr>)"

datatype allocation_action = Allow | WakeBackground | DirectReclaim

text \<open>
  \<open>published\<close> is the aggregate last stored by \<open>watermark::publish\<close>: \<^term>\<open>None\<close> before any
  producer has run (\<open>cell::load\<close> with a zero managed total).
\<close>

definition allocation_policy :: "zone_watermarks option \<Rightarrow> u64 \<Rightarrow> u64 \<Rightarrow> allocation_action" where
  "allocation_policy published free_pages requested_pages =
     (case published of
        None \<Rightarrow> Allow
      | Some zone \<Rightarrow>
          (let remaining = free_pages - requested_pages in
           if remaining < wm_min zone then DirectReclaim
           else if remaining < wm_low zone then WakeBackground
           else Allow))"

definition direct_reclaim_allowed :: "bool \<Rightarrow> bool \<Rightarrow> bool" where
  "direct_reclaim_allowed in_atomic io_flusher \<longleftrightarrow> \<not> in_atomic \<and> \<not> io_flusher"

section \<open>Properties\<close>

subsection \<open>Layout\<close>

lemma less_NR_ZONES: "i < NR_ZONES \<longleftrightarrow> i = 0 \<or> i = 1 \<or> i = 2 \<or> i = 3"
  by (auto simp: NR_ZONES_def)

lemma NR_ZONES_upt: "[0..<NR_ZONES] = [0, 1, 2, 3]"
  by (simp add: NR_ZONES_def upt_rec)

lemma movable_start_le: "movable_start limits pfn_max \<le> pfn_max"
  by (simp add: movable_start_def)

lemma layout_new_spans:
  obtains a b where
    "layout_new limits pfn_max =
       [\<lparr>start_pfn = 0, end_pfn = a\<rparr>, \<lparr>start_pfn = a, end_pfn = b\<rparr>,
        \<lparr>start_pfn = b, end_pfn = movable_start limits pfn_max\<rparr>,
        \<lparr>start_pfn = movable_start limits pfn_max, end_pfn = pfn_max\<rparr>]"
    and "a \<le> b" and "b \<le> movable_start limits pfn_max"
    and "movable_start limits pfn_max \<le> pfn_max"
proof -
  define ms where "ms = movable_start limits pfn_max"
  define a where "a = min (min (dma_end_pfn limits) pfn_max) ms"
  define b where "b = max a (min (min (dma32_end_pfn limits) pfn_max) ms)"
  have ms: "ms \<le> pfn_max" by (simp add: ms_def movable_start_le)
  have ab: "a \<le> b" and bms: "b \<le> ms" by (simp_all add: a_def b_def)
  have "layout_new limits pfn_max =
       [\<lparr>start_pfn = 0, end_pfn = a\<rparr>, \<lparr>start_pfn = a, end_pfn = b\<rparr>,
        \<lparr>start_pfn = b, end_pfn = ms\<rparr>, \<lparr>start_pfn = ms, end_pfn = pfn_max\<rparr>]"
    using ms ab bms
    by (auto simp: layout_new_def Let_def ms_def [symmetric] a_def b_def max_def min_def)
  then show ?thesis using that ab bms ms by (simp add: ms_def)
qed

lemma layout_new_movable_aligned:
  "layout_new limits pfn_max ! 3 =
     \<lparr>start_pfn = movable_start limits pfn_max, end_pfn = pfn_max\<rparr>"
  by (rule layout_new_spans [of limits pfn_max]) simp

lemma movable_start_aligned:
  "movable_start limits pfn_max < pfn_max \<Longrightarrow> PAGEBLOCK_PAGES dvd movable_start limits pfn_max"
  by (auto simp: movable_start_def min_def split: option.splits if_splits)

text \<open>A layout as \<open>ZoneLayout::new\<close> makes it: four abutting spans from 0 to the last page.\<close>

definition wf_layout :: "zone_layout \<Rightarrow> u64 \<Rightarrow> bool" where
  "wf_layout l pfn_max \<longleftrightarrow>
     (\<exists>a b c. l = [\<lparr>start_pfn = 0, end_pfn = a\<rparr>, \<lparr>start_pfn = a, end_pfn = b\<rparr>,
                   \<lparr>start_pfn = b, end_pfn = c\<rparr>, \<lparr>start_pfn = c, end_pfn = pfn_max\<rparr>] \<and>
              a \<le> b \<and> b \<le> c \<and> c \<le> pfn_max)"

lemma wf_layout_new: "wf_layout (layout_new limits pfn_max) pfn_max"
  by (rule layout_new_spans [of limits pfn_max]) (auto simp: wf_layout_def)

lemma wf_layout_length: "wf_layout l n \<Longrightarrow> length l = NR_ZONES"
  by (auto simp: wf_layout_def NR_ZONES_def)

lemma wf_layoutE:
  assumes "wf_layout l n"
  obtains a b c where
    "l = [\<lparr>start_pfn = 0, end_pfn = a\<rparr>, \<lparr>start_pfn = a, end_pfn = b\<rparr>,
          \<lparr>start_pfn = b, end_pfn = c\<rparr>, \<lparr>start_pfn = c, end_pfn = n\<rparr>]"
    and "a \<le> b" and "b \<le> c" and "c \<le> n"
    and "\<And>pfn. index_of l pfn =
           (if pfn < a then 0 else if pfn < b then 1 else if pfn < c then 2
            else if pfn < n then 3 else 4)"
  using assms by (auto simp: wf_layout_def index_of_def span_contains_def NR_ZONES_def)

lemma index_of_less: "wf_layout l n \<Longrightarrow> index_of l pfn < NR_ZONES \<longleftrightarrow> pfn < n"
  by (erule wf_layoutE) (auto simp: NR_ZONES_def)

lemma index_of_eq_iff:
  "wf_layout l n \<Longrightarrow> i < NR_ZONES \<Longrightarrow> index_of l pfn = i \<longleftrightarrow> span_contains (l ! i) pfn"
  by (erule wf_layoutE) (auto simp: less_NR_ZONES span_contains_def split: if_splits)

lemma zone_of_index_of: "wf_layout l n \<Longrightarrow> zone_of l pfn = zone_from_index (index_of l pfn)"
  by (erule wf_layoutE) (auto simp: zone_of_def span_contains_def zone_from_index_def)

lemma index_of_mono: "wf_layout l n \<Longrightarrow> p \<le> q \<Longrightarrow> index_of l p \<le> index_of l q"
  by (erule wf_layoutE) (auto split: if_splits)

text \<open>
  C38: the resolved zone layout is a partition. \<open>ZoneLayout::new\<close> yields exactly four spans, a
  page frame lies in exactly one of them if it is below the end of RAM and in none otherwise, and
  \<open>zone_of\<close> agrees with \<open>index_of\<close>, whatever boundaries the platform supplies.
\<close>

theorem layout_partition:
  "length (layout_new limits pfn_max) = NR_ZONES \<and>
   (\<exists>!i. i < NR_ZONES \<and> span_contains (layout_new limits pfn_max ! i) pfn) = (pfn < pfn_max) \<and>
   zone_of (layout_new limits pfn_max) pfn =
     (if pfn < pfn_max then zone_from_index (index_of (layout_new limits pfn_max) pfn) else None)"
proof -
  let ?l = "layout_new limits pfn_max"
  have wf: "wf_layout ?l pfn_max" by (rule wf_layout_new)
  have "(\<exists>!i. i < NR_ZONES \<and> span_contains (?l ! i) pfn) = (pfn < pfn_max)"
    using index_of_less [OF wf, of pfn] index_of_eq_iff [OF wf] by metis
  moreover have "zone_of ?l pfn = (if pfn < pfn_max then zone_from_index (index_of ?l pfn) else None)"
    using index_of_less [OF wf, of pfn]
    by (auto simp: zone_of_index_of [OF wf] zone_from_index_def NR_ZONES_def)
  ultimately show ?thesis using wf_layout_length [OF wf] by simp
qed

subsection \<open>The fallback walk\<close>

lemma walk_from_eq:
  "(\<forall>i<zl_len zl. zl_entries zl ! i < NR_ZONES) \<Longrightarrow> 
   walk_from zl highest pos =
     map (the \<circ> zone_from_index) (filter (\<lambda>i. i \<le> highest) (map ((!) (zl_entries zl)) [pos..<zl_len zl]))"
proof (induction "zl_len zl - pos" arbitrary: pos rule: less_induct)
  case less
  show ?case
  proof (cases "pos < zl_len zl")
    case False
    then show ?thesis by (simp add: walk_from.simps [of zl highest pos] walk_next.simps [of zl highest pos])
  next
    case True
    let ?idx = "zl_entries zl ! pos"
    have idx: "?idx < NR_ZONES" using less.prems True by blast
    then obtain z where z: "zone_from_index ?idx = Some z"
      by (cases "zone_from_index ?idx") (auto simp: zone_from_index_def NR_ZONES_def split: if_splits)
    have ih: "walk_from zl highest (Suc pos) =
     map (the \<circ> zone_from_index) (filter (\<lambda>i. i \<le> highest) (map ((!) (zl_entries zl)) [Suc pos..<zl_len zl]))"
      using less True by simp
    show ?thesis
    proof (cases "?idx \<le> highest")
      case True': True
      then have "walk_from zl highest pos = z # walk_from zl highest (Suc pos)"
        using True z by (simp add: walk_from.simps [of zl highest pos] walk_next.simps [of zl highest pos])
      then show ?thesis using ih True True' z by (simp add: upt_conv_Cons)
    next
      case False
      then have "walk_next zl highest pos = walk_next zl highest (Suc pos)"
        using True by (simp add: walk_next.simps [of zl highest pos])
      then have "walk_from zl highest pos = walk_from zl highest (Suc pos)"
        by (simp add: walk_from.simps [of zl highest pos] walk_from.simps [of zl highest "Suc pos"])
      then show ?thesis using ih True False by (simp add: upt_conv_Cons)
    qed
  qed
qed

definition zonelist_order :: "bool list \<Rightarrow> nat list" where
  "zonelist_order populated = filter (\<lambda>i. populated ! i) (rev [0..<NR_ZONES])"

lemma zonelist_build_eq:
  "map ((!) (zl_entries (zonelist_build populated))) [0..<zl_len (zonelist_build populated)] = zonelist_order populated"
  by (simp add: zonelist_build_def zonelist_order_def NR_ZONES_def zonelist_default_def numeral_eq_Suc upt_rec)

text \<open>
  C40: the fallback walk visits exactly the populated zones at or below the highest permitted
  index, from the highest down. No zone above the bound is ever visited.
\<close>

theorem zonelist_walk_eq:
  "zonelist_walk (zonelist_build populated) highest =
     map (the \<circ> zone_from_index) (filter (\<lambda>i. populated ! i \<and> i \<le> highest) [3, 2, 1, 0])"
proof -
  let ?zl = "zonelist_build populated"
  have eq: "map ((!) (zl_entries ?zl)) [0..<zl_len ?zl] = zonelist_order populated"
    by (rule zonelist_build_eq)
  have "zl_entries ?zl ! i < NR_ZONES" if "i < zl_len ?zl" for i
  proof -
    have "zl_entries ?zl ! i \<in> set (zonelist_order populated)"
      using that by (simp flip: eq)
    then show ?thesis by (simp add: zonelist_order_def)
  qed
  then have "zonelist_walk ?zl highest =
      map (the \<circ> zone_from_index) (filter (\<lambda>i. i \<le> highest) (zonelist_order populated))"
    using walk_from_eq [of ?zl highest 0] by (simp add: zonelist_walk_def flip: eq)
  also have "filter (\<lambda>i. i \<le> highest) (zonelist_order populated) =
      filter (\<lambda>i. populated ! i \<and> i \<le> highest) [3, 2, 1, 0]"
    by (simp add: zonelist_order_def NR_ZONES_upt conj_commute)
  finally show ?thesis .
qed

lemma length_reserve_scan [simp]: "length (reserve_scan clear r u ms) = length ms"
  by (induction ms arbitrary: u) (simp_all add: Let_def)

lemma reserve_scan_ge: "x \<in> set (reserve_scan False r u ms) \<Longrightarrow> u \<le> U64_MAX \<Longrightarrow> u div r \<le> x"
proof (induction ms arbitrary: u)
  case (Cons m ms)
  have "u \<le> saturating_add u m" using Cons.prems(2) by (simp add: saturating_add_def)
  then have "u div r \<le> saturating_add u m div r" by (rule div_le_mono)
  with Cons show ?case by (force simp: Let_def)
qed simp

lemma sorted_reserve_scan: "u \<le> U64_MAX \<Longrightarrow> sorted (reserve_scan clear r u ms)"
proof (induction ms arbitrary: u)
  case (Cons m ms)
  then show ?case
    by (cases clear) (auto simp: Let_def dest: reserve_scan_ge [rotated] intro: reserve_scan_ge)
qed simp

lemma reserve_row_sorted: "sorted (reserve_row managed ratio i)"
  by (auto simp: reserve_row_def sorted_append sorted_reserve_scan)

text \<open>
  The lowmem reserve is monotone in the highest zone a class may use: a class with a wider
  choice of zones never gets to deplete a low zone harder than a narrower one.
\<close>

theorem lowmem_reserve_mono:
  assumes "length managed = NR_ZONES" and "i < NR_ZONES" and "j \<le> k" and "k < NR_ZONES"
  shows "lowmem_reserve managed ratio ! i ! j \<le> lowmem_reserve managed ratio ! i ! k"
proof -
  have len: "length (reserve_row managed ratio i) = NR_ZONES"
    using assms(1,2) by (auto simp: reserve_row_def NR_ZONES_def)
  show ?thesis
    using assms by (simp add: lowmem_reserve_def sorted_nth_mono [OF reserve_row_sorted] len)
qed

theorem lowmem_reserve_mono_witness:
  "lowmem_reserve [4096, 1044480, 2048, 0] DEFAULT_LOWMEM_RESERVE_RATIO ! 0 ! 1 \<le>
   lowmem_reserve [4096, 1044480, 2048, 0] DEFAULT_LOWMEM_RESERVE_RATIO ! 0 ! 3"
  by (rule lowmem_reserve_mono) (simp_all add: NR_ZONES_def)

lemma effective_min_ladder:
  "effective_min mark MinNonBlock \<le> effective_min mark MinReserve"
  "effective_min mark MinReserve \<le> effective_min mark Min"
  by (simp_all add: Let_def)

text \<open>
  The derived watermarks are ordered, \<open>min \<le> low \<le> high \<le> promo\<close>, for every zone size,
  tunable setting and page size, saturation included.
\<close>

theorem watermark_order:
  "wm_min (derive_zone_watermarks m t tun pb cap) \<le> wm_low (derive_zone_watermarks m t tun pb cap) \<and>
   wm_low (derive_zone_watermarks m t tun pb cap) \<le> wm_high (derive_zone_watermarks m t tun pb cap) \<and>
   wm_high (derive_zone_watermarks m t tun pb cap) \<le> wm_promo (derive_zone_watermarks m t tun pb cap)"
proof -
  have chain: "mn \<le> saturating_add mn gap \<and>
      saturating_add mn gap \<le> saturating_add mn (saturating_mul gap 2) \<and>
      saturating_add mn (saturating_mul gap 2) \<le> saturating_add mn (saturating_mul gap 3)"
    if "mn \<le> U64_MAX" "gap \<le> U64_MAX" for mn gap
    using that by (auto simp: saturating_add_def saturating_mul_def)
  have div_bound: "saturating_mul x y div z \<le> U64_MAX" for x y z
    by (rule order_trans [OF div_le_dividend]) (simp add: saturating_mul_def)
  have gap: "max (saturating_mul x y div z div 4) (saturating_mul x' y' div z') \<le> U64_MAX"
    for x y z x' y' z'
    using div_bound [of x y z] div_bound [of x' y' z'] by simp
  have capped: "clamp x CAPPED_MIN_FLOOR CAPPED_MIN_CEILING \<le> U64_MAX" for x
    by (auto simp: clamp_def CAPPED_MIN_FLOOR_def CAPPED_MIN_CEILING_def U64_MAX_def)
  show ?thesis
    unfolding derive_zone_watermarks_def Let_def
    using chain [OF capped gap] chain [OF div_bound gap]
    by (simp add: zone_watermarks_default_def)
qed

lemma integer_sqrt_loop_bounds:
  assumes "answer * answer \<le> v" and "v < (right + 1) * (right + 1)"
    and "0 < left" and "left \<le> answer + 1" and "answer \<le> right"
  shows "integer_sqrt_loop v left right answer * integer_sqrt_loop v left right answer \<le> v \<and>
    v < (integer_sqrt_loop v left right answer + 1) * (integer_sqrt_loop v left right answer + 1)"
  using assms
proof (induction v left right answer rule: integer_sqrt_loop.induct)
  case (1 v left right answer)
  show ?case
  proof (cases "left \<le> right")
    case False
    with "1.prems" have "right = answer" by simp
    moreover have "integer_sqrt_loop v left right answer = answer"
      using False by (simp add: integer_sqrt_loop.simps [of v left right answer])
    ultimately show ?thesis using "1.prems" by (simp only:)
  next
    case True
    define m where "m = left + (right - left) div 2"
    have m: "left \<le> m" "m \<le> right" "0 < m" using True "1.prems" by (auto simp: m_def)
    have sq: "m \<le> v div m \<longleftrightarrow> m * m \<le> v"
      using m(3) by (simp add: less_eq_div_iff_mult_less_eq)
    have eq: "integer_sqrt_loop v left right answer =
        (if m * m \<le> v then integer_sqrt_loop v (m + 1) right m
         else integer_sqrt_loop v left (m - 1) answer)"
      using True sq
      by (simp add: integer_sqrt_loop.simps [of v left right answer] Let_def m_def [symmetric])
    show ?thesis
    proof (cases "m * m \<le> v")
      case True': True
      then have "m \<le> v div m" using sq by simp
      from 1(1) [OF True m_def this] show ?thesis
        using True' eq "1.prems" m by simp
    next
      case False
      then have "\<not> m \<le> v div m" using sq by simp
      moreover have "v < (m - 1 + 1) * (m - 1 + 1)" using False m by simp
      moreover have "answer \<le> m - 1"
      proof -
        have "answer * answer < m * m" using False "1.prems" by simp
        then have "answer < m" by (meson mult_le_mono not_less)
        then show ?thesis by simp
      qed
      ultimately show ?thesis
        using 1(2) [OF True m_def] False eq "1.prems" by simp
    qed
  qed
qed

text \<open>
  The binary search of \<open>integer_sqrt\<close> terminates with the floor of the square root on every
  \<open>u64\<close>.
\<close>

theorem integer_sqrt_correct:
  assumes "v \<le> U64_MAX"
  shows "integer_sqrt v * integer_sqrt v \<le> v \<and> v < (integer_sqrt v + 1) * (integer_sqrt v + 1)"
proof (cases "v < 2")
  case True
  then show ?thesis by (auto simp: integer_sqrt_def less_Suc_eq numeral_eq_Suc)
next
  case False
  let ?r = "min v 4294967295"
  have "v < (?r + 1) * (?r + 1)"
    using assms False by (auto simp: min_def U64_MAX_def algebra_simps)
  moreover have "1 \<le> ?r" using False by simp
  ultimately have "integer_sqrt_loop v 1 ?r 1 * integer_sqrt_loop v 1 ?r 1 \<le> v \<and>
      v < (integer_sqrt_loop v 1 ?r 1 + 1) * (integer_sqrt_loop v 1 ?r 1 + 1)"
    using False by (intro integer_sqrt_loop_bounds) auto
  then show ?thesis using False by (simp add: integer_sqrt_def)
qed

theorem integer_sqrt_correct_witness:
  "integer_sqrt 1000000 * integer_sqrt 1000000 \<le> 1000000 \<and>
   1000000 < (integer_sqrt 1000000 + 1) * (integer_sqrt 1000000 + 1)"
  by (rule integer_sqrt_correct) (simp add: U64_MAX_def)

lemma gfp_zone_cases:
  assumes "gfp_zone g = Inr z"
  shows "(g AND 15, z) \<in> {(0, Normal), (1, Dma), (2, Normal), (4, Dma32), (8, Normal), (9, Dma),
    (10, MovableZone), (12, Dma32)}"
  using assms by (auto simp: gfp_zone_def gfp_flag_defs Let_def split: if_splits)

lemma narrow_zone_bits_decreases:
  assumes "narrow_zone_bits g = Some g'" and "gfp_zone g = Inr z"
  shows "\<exists>z'. gfp_zone g' = Inr z' \<and> zone_index z' < zone_index z"
proof -
  have 4: "((g AND NOT 15) OR 4) AND 15 = (4::32 word)"
    by (simp add: bit.conj_disj_distrib2 and.assoc)
  have 1: "((g AND NOT 15) OR 1) AND 15 = (1::32 word)"
    by (simp add: bit.conj_disj_distrib2 and.assoc)
  have 5: "g AND 5 = (g AND 15) AND 5" by (simp add: and.assoc)
  have 6: "g AND 1 = (g AND 15) AND 1" by (simp add: and.assoc)
  have zone4: "gfp_zone ((g AND NOT 15) OR 4) = Inr Dma32"
    using 4 by (simp add: gfp_zone_def gfp_flag_defs)
  have zone1: "gfp_zone ((g AND NOT 15) OR 1) = Inr Dma"
    using 1 by (simp add: gfp_zone_def gfp_flag_defs)
  have "g' = (if (g AND 15) AND 5 = 0 then (g AND NOT 15) OR 4 else (g AND NOT 15) OR 1)"
      "(g AND 15) AND 5 = 0 \<or> (g AND 15) AND 1 = 0"
    using assms(1) unfolding 5 [symmetric] 6 [symmetric]
    by (auto simp: narrow_zone_bits_def gfp_flag_defs Let_def split: if_splits)
  with gfp_zone_cases [OF assms(2)] zone4 zone1 show ?thesis by auto
qed

lemma gfp_for_pfn_limit_zone:
  "gfp_zone (gfp_for_pfn_limit l limit) =
     Inr (if limit \<le> end_pfn (layout_span l Dma) then Dma
          else if limit \<le> end_pfn (layout_span l Dma32) then Dma32 else Normal)"
  by (simp add: gfp_for_pfn_limit_def gfp_zone_def gfp_flag_defs)

subsection \<open>The watermark gate\<close>

lemma area_pages_from_le: "acc \<le> U64_MAX \<Longrightarrow> area_pages_from o' acc ns \<le> U64_MAX"
  by (induction ns arbitrary: o' acc) simp_all

lemma area_free_pages_le: "area_free_pages area \<le> U64_MAX"
  by (simp add: area_free_pages_def area_pages_from_le)

lemma zone_watermark_ok_pages_iff:
  "free \<le> U64_MAX \<Longrightarrow>
   zone_watermark_ok_pages mark wmark reserve free \<longleftrightarrow> effective_min mark wmark + reserve < free"
  by (auto simp: zone_watermark_ok_pages_def saturating_add_def)


lemma effective_min_le: "effective_min mark wmark \<le> mark"
  by (cases wmark) (auto simp: Let_def)

end
