(* ===== verification/Bitmaps.thy ===== *)
theory Bitmaps
  imports Zones
begin

text \<open>
  The bit arrays of the allocator (\<open>buddy/inner.rs\<close>, \<open>buddy/pcp.rs\<close>) and the packed two-bit
  pageblock map (\<open>buddy/pageblock.rs\<close>), at the level of their 64-bit words. An index past the
  end of the word slice panics. The interfaces the allocator relies on are the locales
  \<open>bit_array\<close> and \<open>type_map\<close>, interpreted here on the word implementations.
\<close>

unbundle bit_operations_syntax

section \<open>Bitmaps over 64-bit words\<close>

type_synonym bitmap = "64 word list"

definition bm_get :: "bitmap \<Rightarrow> nat \<Rightarrow> bool option" where
  "bm_get bm index =
     (let word = index div 64; b = index mod 64 in
      if word < length bm then Some (drop_bit b (bm ! word) AND 1 = 1) else None)"

definition bm_set :: "bitmap \<Rightarrow> nat \<Rightarrow> bitmap option" where
  "bm_set bm index =
     (let word = index div 64; b = index mod 64 in
      if word < length bm then Some (bm[word := bm ! word OR push_bit b 1]) else None)"

definition bm_clear :: "bitmap \<Rightarrow> nat \<Rightarrow> bitmap option" where
  "bm_clear bm index =
     (let word = index div 64; b = index mod 64 in
      if word < length bm then Some (bm[word := bm ! word AND NOT (push_bit b 1)]) else None)"

definition count_ones :: "64 word \<Rightarrow> nat" where
  "count_ones w = length (filter (bit w) [0..<64])"

definition bm_popcount :: "bitmap \<Rightarrow> nat" where
  "bm_popcount bm = sum_list (map count_ones bm)"

definition bm_bits :: "bitmap \<Rightarrow> nat set" where
  "bm_bits bm = {i. bm_get bm i = Some True}"

section \<open>Pageblock types (buddy/pageblock.rs)\<close>

definition TYPES_PER_WORD :: nat where "TYPES_PER_WORD = 32"
definition TYPE_BITS :: nat where "TYPE_BITS = 2"
definition TYPE_MASK :: "64 word" where "TYPE_MASK = 3"

definition pb_words_for :: "u64 \<Rightarrow> nat" where
  "pb_words_for pfn_max =
     (let blocks = saturating_add pfn_max (2 ^ PAGEBLOCK_ORDER - 1) div 2 ^ PAGEBLOCK_ORDER
      in saturating_add blocks (TYPES_PER_WORD - 1) div TYPES_PER_WORD)"

definition pb_get :: "bitmap \<Rightarrow> u64 \<Rightarrow> migrate_type option" where
  "pb_get words pfn =
     (let block = pfn div 2 ^ PAGEBLOCK_ORDER;
          word = block div TYPES_PER_WORD;
          shift = (block mod TYPES_PER_WORD) * TYPE_BITS
      in if word < length words
         then Some (mt_from_index (unat (drop_bit shift (words ! word) AND TYPE_MASK)))
         else None)"

definition pb_set :: "bitmap \<Rightarrow> u64 \<Rightarrow> migrate_type \<Rightarrow> bitmap option" where
  "pb_set words block mt =
     (let word = block div TYPES_PER_WORD;
          shift = (block mod TYPES_PER_WORD) * TYPE_BITS;
          mask = push_bit shift TYPE_MASK;
          val = push_bit shift (word_of_nat (mt_index mt))
      in if word < length words
         then Some (words[word := (words ! word AND NOT mask) OR val])
         else None)"

fun pb_set_blocks :: "bitmap \<Rightarrow> u64 list \<Rightarrow> migrate_type \<Rightarrow> bitmap option" where
  "pb_set_blocks words [] mt = Some words"
| "pb_set_blocks words (block # blocks) mt =
     do { words' \<leftarrow> pb_set words block mt; pb_set_blocks words' blocks mt }"

definition pb_set_range :: "bitmap \<Rightarrow> u64 \<Rightarrow> u64 \<Rightarrow> migrate_type \<Rightarrow> bitmap option" where
  "pb_set_range words s e mt =
     (if e \<le> s then Some words
      else pb_set_blocks words [s div 2 ^ PAGEBLOCK_ORDER..<Suc ((e - 1) div 2 ^ PAGEBLOCK_ORDER)] mt)"

section \<open>Word lemmas\<close>

lemma drop_bit_and_1: "(drop_bit b w AND 1 = (1 :: 64 word)) \<longleftrightarrow> bit w b"
  by (simp add: and_one_eq odd_iff_mod_2_eq_one [symmetric] bit_iff_odd_drop_bit)

lemma bit_or_exp: "n < 64 \<Longrightarrow> bit (w OR (2 :: 64 word) ^ b) n \<longleftrightarrow> bit w n \<or> n = b"
  by (auto simp: bit_simps)

lemma bit_and_not_exp: "n < 64 \<Longrightarrow> bit (w AND NOT ((2 :: 64 word) ^ b)) n \<longleftrightarrow> bit w n \<and> n \<noteq> b"
  by (auto simp: bit_simps)

section \<open>The bit-array interface\<close>

locale bit_array =
  fixes get :: "'m \<Rightarrow> nat \<Rightarrow> bool option"
    and put :: "'m \<Rightarrow> nat \<Rightarrow> 'm option"
    and del :: "'m \<Rightarrow> nat \<Rightarrow> 'm option"
    and cap :: "'m \<Rightarrow> nat"
  assumes get_dom: "get m i = None \<longleftrightarrow> cap m \<le> i"
    and put_dom: "put m i = None \<longleftrightarrow> cap m \<le> i"
    and del_dom: "del m i = None \<longleftrightarrow> cap m \<le> i"
    and get_put: "put m i = Some m' \<Longrightarrow> get m' j = (if j = i then Some True else get m j)"
    and get_del: "del m i = Some m' \<Longrightarrow> get m' j = (if j = i then Some False else get m j)"
    and cap_put: "put m i = Some m' \<Longrightarrow> cap m' = cap m"
    and cap_del: "del m i = Some m' \<Longrightarrow> cap m' = cap m"
begin

lemma get_defined: "i < cap m \<Longrightarrow> \<exists>b. get m i = Some b"
  using get_dom [of m i] by auto

lemma returns_get: "i < cap m \<Longrightarrow> returns (get m i) (\<lambda>b. b \<longleftrightarrow> i \<in> {i. get m i = Some True})"
  using get_defined [of i m] by (auto simp: returns_def)

lemma returns_put:
  "i < cap m \<Longrightarrow> returns (put m i)
     (\<lambda>m'. {j. get m' j = Some True} = insert i {j. get m j = Some True} \<and> cap m' = cap m)"
  using put_dom [of m i] by (auto simp: returns_def get_put cap_put)

lemma returns_del:
  "i < cap m \<Longrightarrow> returns (del m i)
     (\<lambda>m'. {j. get m' j = Some True} = {j. get m j = Some True} - {i} \<and> cap m' = cap m)"
  using del_dom [of m i] by (auto simp: returns_def get_del cap_del)

lemma bits_bounded: "{j. get m j = Some True} \<subseteq> {..<cap m}"
proof
  fix j assume "j \<in> {j. get m j = Some True}"
  then show "j \<in> {..<cap m}" using get_dom [of m j] by simp
qed

end

lemma bm_get_bit: "bm_get bm i = (if i div 64 < length bm then Some (bit (bm ! (i div 64)) (i mod 64)) else None)"
  by (simp add: bm_get_def Let_def drop_bit_and_1)

lemma div_less_iff_64: "i div 64 < n \<longleftrightarrow> i < 64 * (n :: nat)"
  by (simp add: div_less_iff_less_mult mult.commute)

interpretation bm: bit_array bm_get bm_set bm_clear "\<lambda>bm. 64 * length bm"
proof
  fix m m' :: bitmap and i j :: nat
  show "bm_get m i = None \<longleftrightarrow> 64 * length m \<le> i"
    by (auto simp: bm_get_bit div_less_iff_64)
  show "bm_set m i = None \<longleftrightarrow> 64 * length m \<le> i"
    by (auto simp: bm_set_def Let_def div_less_iff_64)
  show "bm_clear m i = None \<longleftrightarrow> 64 * length m \<le> i"
    by (auto simp: bm_clear_def Let_def div_less_iff_64)
  have same: "i div 64 = j div 64 \<Longrightarrow> i mod 64 = j mod 64 \<Longrightarrow> i = j"
    by (metis div_mult_mod_eq)
  show "bm_set m i = Some m' \<Longrightarrow> bm_get m' j = (if j = i then Some True else bm_get m j)"
    using same by (auto simp: bm_set_def Let_def bm_get_bit bit_or_exp nth_list_update split: if_splits)
  show "bm_clear m i = Some m' \<Longrightarrow> bm_get m' j = (if j = i then Some False else bm_get m j)"
    using same by (auto simp: bm_clear_def Let_def bm_get_bit bit_and_not_exp nth_list_update split: if_splits)
  show "bm_set m i = Some m' \<Longrightarrow> 64 * length m' = 64 * length m"
    by (auto simp: bm_set_def Let_def split: if_splits)
  show "bm_clear m i = Some m' \<Longrightarrow> 64 * length m' = 64 * length m"
    by (auto simp: bm_clear_def Let_def split: if_splits)
qed

lemma count_ones_card: "count_ones w = card {i. i < 64 \<and> bit w i}"
  by (simp add: count_ones_def distinct_length_filter Int_def conj_commute)

lemma bm_popcount_card: "bm_popcount bm = card (bm_bits bm)"
proof (induction bm)
  case Nil
  then show ?case by (simp add: bm_popcount_def bm_bits_def bm_get_bit)
next
  case (Cons w bm)
  have split: "bm_bits (w # bm) = {i. i < 64 \<and> bit w i} \<union> (\<lambda>i. i + 64) ` bm_bits bm"
  proof (intro set_eqI)
    fix i
    show "i \<in> bm_bits (w # bm) \<longleftrightarrow> i \<in> {i. i < 64 \<and> bit w i} \<union> (\<lambda>i. i + 64) ` bm_bits bm"
    proof (cases "i < 64")
      case True
      then show ?thesis by (auto simp: bm_bits_def bm_get_bit)
    next
      case False
      then obtain j where j: "i = j + 64" by (metis add.commute le_add_diff_inverse not_less)
      have "(j + 64) div 64 = Suc (j div 64)" by simp
      then have "j + 64 \<in> bm_bits (w # bm) \<longleftrightarrow> j \<in> bm_bits bm"
        by (simp add: bm_bits_def bm_get_bit)
      then show ?thesis by (auto simp: j)
    qed
  qed
  have "finite (bm_bits bm)"
    using bm.bits_bounded [of bm] by (auto simp: bm_bits_def intro: finite_subset)
  then have "card (bm_bits (w # bm)) = count_ones w + card ((\<lambda>i. i + 64) ` bm_bits bm)"
    unfolding split count_ones_card by (intro card_Un_disjoint) auto
  also have "card ((\<lambda>i. i + 64) ` bm_bits bm) = card (bm_bits bm)"
    by (intro card_image) (auto simp: inj_on_def)
  finally show ?case using Cons by (simp add: bm_popcount_def)
qed

section \<open>The type-map interface\<close>

locale type_map =
  fixes get :: "'m \<Rightarrow> nat \<Rightarrow> 't option"
    and put :: "'m \<Rightarrow> nat \<Rightarrow> 't \<Rightarrow> 'm option"
    and cap :: "'m \<Rightarrow> nat"
  assumes get_dom: "get m i = None \<longleftrightarrow> cap m \<le> i"
    and put_dom: "put m i t = None \<longleftrightarrow> cap m \<le> i"
    and get_put: "put m i t = Some m' \<Longrightarrow> get m' j = (if j = i then Some t else get m j)"
    and cap_put: "put m i t = Some m' \<Longrightarrow> cap m' = cap m"
begin

lemma returns_put:
  "i < cap m \<Longrightarrow> returns (put m i t) (\<lambda>m'. get m' = (get m)(i := Some t) \<and> cap m' = cap m)"
  using put_dom [of m i t] by (auto simp: returns_def get_put cap_put fun_eq_iff)

end

text \<open>The type stored for a whole pageblock.\<close>

definition pb_block :: "bitmap \<Rightarrow> nat \<Rightarrow> migrate_type option" where
  "pb_block words block = pb_get words (block * 2 ^ PAGEBLOCK_ORDER)"

lemma pb_get_block: "pb_get words pfn = pb_block words (pfn div 2 ^ PAGEBLOCK_ORDER)"
  by (simp add: pb_block_def pb_get_def)

lemma mt_from_index_inverse [simp]: "mt_from_index (mt_index mt) = mt"
  by (cases mt) (simp_all add: mt_from_index_def)

lemma mt_index_less [simp]: "mt_index mt < MIGRATE_TYPES"
  by (cases mt) (simp_all add: MIGRATE_TYPES_def)

lemma mt_index_inj [simp]: "mt_index a = mt_index b \<longleftrightarrow> a = b"
  by (metis mt_from_index_inverse)

lemma mt_word_bit: "2 \<le> n \<Longrightarrow> \<not> bit (word_of_nat (mt_index mt) :: 64 word) n"
  by (cases mt) (auto simp: bit_simps bit_2_iff)

lemma bit_type_mask: "bit (3 :: 64 word) n \<longleftrightarrow> n < 2"
proof -
  have m: "(3 :: 64 word) = mask 2" by (simp add: mask_eq_exp_minus_1)
  show ?thesis unfolding m bit_mask_iff by auto
qed

lemma field_get_put:
  fixes w :: "64 word"
  assumes "i < 32" and "j < 32"
  shows "drop_bit (j * 2) ((w AND NOT (push_bit (i * 2) 3)) OR push_bit (i * 2) (word_of_nat (mt_index mt))) AND 3 =
    (if i = j then word_of_nat (mt_index mt) else drop_bit (j * 2) w AND 3)"
proof (rule bit_word_eqI)
  fix n assume "n < LENGTH(64)"
  show "bit (drop_bit (j * 2) ((w AND NOT (push_bit (i * 2) 3)) OR push_bit (i * 2) (word_of_nat (mt_index mt))) AND 3) n =
    bit (if i = j then word_of_nat (mt_index mt) else drop_bit (j * 2) w AND 3) n"
  proof (cases "n < 2")
    case False
    then show ?thesis
      using mt_word_bit [of n mt] by (simp add: bit_and_iff bit_type_mask del: bit_numeral_word_iff)
  next
    case True
    then have n: "n = 0 \<or> n = 1" by auto
    have "i * 2 \<le> j * 2 + n \<and> j * 2 + n - i * 2 < 2 \<longleftrightarrow> i = j" using n by auto
    moreover have "j * 2 + n < 64" using assms n by auto
    ultimately show ?thesis
      using True mt_word_bit [of "j * 2 + n - i * 2" mt]
      by (simp add: bit_drop_bit_eq bit_and_iff bit_or_iff bit_not_iff bit_push_bit_iff bit_type_mask
                   del: bit_numeral_word_iff) auto
  qed
qed

interpretation pb: type_map pb_block pb_set "\<lambda>words. 32 * length words"
proof
  fix m m' :: bitmap and i j :: nat and t :: migrate_type
  have lt: "i div 32 < n \<longleftrightarrow> i < 32 * n" for i n :: nat
    by (simp add: div_less_iff_less_mult mult.commute)
  have blk: "pb_block m i = (if i div 32 < length m
      then Some (mt_from_index (unat (drop_bit (i mod 32 * 2) (m ! (i div 32)) AND 3))) else None)" for m i
    by (simp add: pb_block_def pb_get_def Let_def TYPES_PER_WORD_def TYPE_BITS_def TYPE_MASK_def PAGEBLOCK_ORDER_def)
  show "pb_block m i = None \<longleftrightarrow> 32 * length m \<le> i"
    by (auto simp: blk lt)
  show "pb_set m i t = None \<longleftrightarrow> 32 * length m \<le> i"
    by (auto simp: pb_set_def Let_def TYPES_PER_WORD_def lt)
  have same: "i div 32 = j div 32 \<Longrightarrow> i mod 32 = j mod 32 \<Longrightarrow> i = j"
    by (metis div_mult_mod_eq)
  have un: "unat (word_of_nat (mt_index t) :: 64 word) = mt_index t" by (cases t) simp_all
  show "pb_block m' j = (if j = i then Some t else pb_block m j)" if "pb_set m i t = Some m'"
  proof -
    from that have len: "i div 32 < length m" and m': "m' = m[i div 32 := (m ! (i div 32) AND NOT (push_bit (i mod 32 * 2) 3)) OR push_bit (i mod 32 * 2) (word_of_nat (mt_index t))]"
      by (auto simp: pb_set_def Let_def TYPES_PER_WORD_def TYPE_BITS_def TYPE_MASK_def split: if_splits)
    show ?thesis
    proof (cases "j div 32 = i div 32")
      case True
      then show ?thesis
        using len same field_get_put [of "i mod 32" "j mod 32" "m ! (i div 32)" t] un by (auto simp: blk m')
    next
      case False
      then show ?thesis using len by (auto simp: blk m')
    qed
  qed
  show "pb_set m i t = Some m' \<Longrightarrow> 32 * length m' = 32 * length m"
    by (auto simp: pb_set_def Let_def split: if_splits)
qed

lemma pb_set_blocks_returns:
  "(\<forall>b \<in> set blocks. b < 32 * length words) \<Longrightarrow>
   returns (pb_set_blocks words blocks mt)
     (\<lambda>words'. length words' = length words \<and>
        pb_block words' = (\<lambda>b. if b \<in> set blocks then Some mt else pb_block words b))"
proof (induction blocks arbitrary: words)
  case Nil
  then show ?case by simp
next
  case (Cons block blocks)
  show ?case unfolding pb_set_blocks.simps
  proof (rule returns_bind [OF pb.returns_put])
    show "block < 32 * length words" using Cons.prems by simp
    fix words1
    assume w: "pb_block words1 = (pb_block words)(block \<mapsto> mt) \<and> 32 * length words1 = 32 * length words"
    have "returns (pb_set_blocks words1 blocks mt)
     (\<lambda>words'. length words' = length words1 \<and>
        pb_block words' = (\<lambda>b. if b \<in> set blocks then Some mt else pb_block words1 b))"
      by (rule Cons.IH) (use Cons.prems w in simp)
    then show "returns (pb_set_blocks words1 blocks mt) (\<lambda>words'. length words' = length words \<and>
        pb_block words' = (\<lambda>b. if b \<in> set (block # blocks) then Some mt else pb_block words b))"
      by (rule returns_mono) (use w in \<open>auto simp: fun_eq_iff\<close>)
  qed
qed

lemma pb_set_range_returns:
  assumes "e \<le> 32 * length words * 2 ^ PAGEBLOCK_ORDER"
  shows "returns (pb_set_range words s e mt) (\<lambda>words'. length words' = length words \<and>
    (\<forall>pfn. pb_get words' pfn =
       (if s < e \<and> s div 2 ^ PAGEBLOCK_ORDER \<le> pfn div 2 ^ PAGEBLOCK_ORDER \<and>
           pfn div 2 ^ PAGEBLOCK_ORDER \<le> (e - 1) div 2 ^ PAGEBLOCK_ORDER
        then Some mt else pb_get words pfn)))"
proof (cases "s < e")
  case False
  then show ?thesis by (simp add: pb_set_range_def)
next
  case True
  let ?B = "2 ^ PAGEBLOCK_ORDER :: nat"
  have "e - 1 < 32 * length words * ?B" using assms True by simp
  then have "(e - 1) div ?B < 32 * length words" by (simp add: div_less_iff_less_mult)
  then have "returns (pb_set_blocks words [s div ?B..<Suc ((e - 1) div ?B)] mt)
     (\<lambda>words'. length words' = length words \<and> pb_block words' =
        (\<lambda>b. if b \<in> set [s div ?B..<Suc ((e - 1) div ?B)] then Some mt else pb_block words b))"
    by (intro pb_set_blocks_returns) auto
  with True show ?thesis
    by (auto simp: returns_def pb_set_range_def pb_get_block)
qed

text \<open>
  Retyping a page range. \<open>set_range\<close> gives the requested mobility class to every page of every
  pageblock that the range intersects and changes no other page, although 32 pageblocks share one
  word; it does not panic while the range stays inside the map.
\<close>

theorem pb_set_range_correct:
  assumes "e \<le> 32 * length words * 2 ^ PAGEBLOCK_ORDER"
  shows "\<exists>words'. pb_set_range words s e mt = Some words' \<and> length words' = length words \<and>
    (\<forall>pfn. pb_get words' pfn =
       (if s < e \<and> s div 2 ^ PAGEBLOCK_ORDER \<le> pfn div 2 ^ PAGEBLOCK_ORDER \<and>
           pfn div 2 ^ PAGEBLOCK_ORDER \<le> (e - 1) div 2 ^ PAGEBLOCK_ORDER
        then Some mt else pb_get words pfn))"
  using pb_set_range_returns [OF assms] unfolding returns_def by blast

theorem pb_set_range_correct_witness:
  "\<exists>words'. pb_set_range [0, 0] 1024 2048 Movable = Some words' \<and> length words' = 2 \<and>
    pb_get words' 1023 = Some Unmovable \<and> pb_get words' 2047 = Some Movable"
proof -
  obtain words' where w: "pb_set_range [0, 0] 1024 2048 Movable = Some words'" "length words' = 2"
    and g: "pb_get words' pfn =
       (if 1024 < (2048 :: nat) \<and> 1024 div 2 ^ PAGEBLOCK_ORDER \<le> pfn div 2 ^ PAGEBLOCK_ORDER \<and>
           pfn div 2 ^ PAGEBLOCK_ORDER \<le> (2048 - 1) div 2 ^ PAGEBLOCK_ORDER
        then Some Movable else pb_get [0, 0] pfn)" for pfn
    using pb_set_range_correct [of 2048 "[0, 0]" 1024 Movable] by (auto simp: PAGEBLOCK_ORDER_def)
  have "pb_get words' 2047 = Some Movable" and "pb_get words' 1023 = pb_get [0, 0] 1023"
    by (simp_all only: g) (simp_all add: PAGEBLOCK_ORDER_def)
  moreover have "pb_get [0, 0] 1023 = Some Unmovable"
    by (simp add: pb_get_def PAGEBLOCK_ORDER_def TYPES_PER_WORD_def TYPE_BITS_def TYPE_MASK_def mt_from_index_def)
  ultimately show ?thesis using w by simp
qed

lemma pb_get_defined:
  assumes "length words = pb_words_for n" and "pfn < n" and "n + 511 \<le> U64_MAX"
  shows "\<exists>mt. pb_get words pfn = Some mt"
proof -
  have n: "pb_words_for n = ((n + 511) div 512 + 31) div 32"
    using assms(3) by (auto simp: pb_words_for_def PAGEBLOCK_ORDER_def TYPES_PER_WORD_def saturating_add_def Let_def U64_MAX_def)
  have "pfn div 512 < 32 * length words" using assms(1,2) unfolding n by linarith
  then show ?thesis using pb.get_dom [of words "pfn div 512"] by (auto simp: pb_get_block PAGEBLOCK_ORDER_def)
qed

end
