(* ===== verification/Free_Nodes.thy ===== *)
theory Free_Nodes
  imports Bitmaps
begin

text \<open>
  The intrusive free-node header (\<open>buddy/free_node.rs\<close>) at the level of the bytes of a page, and the
  linked lists threaded through it. The page bodies that \<open>PageBacking::page_ptr\<close> reaches are one
  memory, indexed by page frame number and byte offset. The interface the lists rely on is the
  locale \<open>node_store\<close> (what a link reads after a write), interpreted here on the byte memory; the
  list shapes are \<open>dll\<close> for the buddy lists and \<open>sll\<close> for the per-CPU pagesets.
\<close>

section \<open>Page memory and the header layout\<close>

type_synonym page_mem = "nat \<Rightarrow> nat \<Rightarrow> 8 word"

definition OFF_POISON :: nat where "OFF_POISON = 0"
definition OFF_ORDER :: nat where "OFF_ORDER = 8"
definition OFF_NEXT :: nat where "OFF_NEXT = 16"
definition OFF_PREV :: nat where "OFF_PREV = 24"

lemmas off_defs = OFF_POISON_def OFF_ORDER_def OFF_NEXT_def OFF_PREV_def

definition POISON_MAGIC :: u64 where "POISON_MAGIC = 0xDEADBEEFCAFEBABE"
definition PFN_NULL :: u64 where "PFN_NULL = U64_MAX"

definition write_u64 :: "page_mem \<Rightarrow> u64 \<Rightarrow> nat \<Rightarrow> u64 \<Rightarrow> page_mem" where
  "write_u64 m pfn off v =
     m(pfn := (\<lambda>k. if off \<le> k \<and> k < off + 8 then word_of_nat (v div 256 ^ (k - off)) else m pfn k))"

definition read_u64 :: "page_mem \<Rightarrow> u64 \<Rightarrow> nat \<Rightarrow> u64" where
  "read_u64 m pfn off = sum_list (map (\<lambda>i. unat (m pfn (off + i)) * 256 ^ i) [0..<8])"

definition write_u8 :: "page_mem \<Rightarrow> u64 \<Rightarrow> nat \<Rightarrow> 8 word \<Rightarrow> page_mem" where
  "write_u8 m pfn off v = m(pfn := (m pfn)(off := v))"

text \<open>\<open>stamp_block\<close> of \<open>buddy/inner.rs\<close>: poison, order byte and padding, both links.\<close>

definition stamp_block :: "page_mem \<Rightarrow> u64 \<Rightarrow> nat \<Rightarrow> u64 \<Rightarrow> u64 \<Rightarrow> page_mem" where
  "stamp_block m pfn order nxt prv =
     (let m = write_u64 m pfn OFF_POISON POISON_MAGIC;
          m = write_u8 m pfn OFF_ORDER (word_of_nat order);
          m = fold (\<lambda>i m. write_u8 m pfn (OFF_ORDER + i) 0) [1..<8] m;
          m = write_u64 m pfn OFF_NEXT nxt
      in write_u64 m pfn OFF_PREV prv)"

definition next_of :: "page_mem \<Rightarrow> u64 \<Rightarrow> u64" where
  "next_of m pfn = read_u64 m pfn OFF_NEXT"

definition prev_of :: "page_mem \<Rightarrow> u64 \<Rightarrow> u64" where
  "prev_of m pfn = read_u64 m pfn OFF_PREV"

definition poisoned :: "page_mem \<Rightarrow> u64 \<Rightarrow> bool" where
  "poisoned m pfn \<longleftrightarrow> read_u64 m pfn OFF_POISON = POISON_MAGIC"

definition order_of :: "page_mem \<Rightarrow> u64 \<Rightarrow> nat" where
  "order_of m pfn = unat (m pfn OFF_ORDER)"

text \<open>\<open>zero_allocation\<close> of \<open>buddy/api.rs\<close>: every byte of the block's pages is cleared.\<close>

definition zero_pages :: "page_mem \<Rightarrow> u64 \<Rightarrow> nat \<Rightarrow> page_mem" where
  "zero_pages m pfn order =
     (\<lambda>q. if pfn \<le> q \<and> q < pfn + 2 ^ order
          then (\<lambda>k. if k < PAGE_SIZE_BYTES then 0 else m q k) else m q)"

section \<open>Bytes and 64-bit fields\<close>

lemma sum_list_upt: "sum_list (map f [0..<n]) = (\<Sum>i<n. f i :: nat)"
  by (simp add: interv_sum_list_conv_sum_set_nat atLeast0LessThan)

lemma base_256_digits: "(\<Sum>i<n. (v div 256 ^ i) mod 256 * 256 ^ i) = (v :: nat) mod 256 ^ n"
proof (induction n)
  case (Suc n)
  have "v mod 256 ^ Suc n = v mod (256 ^ n * 256)" by (simp add: mult.commute)
  also have "\<dots> = 256 ^ n * (v div 256 ^ n mod 256) + v mod 256 ^ n"
    by (rule mod_mult2_eq)
  finally show ?case using Suc by (simp add: mult.commute)
qed simp

lemma read_u64_write_u64:
  assumes "v \<le> U64_MAX"
  shows "read_u64 (write_u64 m p off v) p off = v"
proof -
  have "read_u64 (write_u64 m p off v) p off = (\<Sum>i<8. (v div 256 ^ i) mod 256 * 256 ^ i)"
    unfolding read_u64_def sum_list_upt
    by (intro sum.cong) (simp_all add: write_u64_def unat_of_nat)
  also have "\<dots> = v mod 256 ^ 8" by (rule base_256_digits)
  also have "\<dots> = v" using assms by (intro mod_less) (simp add: U64_MAX_def)
  finally show ?thesis .
qed

lemma read_u64_cong:
  "(\<And>i. i < 8 \<Longrightarrow> m p (off + i) = m' p (off + i)) \<Longrightarrow> read_u64 m p off = read_u64 m' p off"
  unfolding read_u64_def sum_list_upt by (intro sum.cong) simp_all

lemma read_u64_write_other:
  "q \<noteq> p \<or> off + 8 \<le> off' \<or> off' + 8 \<le> off \<Longrightarrow> read_u64 (write_u64 m p off v) q off' = read_u64 m q off'"
  by (intro read_u64_cong) (auto simp: write_u64_def)

lemma read_u64_write_u8:
  "q \<noteq> p \<or> off < off' \<or> off' + 8 \<le> off \<Longrightarrow> read_u64 (write_u8 m p off v) q off' = read_u64 m q off'"
  by (intro read_u64_cong) (auto simp: write_u8_def)

lemma byte_write_u64 [simp]:
  "q \<noteq> p \<or> k < off \<or> off + 8 \<le> k \<Longrightarrow> write_u64 m p off v q k = m q k"
  by (auto simp: write_u64_def)

lemma write_u64_page [simp]: "q \<noteq> p \<Longrightarrow> write_u64 m p off v q = m q"
  by (simp add: write_u64_def)

lemma write_u8_page [simp]: "q \<noteq> p \<Longrightarrow> write_u8 m p off v q = m q"
  by (simp add: write_u8_def)

lemma pad_bytes:
  "fold (\<lambda>i m. write_u8 m p (off + i) 0) is m q k = (if q = p \<and> k \<in> (+) off ` set is then 0 else m q k)"
  by (induction "is" arbitrary: m) (auto simp: write_u8_def)

lemma stamp_block_page [simp]: "q \<noteq> p \<Longrightarrow> stamp_block m p ord nxt prv q = m q"
  by (simp add: stamp_block_def Let_def fun_eq_iff pad_bytes)

section \<open>The node-store interface\<close>

text \<open>
  What the lists rely on: a link reads back the value stored last, a store to one page leaves
  every other page alone, and rewriting a link keeps the poison and order of the header.
\<close>

locale node_store =
  fixes nxt prv ord :: "'m \<Rightarrow> nat \<Rightarrow> nat"
    and tag :: "'m \<Rightarrow> nat \<Rightarrow> bool"
    and set_nxt set_prv :: "'m \<Rightarrow> nat \<Rightarrow> nat \<Rightarrow> 'm"
    and stamp :: "'m \<Rightarrow> nat \<Rightarrow> nat \<Rightarrow> nat \<Rightarrow> nat \<Rightarrow> 'm"
  assumes nxt_set_nxt: "v \<le> U64_MAX \<Longrightarrow> nxt (set_nxt m p v) = (nxt m)(p := v)"
    and prv_set_nxt: "prv (set_nxt m p v) = prv m"
    and ord_set_nxt: "ord (set_nxt m p v) = ord m"
    and tag_set_nxt: "tag (set_nxt m p v) = tag m"
    and nxt_set_prv: "nxt (set_prv m p v) = nxt m"
    and prv_set_prv: "v \<le> U64_MAX \<Longrightarrow> prv (set_prv m p v) = (prv m)(p := v)"
    and ord_set_prv: "ord (set_prv m p v) = ord m"
    and tag_set_prv: "tag (set_prv m p v) = tag m"
    and nxt_stamp: "a \<le> U64_MAX \<Longrightarrow> nxt (stamp m p k a b) = (nxt m)(p := a)"
    and prv_stamp: "b \<le> U64_MAX \<Longrightarrow> prv (stamp m p k a b) = (prv m)(p := b)"
    and ord_stamp: "k < 256 \<Longrightarrow> ord (stamp m p k a b) = (ord m)(p := k)"
    and tag_stamp: "tag (stamp m p k a b) = (tag m)(p := True)"

interpretation node: node_store next_of prev_of order_of poisoned
  "\<lambda>m p v. write_u64 m p OFF_NEXT v" "\<lambda>m p v. write_u64 m p OFF_PREV v" stamp_block
proof
  fix m :: page_mem and p k a b v :: nat
  show "next_of (write_u64 m p OFF_NEXT v) = (next_of m)(p := v)" if "v \<le> U64_MAX"
    using that by (auto simp: next_of_def fun_eq_iff read_u64_write_u64 read_u64_write_other)
  show "prev_of (write_u64 m p OFF_NEXT v) = prev_of m"
    by (auto simp: prev_of_def fun_eq_iff read_u64_write_other off_defs)
  show "order_of (write_u64 m p OFF_NEXT v) = order_of m"
    by (auto simp: order_of_def fun_eq_iff off_defs)
  show "poisoned (write_u64 m p OFF_NEXT v) = poisoned m"
    by (auto simp: poisoned_def fun_eq_iff read_u64_write_other off_defs)
  show "next_of (write_u64 m p OFF_PREV v) = next_of m"
    by (auto simp: next_of_def fun_eq_iff read_u64_write_other off_defs)
  show "prev_of (write_u64 m p OFF_PREV v) = (prev_of m)(p := v)" if "v \<le> U64_MAX"
    using that by (auto simp: prev_of_def fun_eq_iff read_u64_write_u64 read_u64_write_other)
  show "order_of (write_u64 m p OFF_PREV v) = order_of m"
    by (auto simp: order_of_def fun_eq_iff off_defs)
  show "poisoned (write_u64 m p OFF_PREV v) = poisoned m"
    by (auto simp: poisoned_def fun_eq_iff read_u64_write_other off_defs)
  have pad: "order_of (fold (\<lambda>i m. write_u8 m p (OFF_ORDER + i) 0) [1..<8] m') = order_of m'"
    and pois: "read_u64 (fold (\<lambda>i m. write_u8 m p (OFF_ORDER + i) 0) [1..<8] m') q OFF_POISON = read_u64 m' q OFF_POISON"
    for m' q by (auto simp: pad_bytes order_of_def off_defs fun_eq_iff intro!: read_u64_cong)
  have magic: "POISON_MAGIC \<le> U64_MAX" by (simp add: POISON_MAGIC_def U64_MAX_def)
  have off: "next_of (stamp_block m p k a b) q = next_of m q"
    "prev_of (stamp_block m p k a b) q = prev_of m q" "order_of (stamp_block m p k a b) q = order_of m q"
    "poisoned (stamp_block m p k a b) q = poisoned m q" if "q \<noteq> p" for q
    using that by (auto simp: next_of_def prev_of_def order_of_def poisoned_def intro!: arg_cong2 [where f = "(=)"] read_u64_cong)
  show "next_of (stamp_block m p k a b) = (next_of m)(p := a)" if "a \<le> U64_MAX"
    using that off by (auto simp: fun_eq_iff next_of_def stamp_block_def Let_def read_u64_write_u64 read_u64_write_other off_defs)
  show "prev_of (stamp_block m p k a b) = (prev_of m)(p := b)" if "b \<le> U64_MAX"
    using that off by (auto simp: fun_eq_iff prev_of_def stamp_block_def Let_def read_u64_write_u64 read_u64_write_other)
  show "order_of (stamp_block m p k a b) = (order_of m)(p := k)" if "k < 256"
  proof
    fix q
    have "order_of (stamp_block m p k a b) p = order_of (write_u8 (write_u64 m p OFF_POISON POISON_MAGIC) p OFF_ORDER (word_of_nat k)) p"
      using fun_cong [OF pad] by (simp add: stamp_block_def Let_def order_of_def off_defs)
    also have "\<dots> = k" using that by (simp add: order_of_def write_u8_def unat_of_nat)
    finally show "order_of (stamp_block m p k a b) q = ((order_of m)(p := k)) q" using off by auto
  qed
  show "poisoned (stamp_block m p k a b) = (poisoned m)(p := True)"
  proof
    fix q
    have "read_u64 (stamp_block m p k a b) p OFF_POISON = POISON_MAGIC"
      using magic pois [unfolded off_defs]
      by (simp add: stamp_block_def Let_def read_u64_write_other read_u64_write_u8 read_u64_write_u64 off_defs)
    then show "poisoned (stamp_block m p k a b) q = ((poisoned m)(p := True)) q"
      using off by (auto simp: poisoned_def)
  qed
qed

section \<open>List shapes\<close>

text \<open>
  \<open>dseg nx pv h p xs h' p'\<close>: from head \<open>h\<close>, entered from \<open>p\<close>, the links run through \<open>xs\<close> and leave
  to \<open>h'\<close> with \<open>p'\<close> as the last node.
\<close>

fun dseg :: "(nat \<Rightarrow> nat) \<Rightarrow> (nat \<Rightarrow> nat) \<Rightarrow> nat \<Rightarrow> nat \<Rightarrow> nat list \<Rightarrow> nat \<Rightarrow> nat \<Rightarrow> bool" where
  "dseg nx pv h p [] h' p' \<longleftrightarrow> h = h' \<and> p = p'"
| "dseg nx pv h p (x # xs) h' p' \<longleftrightarrow> h = x \<and> x \<noteq> PFN_NULL \<and> pv x = p \<and> dseg nx pv (nx x) x xs h' p'"

definition dll :: "(nat \<Rightarrow> nat) \<Rightarrow> (nat \<Rightarrow> nat) \<Rightarrow> nat \<Rightarrow> nat list \<Rightarrow> bool" where
  "dll nx pv h xs \<longleftrightarrow> distinct xs \<and> (\<exists>p'. dseg nx pv h PFN_NULL xs PFN_NULL p')"

fun sll :: "(nat \<Rightarrow> nat) \<Rightarrow> nat \<Rightarrow> nat list \<Rightarrow> bool" where
  "sll nx h [] \<longleftrightarrow> h = PFN_NULL"
| "sll nx h (x # xs) \<longleftrightarrow> h = x \<and> x \<noteq> PFN_NULL \<and> sll nx (nx x) xs"

lemma dseg_append:
  "dseg nx pv h p (xs @ ys) h' p' \<longleftrightarrow> (\<exists>m q. dseg nx pv h p xs m q \<and> dseg nx pv m q ys h' p')"
  by (induction xs arbitrary: h p) auto

lemma dseg_cong:
  "(\<And>x. x \<in> set xs \<Longrightarrow> nx x = nx' x \<and> pv x = pv' x) \<Longrightarrow>
   dseg nx pv h p xs h' p' \<longleftrightarrow> dseg nx' pv' h p xs h' p'"
  by (induction xs arbitrary: h p) auto

lemma dll_cong:
  "(\<And>x. x \<in> set xs \<Longrightarrow> nx x = nx' x \<and> pv x = pv' x) \<Longrightarrow> dll nx pv h xs \<longleftrightarrow> dll nx' pv' h xs"
  using dseg_cong [of xs nx nx' pv pv'] by (auto simp: dll_def)

lemma sll_cong: "(\<And>x. x \<in> set xs \<Longrightarrow> nx x = nx' x) \<Longrightarrow> sll nx h xs \<longleftrightarrow> sll nx' h xs"
  by (induction xs arbitrary: h) auto

lemma dseg_sll: "dseg nx pv h p xs PFN_NULL p' \<Longrightarrow> sll nx h xs"
  by (induction xs arbitrary: h p) auto

lemma dll_sll: "dll nx pv h xs \<Longrightarrow> sll nx h xs"
  by (auto simp: dll_def intro: dseg_sll)

lemma sll_head: "sll nx h xs \<Longrightarrow> h = (case xs of [] \<Rightarrow> PFN_NULL | x # _ \<Rightarrow> x)"
  by (cases xs) auto

lemma sll_NULL: "sll nx h xs \<Longrightarrow> h = PFN_NULL \<longleftrightarrow> xs = []"
  by (cases xs) auto

lemma dll_NULL: "dll nx pv h xs \<Longrightarrow> h = PFN_NULL \<longleftrightarrow> xs = []"
  by (rule sll_NULL) (rule dll_sll)

lemma dll_Nil [simp]: "dll nx pv h [] \<longleftrightarrow> h = PFN_NULL"
  by (simp add: dll_def)

lemma sll_push: "sll nx h xs \<Longrightarrow> x \<notin> set xs \<Longrightarrow> x \<noteq> PFN_NULL \<Longrightarrow> sll (nx(x := h)) x (x # xs)"
  by (subst sll.simps, subst sll_cong [of xs "nx(x := h)" nx]) auto

lemma dll_push:
  assumes "dll nx pv h xs" and "x \<notin> set xs" and "x \<noteq> PFN_NULL"
  shows "dll (nx(x := h)) (if h = PFN_NULL then pv(x := PFN_NULL) else pv(x := PFN_NULL, h := x)) x (x # xs)"
proof (cases xs)
  case Nil
  then show ?thesis using assms by (simp add: dll_def)
next
  case (Cons y ys)
  let ?nx = "nx(x := h)" and ?pv = "pv(x := PFN_NULL, h := x)"
  from assms(1) obtain p' where d: "distinct (y # ys)" "h = y" "y \<noteq> PFN_NULL"
    and s: "dseg nx pv (nx y) y ys PFN_NULL p'" by (auto simp: dll_def Cons)
  have "dseg ?nx ?pv (nx y) y ys PFN_NULL p' \<longleftrightarrow> dseg nx pv (nx y) y ys PFN_NULL p'"
    using d assms(2) by (intro dseg_cong) (auto simp: Cons)
  with s d assms(2,3) show ?thesis by (auto simp: dll_def Cons)
qed

lemma dseg_last: "dseg nx pv h p xs h' p' \<Longrightarrow> p' = (if xs = [] then p else last xs)"
  by (induction xs arbitrary: h p) (auto split: if_splits)

lemma dseg_nonnull: "dseg nx pv h p xs h' p' \<Longrightarrow> PFN_NULL \<notin> set xs"
  by (induction xs arbitrary: h p) auto

text \<open>Unlinking an inner node: the neighbours are joined, every other link stays.\<close>

lemma dseg_relink:
  assumes "dseg nx pv h p (as @ x # bs) PFN_NULL p'" and "distinct (as @ x # bs)"
    and "p = PFN_NULL"
  shows "\<exists>p''. dseg (if pv x = PFN_NULL then nx else nx(pv x := nx x))
                   (if nx x = PFN_NULL then pv else pv(nx x := pv x))
                   (if pv x = PFN_NULL then nx x else h) p (as @ bs) PFN_NULL p''"
proof -
  let ?nx = "if pv x = PFN_NULL then nx else nx(pv x := nx x)"
  let ?pv = "if nx x = PFN_NULL then pv else pv(nx x := pv x)"
  from assms(1) obtain q where a: "dseg nx pv h p as x q" and x: "x \<noteq> PFN_NULL" "pv x = q"
    and b: "dseg nx pv (nx x) x bs PFN_NULL p'" by (auto simp: dseg_append)
  have q: "q = (if as = [] then PFN_NULL else last as)" using dseg_last [OF a] assms(3) by simp
  have nn: "PFN_NULL \<notin> set as" "PFN_NULL \<notin> set bs" using dseg_nonnull a b by blast+
  have la: "as \<noteq> [] \<Longrightarrow> last as \<notin> set bs" using assms(2) last_in_set [of as] by (auto simp del: last_in_set)
  have n: "nx x = (case bs of [] \<Rightarrow> PFN_NULL | y # _ \<Rightarrow> y)" using b by (cases bs) auto
  have b': "\<exists>p''. dseg ?nx ?pv (nx x) q bs PFN_NULL p''"
  proof (cases bs)
    case Nil
    then show ?thesis using n by simp
  next
    case (Cons y ys)
    have "dseg ?nx ?pv (nx y) y ys PFN_NULL p' \<longleftrightarrow> dseg nx pv (nx y) y ys PFN_NULL p'"
      using assms(2) q x n nn la
      by (intro dseg_cong) (auto simp: Cons split: if_splits)
    moreover have "y \<noteq> q" using assms(2) q nn la by (auto simp: Cons split: if_splits)
    ultimately show ?thesis using b x n nn by (auto simp: Cons)
  qed
  have hp: "dseg ?nx ?pv (if q = PFN_NULL then nx x else h) p as (nx x) q"
  proof (cases as rule: rev_cases)
    case Nil
    then show ?thesis using a q x by simp
  next
    case (snoc as' l)
    have l: "q = l" "l \<noteq> PFN_NULL" using q nn by (auto simp: snoc)
    have "dseg ?nx ?pv h p as' l r \<longleftrightarrow> dseg nx pv h p as' l r" for r
      using assms(2) l x n nn by (intro dseg_cong) (auto simp: snoc split: list.splits)
    moreover have "?pv l = pv l" using assms(2) n nn l by (auto simp: snoc split: list.splits)
    ultimately show ?thesis using a l x by (auto simp: snoc dseg_append)
  qed
  show ?thesis using hp b' unfolding dseg_append x(2) by blast
qed

lemma dll_unlink:
  assumes "dll nx pv h (as @ x # bs)"
  shows "dll (if pv x = PFN_NULL then nx else nx(pv x := nx x))
             (if nx x = PFN_NULL then pv else pv(nx x := pv x))
             (if pv x = PFN_NULL then nx x else h) (as @ bs)"
  using assms dseg_relink [of nx pv h PFN_NULL as x bs] by (auto simp: dll_def)

lemma dll_links:
  assumes "dll nx pv h (as @ x # bs)"
  shows "pv x = (if as = [] then PFN_NULL else last as) \<and> nx x = (case bs of [] \<Rightarrow> PFN_NULL | y # _ \<Rightarrow> y) \<and>
    (as = [] \<longrightarrow> h = x) \<and> PFN_NULL \<notin> set (as @ x # bs)"
proof -
  from assms obtain p' q where a: "dseg nx pv h PFN_NULL as x q" and x: "x \<noteq> PFN_NULL" "pv x = q"
    and b: "dseg nx pv (nx x) x bs PFN_NULL p'" by (auto simp: dll_def dseg_append)
  show ?thesis using a b x dseg_last [OF a] dseg_nonnull [OF a] dseg_nonnull [OF b]
    by (cases bs) auto
qed

end
