(* ===== verification/Buddy.thy ===== *)
theory Buddy
  imports Free_Nodes
begin

text \<open>
  The state of the physical memory manager (\<open>struct PmmInner\<close> of \<open>buddy/inner.rs\<close> and \<open>struct Pmm\<close>
  of \<open>buddy/api.rs\<close>) and the operations of \<open>buddy/inner.rs\<close> and the coalescer of \<open>buddy/free.rs\<close>.

  The fields of the two structs are one record: \<open>Pmm\<close> holds \<open>PmmInner\<close> behind the \<open>Buddy\<close> lock and
  shares \<open>pfn_max\<close>, \<open>layout\<close>, \<open>zonelist\<close>, \<open>pageblocks\<close> and the bitmaps with it, so each shared cell is
  one field. The fixed-size arrays are functions of their index; the three-dimensional free-list
  arrays are indexed by \<open>(zone, migratetype, order)\<close>. Each operation runs to completion under its
  lock, so a state-passing function models it; \<^const>\<open>None\<close> is a panic.
\<close>

section \<open>State\<close>

type_synonym list_key = "nat \<times> migrate_type \<times> nat"

record pcp_list =
  pl_head :: u64
  pl_count :: u64

record pcp_zone_config =
  cfg_low :: u64
  cfg_min :: u64
  cfg_reserve :: "u64 list"
  cfg_batch :: u64

record pmm =
  mem :: page_mem
  pfn_max :: u64
  bitmaps :: "nat \<Rightarrow> bitmap"
  layout :: zone_layout
  zone_list :: zonelist
  pageblocks :: bitmap
  free_heads :: "list_key \<Rightarrow> u64"
  free_count :: "list_key \<Rightarrow> u64"
  managed :: "nat \<Rightarrow> u64"
  present :: "nat \<Rightarrow> u64"
  spanned :: "nat \<Rightarrow> u64"
  reserve :: lowmem_reserve_matrix
  wmark :: "nat \<Rightarrow> zone_watermarks"
  tunables :: "watermark_tunables option"
  allocated :: u64
  reserved :: u64
  initial_free :: u64
  alloc_events :: u64
  alloc_event_pages :: u64
  free_events :: u64
  free_event_pages :: u64
  pcp_bitmap :: bitmap
  hibernate_forbidden :: bitmap
  pcp :: "nat \<times> nat \<times> migrate_type \<Rightarrow> pcp_list"
  zone_free :: "nat \<Rightarrow> u64"
  pcp_free :: "nat \<Rightarrow> u64"
  pcp_zone :: "nat \<Rightarrow> pcp_zone_config"
  pcp_alloc_events :: u64
  pcp_alloc_event_pages :: u64
  pcp_free_events :: u64
  pcp_free_event_pages :: u64
  published :: "(u64 \<times> zone_watermarks) option"

text \<open>\<open>published\<close> is the cell of \<open>watermark/cell.rs\<close>: managed total and aggregate thresholds.\<close>

definition all_types :: "migrate_type list" where
  "all_types = map mt_from_index [0..<MIGRATE_TYPES]"

section \<open>Accessors\<close>

definition zi :: "pmm \<Rightarrow> u64 \<Rightarrow> nat" where
  "zi s pfn = (let index = index_of (layout s) pfn in if index < NR_ZONES then index else NR_ZONES - 1)"

definition migratetype :: "pmm \<Rightarrow> u64 \<Rightarrow> migrate_type option" where
  "migratetype s pfn = pb_get (pageblocks s) pfn"

definition bitmap_get :: "pmm \<Rightarrow> nat \<Rightarrow> u64 \<Rightarrow> bool option" where
  "bitmap_get s order index = bm_get (bitmaps s order) index"

definition bitmap_set :: "pmm \<Rightarrow> nat \<Rightarrow> u64 \<Rightarrow> pmm option" where
  "bitmap_set s order index =
     do { bm \<leftarrow> bm_set (bitmaps s order) index; Some (s\<lparr>bitmaps := (bitmaps s)(order := bm)\<rparr>) }"

definition bitmap_clear :: "pmm \<Rightarrow> nat \<Rightarrow> u64 \<Rightarrow> pmm option" where
  "bitmap_clear s order index =
     do { bm \<leftarrow> bm_clear (bitmaps s order) index; Some (s\<lparr>bitmaps := (bitmaps s)(order := bm)\<rparr>) }"

definition count_inc :: "pmm \<Rightarrow> list_key \<Rightarrow> pmm" where
  "count_inc s k = s\<lparr>free_count := (free_count s)(k := free_count s k + 1)\<rparr>"

definition count_dec :: "pmm \<Rightarrow> list_key \<Rightarrow> pmm option" where
  "count_dec s k = do { n \<leftarrow> checked_sub (free_count s k) 1; Some (s\<lparr>free_count := (free_count s)(k := n)\<rparr>) }"

section \<open>Free-list primitives\<close>

definition push_free :: "pmm \<Rightarrow> u64 \<Rightarrow> nat \<Rightarrow> migrate_type \<Rightarrow> pmm option" where
  "push_free s pfn order mt = do {
     let zone = zi s pfn;
     t \<leftarrow> migratetype s pfn;
     kassert (t = mt);
     let head = free_heads s (zone, mt, order);
     let m = stamp_block (mem s) pfn order head PFN_NULL;
     let m = (if head \<noteq> PFN_NULL then write_u64 m head OFF_PREV pfn else m);
     Some (s\<lparr>mem := m, free_heads := (free_heads s)((zone, mt, order) := pfn)\<rparr>)
   }"

definition pop_free :: "pmm \<Rightarrow> nat \<Rightarrow> nat \<Rightarrow> migrate_type \<Rightarrow> (pmm \<times> u64) option" where
  "pop_free s zone order mt = do {
     let head = free_heads s (zone, mt, order);
     kassert (head \<noteq> PFN_NULL);
     let nxt = next_of (mem s) head;
     let prv = prev_of (mem s) head;
     kassert (prv = PFN_NULL);
     kassert (nxt = PFN_NULL \<or> nxt < pfn_max s);
     m \<leftarrow> (if nxt \<noteq> PFN_NULL then do {
             kassert (nxt \<noteq> head);
             kassert (zi s nxt = zone);
             t \<leftarrow> migratetype s nxt;
             kassert (t = mt);
             kassert (prev_of (mem s) nxt = head);
             Some (write_u64 (mem s) nxt OFF_PREV PFN_NULL)
           } else Some (mem s));
     Some (s\<lparr>mem := m, free_heads := (free_heads s)((zone, mt, order) := nxt)\<rparr>, head)
   }"

text \<open>The class check of \<open>unlink_free\<close>: the neighbour is on the same zone and type.\<close>

definition same_class :: "pmm \<Rightarrow> u64 \<Rightarrow> nat \<Rightarrow> migrate_type \<Rightarrow> unit option" where
  "same_class s pfn zone mt =
     (if zi s pfn = zone then do { t \<leftarrow> migratetype s pfn; kassert (t = mt) } else kassert False)"

definition unlink_free :: "pmm \<Rightarrow> u64 \<Rightarrow> nat \<Rightarrow> migrate_type \<Rightarrow> pmm option" where
  "unlink_free s pfn order mt = do {
     let zone = zi s pfn;
     t \<leftarrow> migratetype s pfn;
     kassert (t = mt);
     let nxt = next_of (mem s) pfn;
     let prv = prev_of (mem s) pfn;
     kassert (nxt = PFN_NULL \<or> nxt < pfn_max s);
     kassert (prv = PFN_NULL \<or> prv < pfn_max s);
     s \<leftarrow> (if prv = PFN_NULL then do {
             kassert (free_heads s (zone, mt, order) = pfn);
             Some (s\<lparr>free_heads := (free_heads s)((zone, mt, order) := nxt)\<rparr>)
           } else do {
             same_class s prv zone mt;
             Some (s\<lparr>mem := write_u64 (mem s) prv OFF_NEXT nxt\<rparr>)
           });
     (if nxt \<noteq> PFN_NULL then do {
        same_class s nxt zone mt;
        Some (s\<lparr>mem := write_u64 (mem s) nxt OFF_PREV prv\<rparr>)
      } else Some s)
   }"

definition verify_poison :: "pmm \<Rightarrow> u64 \<Rightarrow> unit option" where
  "verify_poison s pfn = kassert (read_u64 (mem s) pfn OFF_POISON = POISON_MAGIC)"

text \<open>
  The three statements with which the source puts a block on its free list (\<open>push_free\<close>,
  \<open>bitmap_set\<close>, \<open>free_count += 1\<close>) and takes a known block off it (\<open>unlink_free\<close>,
  \<open>bitmap_clear\<close>, \<open>free_count -= 1\<close>).
\<close>

definition enlist :: "pmm \<Rightarrow> nat \<Rightarrow> u64 \<Rightarrow> nat \<Rightarrow> migrate_type \<Rightarrow> pmm option" where
  "enlist s zone pfn order mt = do {
     s \<leftarrow> push_free s pfn order mt;
     s \<leftarrow> bitmap_set s order (pfn div 2 ^ order);
     Some (count_inc s (zone, mt, order))
   }"

definition delist :: "pmm \<Rightarrow> nat \<Rightarrow> u64 \<Rightarrow> nat \<Rightarrow> migrate_type \<Rightarrow> pmm option" where
  "delist s zone pfn order mt = do {
     s \<leftarrow> unlink_free s pfn order mt;
     s \<leftarrow> bitmap_clear s order (pfn div 2 ^ order);
     count_dec s (zone, mt, order)
   }"

text \<open>The same for the head of a list (\<open>pop_free\<close>, \<open>bitmap_clear\<close>, \<open>free_count -= 1\<close>).\<close>

definition delist_head :: "pmm \<Rightarrow> nat \<Rightarrow> nat \<Rightarrow> migrate_type \<Rightarrow> (pmm \<times> u64) option" where
  "delist_head s zone order mt = do {
     (s, pfn) \<leftarrow> pop_free s zone order mt;
     s \<leftarrow> bitmap_clear s order (pfn div 2 ^ order);
     s \<leftarrow> count_dec s (zone, mt, order);
     Some (s, pfn)
   }"

section \<open>Seeding\<close>

fun seed_order :: "nat \<Rightarrow> u64 \<Rightarrow> u64 \<Rightarrow> nat" where
  "seed_order 0 cur e = 0"
| "seed_order (Suc order) cur e =
     (if cur mod 2 ^ Suc order = 0 \<and> 2 ^ Suc order \<le> e - cur then Suc order else seed_order order cur e)"

function seed_within_zone :: "pmm \<Rightarrow> nat \<Rightarrow> u64 \<Rightarrow> u64 \<Rightarrow> pmm option" where
  "seed_within_zone s zone cur e =
     (if cur < e then do {
        let order = seed_order MAX_ORDER cur e;
        let span = 2 ^ order;
        mt \<leftarrow> migratetype s cur;
        s \<leftarrow> enlist s zone cur order mt;
        seed_within_zone
          (s\<lparr>managed := (managed s)(zone := managed s zone + span),
             present := (present s)(zone := present s zone + span)\<rparr>) zone (cur + span) e
      } else Some s)"
  by pat_completeness auto
termination
  by (relation "measure (\<lambda>(s, zone, cur, e). e - cur)") (auto intro: diff_less_mono2)

declare seed_within_zone.simps [simp del]

fun seed_zones :: "pmm \<Rightarrow> nat list \<Rightarrow> u64 \<Rightarrow> u64 \<Rightarrow> pmm option" where
  "seed_zones s [] start e = Some s"
| "seed_zones s (zone # zones) start e = do {
     let span = layout s ! zone;
     let lo = max start (start_pfn span);
     let hi = min e (end_pfn span);
     s \<leftarrow> (if hi > lo then seed_within_zone s zone lo hi else Some s);
     seed_zones s zones start e
   }"

definition seed_range :: "pmm \<Rightarrow> u64 \<Rightarrow> u64 \<Rightarrow> pmm option" where
  "seed_range s start e = seed_zones s [0..<NR_ZONES] start e"

section \<open>Taking a block\<close>

fun split_block :: "pmm \<Rightarrow> nat \<Rightarrow> u64 \<Rightarrow> nat \<Rightarrow> nat \<Rightarrow> migrate_type \<Rightarrow> pmm option" where
  "split_block s zone pfn order 0 mt = Some s"
| "split_block s zone pfn order (Suc split) mt =
     (if order < Suc split then do {
        s \<leftarrow> enlist s zone (pfn + 2 ^ split) split mt;
        split_block s zone pfn order split mt
      } else Some s)"

definition take_from_order :: "pmm \<Rightarrow> nat \<Rightarrow> nat \<Rightarrow> nat \<Rightarrow> migrate_type \<Rightarrow> (pmm \<times> u64) option" where
  "take_from_order s zone order current_order mt = do {
     (s, pfn) \<leftarrow> delist_head s zone current_order mt;
     s \<leftarrow> split_block s zone pfn order current_order mt;
     Some (s, pfn)
   }"

fun claim_orders ::
    "pmm \<Rightarrow> nat \<Rightarrow> nat \<Rightarrow> migrate_type \<Rightarrow> migrate_type \<Rightarrow> nat list \<Rightarrow> (pmm \<times> u64 option) option" where
  "claim_orders s zone order requested fallback [] = Some (s, None)"
| "claim_orders s zone order requested fallback (current_order # rest) =
     (if free_heads s (zone, fallback, current_order) = PFN_NULL
      then claim_orders s zone order requested fallback rest
      else do {
        (s, pfn) \<leftarrow> delist_head s zone current_order fallback;
        pb \<leftarrow> pb_set_range (pageblocks s) pfn (pfn + 2 ^ current_order) requested;
        s \<leftarrow> split_block (s\<lparr>pageblocks := pb\<rparr>) zone pfn order current_order requested;
        Some (s, Some pfn)
      })"

definition claim_fallback ::
    "pmm \<Rightarrow> nat \<Rightarrow> nat \<Rightarrow> migrate_type \<Rightarrow> migrate_type \<Rightarrow> (pmm \<times> u64 option) option" where
  "claim_fallback s zone order requested fallback =
     claim_orders s zone order requested fallback (rev [max order PAGEBLOCK_ORDER..<Suc MAX_ORDER])"

fun claim_loop ::
    "pmm \<Rightarrow> nat \<Rightarrow> nat \<Rightarrow> migrate_type \<Rightarrow> migrate_type list \<Rightarrow> (pmm \<times> u64 option) option" where
  "claim_loop s zone order requested [] = Some (s, None)"
| "claim_loop s zone order requested (fallback # rest) = do {
     (s, r) \<leftarrow> claim_fallback s zone order requested fallback;
     (case r of Some pfn \<Rightarrow> Some (s, Some pfn) | None \<Rightarrow> claim_loop s zone order requested rest)
   }"

definition first_order :: "pmm \<Rightarrow> nat \<Rightarrow> nat \<Rightarrow> migrate_type \<Rightarrow> nat option" where
  "first_order s zone order mt =
     List.find (\<lambda>current_order. free_heads s (zone, mt, current_order) \<noteq> PFN_NULL) [order..<Suc MAX_ORDER]"

fun steal_loop :: "pmm \<Rightarrow> nat \<Rightarrow> nat \<Rightarrow> migrate_type list \<Rightarrow> (pmm \<times> u64 option) option" where
  "steal_loop s zone order [] = Some (s, None)"
| "steal_loop s zone order (fallback # rest) =
     (case first_order s zone order fallback of
        Some current_order \<Rightarrow> do {
          (s, pfn) \<leftarrow> take_from_order s zone order current_order fallback;
          Some (s, Some pfn)
        }
      | None \<Rightarrow> steal_loop s zone order rest)"

definition take_block :: "pmm \<Rightarrow> nat \<Rightarrow> nat \<Rightarrow> migrate_type \<Rightarrow> (pmm \<times> u64 option) option" where
  "take_block s zone order requested =
     (case first_order s zone order requested of
        Some current_order \<Rightarrow> do {
          (s, pfn) \<leftarrow> take_from_order s zone order current_order requested;
          Some (s, Some pfn)
        }
      | None \<Rightarrow> do {
          (s, r) \<leftarrow> claim_loop s zone order requested (fallbacks requested);
          (case r of Some pfn \<Rightarrow> Some (s, Some pfn)
           | None \<Rightarrow> steal_loop s zone order (fallbacks requested))
        })"

section \<open>Totals\<close>

definition free_area :: "pmm \<Rightarrow> nat \<Rightarrow> u64 list" where
  "free_area s zone = map (\<lambda>order. sum_list (map (\<lambda>mt. free_count s (zone, mt, order)) all_types)) [0..<ORDERS]"

definition zone_free_pages :: "pmm \<Rightarrow> nat \<Rightarrow> u64" where
  "zone_free_pages s zone =
     sum_list (map (\<lambda>mt. sum_list (map (\<lambda>order. free_count s (zone, mt, order) * 2 ^ order) [0..<ORDERS])) all_types)"

section \<open>Coalescing (buddy/free.rs)\<close>

text \<open>The loop of \<open>return_to_buddy\<close>; \<open>order\<close> starts at most at \<^const>\<open>MAX_ORDER\<close> and grows by one.\<close>

unbundle bit_operations_syntax

function coalesce :: "pmm \<Rightarrow> nat \<Rightarrow> migrate_type \<Rightarrow> u64 \<Rightarrow> nat \<Rightarrow> (pmm \<times> u64 \<times> nat) option" where
  "coalesce s zone mt p order =
     (if order \<ge> MAX_ORDER then Some (s, p, order)
      else do {
        let buddy = p XOR 2 ^ order;
        (if buddy + 2 ^ order > pfn_max s then Some (s, p, order)
         else if zi s buddy \<noteq> zone then Some (s, p, order)
         else do {
           t \<leftarrow> migratetype s buddy;
           (if t \<noteq> mt then Some (s, p, order)
            else do {
              b \<leftarrow> bitmap_get s order (buddy div 2 ^ order);
              (if \<not> b then Some (s, p, order)
               else do {
                 s \<leftarrow> delist s zone buddy order mt;
                 coalesce s zone mt (if buddy < p then buddy else p) (order + 1)
               })
            })
         })
      })"
  by pat_completeness auto
termination
  by (relation "measure (\<lambda>(s, zone, mt, p, order). MAX_ORDER - order)") auto

declare coalesce.simps [simp del]

definition return_to_buddy :: "pmm \<Rightarrow> u64 \<Rightarrow> nat \<Rightarrow> pmm option" where
  "return_to_buddy s pfn order = do {
     let zone = zi s pfn;
     mt \<leftarrow> migratetype s pfn;
     (s, p, order) \<leftarrow> coalesce s zone mt pfn order;
     enlist s zone p order mt
   }"

end
