(* ===== verification/Buddy_Inv.thy ===== *)
theory Buddy_Inv
  imports Buddy
begin

text \<open>
  The invariant of the buddy allocator and the lemmas that every operation of
  \<open>buddy/inner.rs\<close> and \<open>buddy/free.rs\<close> keeps it. The bitmaps are the truth: the set of free blocks
  is read off them, and the intrusive lists, the counters and the page headers are described
  relative to that set.
\<close>

section \<open>Blocks\<close>

definition pages :: "nat \<Rightarrow> nat \<Rightarrow> nat set" where
  "pages p order = {p..<p + 2 ^ order}"

definition blocks_of :: "(nat \<Rightarrow> bitmap) \<Rightarrow> (nat \<times> nat) set" where
  "blocks_of bms = {(p, order). order \<le> MAX_ORDER \<and> (\<exists>i \<in> bm_bits (bms order). p = i * 2 ^ order)}"

abbreviation blocks :: "pmm \<Rightarrow> (nat \<times> nat) set" where
  "blocks s \<equiv> blocks_of (bitmaps s)"

definition span_of :: "(nat \<times> nat) set \<Rightarrow> nat set" where
  "span_of B = (\<Union>(p, order) \<in> B. pages p order)"

abbreviation free_set :: "pmm \<Rightarrow> nat set" where
  "free_set s \<equiv> span_of (blocks s)"

text \<open>A block the allocator may hold: aligned, in range, inside one zone, of one mobility class.\<close>

definition one_class :: "pmm \<Rightarrow> nat set \<Rightarrow> nat \<Rightarrow> bool" where
  "one_class s A p \<longleftrightarrow> (\<forall>q \<in> A. zi s q = zi s p \<and> migratetype s q = migratetype s p)"

definition block_ok :: "pmm \<Rightarrow> nat \<Rightarrow> nat \<Rightarrow> bool" where
  "block_ok s p order \<longleftrightarrow> order \<le> MAX_ORDER \<and> 2 ^ order dvd p \<and> p + 2 ^ order \<le> pfn_max s \<and>
     one_class s (pages p order) p"

definition shape_ok :: "pmm \<Rightarrow> bool" where
  "shape_ok s \<longleftrightarrow> wf_layout (layout s) (pfn_max s) \<and> pfn_max s + 2 ^ MAX_ORDER \<le> U64_MAX \<and>
     length (pageblocks s) = pb_words_for (pfn_max s) \<and>
     (\<forall>order \<le> MAX_ORDER. \<forall>p < pfn_max s. p div 2 ^ order < 64 * length (bitmaps s order))"

definition list_ok :: "pmm \<Rightarrow> list_key \<Rightarrow> nat list \<Rightarrow> bool" where
  "list_ok s k xs \<longleftrightarrow> (case k of (zone, mt, order) \<Rightarrow>
     dll (next_of (mem s)) (prev_of (mem s)) (free_heads s k) xs \<and> free_count s k = length xs \<and>
     set xs = {p. (p, order) \<in> blocks s \<and> zi s p = zone \<and> migratetype s p = Some mt})"

definition disjoint_blocks :: "(nat \<times> nat) set \<Rightarrow> bool" where
  "disjoint_blocks B \<longleftrightarrow> (\<forall>p a q b. (p, a) \<in> B \<longrightarrow> (q, b) \<in> B \<longrightarrow> pages p a \<inter> pages q b \<noteq> {} \<longrightarrow> p = q \<and> a = b)"

definition buddy_inv :: "pmm \<Rightarrow> bool" where
  "buddy_inv s \<longleftrightarrow> shape_ok s \<and>
     (\<forall>(p, order) \<in> blocks s. block_ok s p order \<and> poisoned (mem s) p \<and> order_of (mem s) p = order) \<and>
     disjoint_blocks (blocks s) \<and>
     (\<forall>zone < NR_ZONES. \<forall>mt. \<forall>order \<le> MAX_ORDER. \<exists>xs. list_ok s (zone, mt, order) xs)"

text \<open>The fields that the operations of \<open>buddy/inner.rs\<close> do not change.\<close>

definition outer :: "pmm \<Rightarrow> pmm" where
  "outer s = s\<lparr>mem := \<lambda>_ _. 0, bitmaps := \<lambda>_. [], pageblocks := [], free_heads := \<lambda>_. 0, free_count := \<lambda>_. 0\<rparr>"

definition buddy_frame :: "pmm \<Rightarrow> pmm \<Rightarrow> bool" where
  "buddy_frame s s' \<longleftrightarrow> outer s' = outer s"

lemma outer_update [simp]:
  "outer (s\<lparr>mem := m\<rparr>) = outer s" "outer (s\<lparr>bitmaps := bms\<rparr>) = outer s"
  "outer (s\<lparr>pageblocks := pb\<rparr>) = outer s" "outer (s\<lparr>free_heads := h\<rparr>) = outer s"
  "outer (s\<lparr>free_count := c\<rparr>) = outer s"
  by (simp_all add: outer_def)

lemma outer_fields:
  "pfn_max (outer s) = pfn_max s" "layout (outer s) = layout s" "zone_list (outer s) = zone_list s"
  "managed (outer s) = managed s" "present (outer s) = present s" "spanned (outer s) = spanned s"
  "reserve (outer s) = reserve s" "wmark (outer s) = wmark s" "tunables (outer s) = tunables s"
  "allocated (outer s) = allocated s" "reserved (outer s) = reserved s"
  "initial_free (outer s) = initial_free s" "pcp_bitmap (outer s) = pcp_bitmap s" "pcp (outer s) = pcp s"
  "zone_free (outer s) = zone_free s" "pcp_free (outer s) = pcp_free s" "pcp_zone (outer s) = pcp_zone s"
  "hibernate_forbidden (outer s) = hibernate_forbidden s"
  by (simp_all add: outer_def)

lemma buddy_frame_refl [simp]: "buddy_frame s s"
  by (simp add: buddy_frame_def)

lemma buddy_frame_trans [trans]: "buddy_frame s t \<Longrightarrow> buddy_frame t u \<Longrightarrow> buddy_frame s u"
  by (simp add: buddy_frame_def)

lemma buddy_frameD:
  assumes "buddy_frame s s'"
  shows "pfn_max s' = pfn_max s" "layout s' = layout s" "zone_list s' = zone_list s" "managed s' = managed s"
    "present s' = present s" "spanned s' = spanned s" "reserve s' = reserve s" "wmark s' = wmark s"
    "tunables s' = tunables s" "allocated s' = allocated s" "reserved s' = reserved s"
    "initial_free s' = initial_free s" "pcp_bitmap s' = pcp_bitmap s" "pcp s' = pcp s"
    "zone_free s' = zone_free s" "pcp_free s' = pcp_free s" "pcp_zone s' = pcp_zone s"
    "hibernate_forbidden s' = hibernate_forbidden s"
  using assms unfolding buddy_frame_def by (metis outer_fields)+

lemma pages_self [simp]: "p \<in> pages p order"
  by (simp add: pages_def)

lemma finite_pages [simp]: "finite (pages p order)" "card (pages p order) = 2 ^ order"
  by (simp_all add: pages_def)

lemma zi_less [simp]: "zi s p < NR_ZONES"
  by (simp add: zi_def Let_def NR_ZONES_def)

lemma blocks_of_mem:
  "(p, order) \<in> blocks_of bms \<longleftrightarrow> order \<le> MAX_ORDER \<and> 2 ^ order dvd p \<and> p div 2 ^ order \<in> bm_bits (bms order)"
  by (auto simp: blocks_of_def)

lemma block_index: "2 ^ order dvd (p :: nat) \<Longrightarrow> p div 2 ^ order = i \<longleftrightarrow> p = i * 2 ^ order"
  by auto

lemma blocks_of_insert:
  assumes "bm_bits bm' = insert i (bm_bits (bms order))" and "order \<le> MAX_ORDER"
  shows "blocks_of (bms(order := bm')) = insert (i * 2 ^ order, order) (blocks_of bms)"
  using assms by (auto simp: blocks_of_mem split: if_splits)

lemma blocks_of_delete:
  assumes "bm_bits bm' = bm_bits (bms order) - {i}"
  shows "blocks_of (bms(order := bm')) = blocks_of bms - {(i * 2 ^ order, order)}"
proof -
  have "(p, k) \<in> blocks_of (bms(order := bm')) \<longleftrightarrow> (p, k) \<in> blocks_of bms - {(i * 2 ^ order, order)}" for p k
  proof (cases "2 ^ k dvd p")
    case True
    then obtain j where p: "p = 2 ^ k * j" by (rule dvdE)
    show ?thesis using assms by (cases "k = order") (simp_all add: blocks_of_mem p mult.commute)
  qed (simp add: blocks_of_mem)
  then show ?thesis by (intro equalityI subrelI) (simp_all only:)
qed

lemma one_classD: "one_class s A p \<Longrightarrow> q \<in> A \<Longrightarrow> zi s q = zi s p \<and> migratetype s q = migratetype s p"
  by (auto simp only: one_class_def)

lemma one_class_subset: "one_class s A p \<Longrightarrow> B \<subseteq> A \<Longrightarrow> q \<in> A \<Longrightarrow> one_class s B q"
  unfolding one_class_def by (metis subsetD)

lemma buddy_invD:
  assumes "buddy_inv s" and "(p, order) \<in> blocks s"
  shows "block_ok s p order" "poisoned (mem s) p" "order_of (mem s) p = order"
  using assms unfolding buddy_inv_def by fast+

lemma buddy_inv_shape: "buddy_inv s \<Longrightarrow> shape_ok s"
  by (simp add: buddy_inv_def)

lemma buddy_inv_disjoint:
  "buddy_inv s \<Longrightarrow> (p, a) \<in> blocks s \<Longrightarrow> (q, b) \<in> blocks s \<Longrightarrow> x \<in> pages p a \<Longrightarrow> x \<in> pages q b \<Longrightarrow> p = q \<and> a = b"
  unfolding buddy_inv_def disjoint_blocks_def by blast

lemma buddy_inv_list:
  assumes "buddy_inv s" and "zone < NR_ZONES" and "order \<le> MAX_ORDER"
  obtains xs where "list_ok s (zone, mt, order) xs"
  using assms unfolding buddy_inv_def by blast

lemma pfn_bound: "shape_ok s \<Longrightarrow> p < pfn_max s \<Longrightarrow> p < PFN_NULL \<and> p \<le> U64_MAX"
  by (auto simp: shape_ok_def PFN_NULL_def)

lemma block_ok_less: "block_ok s p order \<Longrightarrow> p < pfn_max s"
  unfolding block_ok_def by (metis add_lessD1 less_le_trans less_add_same_cancel1 zero_less_numeral zero_less_power)

lemma migratetype_defined: "shape_ok s \<Longrightarrow> p < pfn_max s \<Longrightarrow> \<exists>mt. migratetype s p = Some mt"
  unfolding migratetype_def shape_ok_def MAX_ORDER_def by (rule pb_get_defined) auto

text \<open>A page is on at most one list.\<close>

lemma list_key_unique:
  assumes "buddy_inv s" and "list_ok s k xs" and "list_ok s k' ys" and "p \<in> set xs" and "p \<in> set ys"
  shows "k = k'"
proof -
  obtain z mt o' z' mt' o'' where k: "k = (z, mt, o')" "k' = (z', mt', o'')" by (metis prod_cases3)
  have m: "(p, o') \<in> blocks s" "(p, o'') \<in> blocks s" "z = z'" "mt = mt'"
    using assms(2-5) by (auto simp: list_ok_def k)
  with buddy_inv_disjoint [OF assms(1) m(1,2), of p] show ?thesis by (simp add: k)
qed

lemma list_head:
  assumes "buddy_inv s" and "list_ok s k xs"
  shows "free_heads s k = (case xs of [] \<Rightarrow> PFN_NULL | x # _ \<Rightarrow> x)"
  using assms(2) by (cases k) (auto simp: list_ok_def intro: sll_head dll_sll)

lemma list_member_pfn:
  assumes "buddy_inv s" and "list_ok s (zone, mt, order) xs" and "p \<in> set xs"
  shows "(p, order) \<in> blocks s" "zi s p = zone" "migratetype s p = Some mt" "p < pfn_max s"
    "p < PFN_NULL" "p \<le> U64_MAX"
proof -
  show b: "(p, order) \<in> blocks s" "zi s p = zone" "migratetype s p = Some mt"
    using assms by (auto simp: list_ok_def)
  show less: "p < pfn_max s" using buddy_invD [OF assms(1) b(1)] block_ok_less by blast
  show "p < PFN_NULL" "p \<le> U64_MAX" using pfn_bound [OF buddy_inv_shape [OF assms(1)] less] by auto
qed

lemma zi_update [simp]:
  "zi (s\<lparr>mem := v0\<rparr>) = zi s"
  "zi (s\<lparr>bitmaps := v1\<rparr>) = zi s"
  "zi (s\<lparr>free_heads := v2\<rparr>) = zi s"
  "zi (s\<lparr>free_count := v3\<rparr>) = zi s"
  "zi (s\<lparr>managed := v4\<rparr>) = zi s"
  "zi (s\<lparr>present := v5\<rparr>) = zi s"
  "zi (s\<lparr>reserve := v6\<rparr>) = zi s"
  "zi (s\<lparr>wmark := v7\<rparr>) = zi s"
  "zi (s\<lparr>tunables := v8\<rparr>) = zi s"
  "zi (s\<lparr>allocated := v9\<rparr>) = zi s"
  "zi (s\<lparr>reserved := v10\<rparr>) = zi s"
  "zi (s\<lparr>alloc_events := v11\<rparr>) = zi s"
  "zi (s\<lparr>alloc_event_pages := v12\<rparr>) = zi s"
  "zi (s\<lparr>free_events := v13\<rparr>) = zi s"
  "zi (s\<lparr>free_event_pages := v14\<rparr>) = zi s"
  "zi (s\<lparr>pcp_bitmap := v15\<rparr>) = zi s"
  "zi (s\<lparr>hibernate_forbidden := v16\<rparr>) = zi s"
  "zi (s\<lparr>pcp := v17\<rparr>) = zi s"
  "zi (s\<lparr>zone_free := v18\<rparr>) = zi s"
  "zi (s\<lparr>pcp_free := v19\<rparr>) = zi s"
  "zi (s\<lparr>pcp_zone := v20\<rparr>) = zi s"
  "zi (s\<lparr>pcp_alloc_events := v21\<rparr>) = zi s"
  "zi (s\<lparr>pcp_alloc_event_pages := v22\<rparr>) = zi s"
  "zi (s\<lparr>pcp_free_events := v23\<rparr>) = zi s"
  "zi (s\<lparr>pcp_free_event_pages := v24\<rparr>) = zi s"
  "zi (s\<lparr>zone_list := v26\<rparr>) = zi s"
  "zi (s\<lparr>published := v27\<rparr>) = zi s"
  "zi (s\<lparr>pageblocks := v25\<rparr>) = zi s"
  by (simp_all add: zi_def fun_eq_iff)

lemma migratetype_update [simp]:
  "migratetype (s\<lparr>mem := v0\<rparr>) = migratetype s"
  "migratetype (s\<lparr>bitmaps := v1\<rparr>) = migratetype s"
  "migratetype (s\<lparr>free_heads := v2\<rparr>) = migratetype s"
  "migratetype (s\<lparr>free_count := v3\<rparr>) = migratetype s"
  "migratetype (s\<lparr>managed := v4\<rparr>) = migratetype s"
  "migratetype (s\<lparr>present := v5\<rparr>) = migratetype s"
  "migratetype (s\<lparr>reserve := v6\<rparr>) = migratetype s"
  "migratetype (s\<lparr>wmark := v7\<rparr>) = migratetype s"
  "migratetype (s\<lparr>tunables := v8\<rparr>) = migratetype s"
  "migratetype (s\<lparr>allocated := v9\<rparr>) = migratetype s"
  "migratetype (s\<lparr>reserved := v10\<rparr>) = migratetype s"
  "migratetype (s\<lparr>alloc_events := v11\<rparr>) = migratetype s"
  "migratetype (s\<lparr>alloc_event_pages := v12\<rparr>) = migratetype s"
  "migratetype (s\<lparr>free_events := v13\<rparr>) = migratetype s"
  "migratetype (s\<lparr>free_event_pages := v14\<rparr>) = migratetype s"
  "migratetype (s\<lparr>pcp_bitmap := v15\<rparr>) = migratetype s"
  "migratetype (s\<lparr>hibernate_forbidden := v16\<rparr>) = migratetype s"
  "migratetype (s\<lparr>pcp := v17\<rparr>) = migratetype s"
  "migratetype (s\<lparr>zone_free := v18\<rparr>) = migratetype s"
  "migratetype (s\<lparr>pcp_free := v19\<rparr>) = migratetype s"
  "migratetype (s\<lparr>pcp_zone := v20\<rparr>) = migratetype s"
  "migratetype (s\<lparr>pcp_alloc_events := v21\<rparr>) = migratetype s"
  "migratetype (s\<lparr>pcp_alloc_event_pages := v22\<rparr>) = migratetype s"
  "migratetype (s\<lparr>pcp_free_events := v23\<rparr>) = migratetype s"
  "migratetype (s\<lparr>pcp_free_event_pages := v24\<rparr>) = migratetype s"
  "migratetype (s\<lparr>zone_list := v26\<rparr>) = migratetype s"
  "migratetype (s\<lparr>published := v27\<rparr>) = migratetype s"
  by (simp_all add: migratetype_def fun_eq_iff)

lemma zi_cong: "layout s' = layout s \<Longrightarrow> zi s' = zi s"
  by (simp add: zi_def fun_eq_iff)

lemma migratetype_cong: "pageblocks s' = pageblocks s \<Longrightarrow> migratetype s' = migratetype s"
  by (simp add: migratetype_def fun_eq_iff)

lemma block_ok_cong:
  "pfn_max s' = pfn_max s \<Longrightarrow> layout s' = layout s \<Longrightarrow> pageblocks s' = pageblocks s \<Longrightarrow>
   block_ok s' = block_ok s"
  by (simp add: block_ok_def one_class_def fun_eq_iff zi_cong [of s' s] migratetype_cong [of s' s])

lemma shape_ok_cong:
  "pfn_max s' = pfn_max s \<Longrightarrow> layout s' = layout s \<Longrightarrow> length (pageblocks s') = length (pageblocks s) \<Longrightarrow>
   (\<And>order. length (bitmaps s' order) = length (bitmaps s order)) \<Longrightarrow> shape_ok s' = shape_ok s"
  by (simp add: shape_ok_def)

lemma span_of_simps [simp]:
  "span_of {} = {}" "span_of (insert (p, order) B) = pages p order \<union> span_of B"
  by (auto simp: span_of_def)

lemma span_of_mem: "(p, order) \<in> B \<Longrightarrow> q \<in> pages p order \<Longrightarrow> q \<in> span_of B"
  by (auto simp: span_of_def)

lemma disjoint_blocks_insert:
  "disjoint_blocks B \<Longrightarrow> pages p order \<inter> span_of B = {} \<Longrightarrow> disjoint_blocks (insert (p, order) B)"
  unfolding disjoint_blocks_def span_of_def by blast

lemma disjoint_blocks_subset: "disjoint_blocks B \<Longrightarrow> C \<subseteq> B \<Longrightarrow> disjoint_blocks C"
  unfolding disjoint_blocks_def by blast

lemma span_of_remove:
  "disjoint_blocks B \<Longrightarrow> (p, order) \<in> B \<Longrightarrow> span_of (B - {(p, order)}) = span_of B - pages p order"
  unfolding disjoint_blocks_def span_of_def by blast

lemma buddy_inv_disjoint_blocks: "buddy_inv s \<Longrightarrow> disjoint_blocks (blocks s)"
  by (simp add: buddy_inv_def)

section \<open>Putting a block on its list\<close>

lemma enlist_lists:
  assumes inv: "buddy_inv s" and fresh: "pages p order \<inter> free_set s = {}"
    and mt: "migratetype s p = Some mt" and p: "p < pfn_max s"
    and k: "k = (zi s p, mt, order)" and xs: "list_ok s k xs"
    and s': "layout s' = layout s" "pageblocks s' = pageblocks s" "blocks s' = insert (p, order) (blocks s)"
    and nx: "next_of (mem s') = (next_of (mem s))(p := free_heads s k)"
    and pv: "prev_of (mem s') = (if free_heads s k = PFN_NULL then (prev_of (mem s))(p := PFN_NULL)
               else (prev_of (mem s))(p := PFN_NULL, free_heads s k := p))"
    and h: "free_heads s' = (free_heads s)(k := p)" and c: "free_count s' = (free_count s)(k := free_count s k + 1)"
    and ys: "list_ok s k' ys"
  shows "list_ok s' k' (if k' = k then p # ys else ys)"
proof -
  obtain z' mt' o' where k': "k' = (z', mt', o')" by (metis prod_cases3)
  have z: "zi s' = zi s" "migratetype s' = migratetype s" using s' zi_cong migratetype_cong by blast+
  have mem: "x \<in> free_set s" if "x \<in> set zs" "list_ok s (a, b, d) zs" for x zs a b d
    using that span_of_mem [of x d "blocks s" x] by (auto simp: list_ok_def)
  have pf: "p \<notin> free_set s" using fresh pages_self [of p order] by blast
  have pn: "p \<noteq> PFN_NULL" using pfn_bound [OF buddy_inv_shape [OF inv] p] by simp
  show ?thesis
  proof (cases "k' = k")
    case True
    have d: "dll (next_of (mem s)) (prev_of (mem s)) (free_heads s k) ys" and n: "free_count s k = length ys"
      and st: "set ys = {q. (q, order) \<in> blocks s \<and> zi s q = zi s p \<and> migratetype s q = Some mt}"
      using ys True by (auto simp: list_ok_def k)
    have "p \<notin> set ys" using mem [of p ys] ys True pf k by auto
    from dll_push [OF d this pn] have "dll (next_of (mem s')) (prev_of (mem s')) p (p # ys)"
      by (simp add: nx pv)
    then show ?thesis using n st mt by (auto simp: True k list_ok_def h [unfolded k] c [unfolded k] s' z)
  next
    case False
    have d: "dll (next_of (mem s)) (prev_of (mem s)) (free_heads s k') ys"
      using ys by (auto simp: list_ok_def k')
    have "x \<noteq> p \<and> x \<noteq> free_heads s k" if "x \<in> set ys" for x
    proof
      show "x \<noteq> p" using mem [OF that] ys pf k' by auto
      show "x \<noteq> free_heads s k"
        using list_key_unique [OF inv ys xs that] False list_head [OF inv xs]
          list_member_pfn [OF inv ys [unfolded k'] that] by (auto split: list.splits)
    qed
    then have "dll (next_of (mem s')) (prev_of (mem s')) (free_heads s k') ys"
      using d by (subst dll_cong) (auto simp: nx pv)
    moreover have "{q. (q, o') \<in> insert (p, order) (blocks s) \<and> zi s q = z' \<and> migratetype s q = Some mt'} =
        {q. (q, o') \<in> blocks s \<and> zi s q = z' \<and> migratetype s q = Some mt'}"
      using False mt by (auto simp: k k')
    ultimately show ?thesis using ys False unfolding list_ok_def k'
      by (simp only: h c s' z prod.case fun_upd_apply if_False simp_thms)
  qed
qed

lemma bm_set_ok:
  assumes "i < 64 * length bm"
  obtains bm' where "bm_set bm i = Some bm'" "bm_bits bm' = insert i (bm_bits bm)" "length bm' = length bm"
  using bm.returns_put [OF assms] unfolding bm_bits_def [symmetric] by (auto elim!: returnsE)

lemma bm_clear_ok:
  assumes "i < 64 * length bm"
  obtains bm' where "bm_clear bm i = Some bm'" "bm_bits bm' = bm_bits bm - {i}" "length bm' = length bm"
  using bm.returns_del [OF assms] unfolding bm_bits_def [symmetric] by (auto elim!: returnsE)

lemma block_ok_index:
  assumes "shape_ok s" and "block_ok s p order"
  shows "p div 2 ^ order < 64 * length (bitmaps s order)"
proof -
  have "p < pfn_max s" "order \<le> MAX_ORDER"
    using block_ok_less [OF assms(2)] assms(2) by (auto simp: block_ok_def)
  with assms(1) show ?thesis by (simp add: shape_ok_def)
qed

lemma enlist_ok:
  assumes inv: "buddy_inv s" and ok: "block_ok s p order" and fresh: "pages p order \<inter> free_set s = {}"
    and mt: "migratetype s p = Some mt" and zone: "zone = zi s p"
  shows "returns (enlist s zone p order mt) (\<lambda>s'. buddy_inv s' \<and> blocks s' = insert (p, order) (blocks s) \<and>
    buddy_frame s s' \<and> pageblocks s' = pageblocks s \<and>
    free_count s' = (free_count s)((zone, mt, order) := free_count s (zone, mt, order) + 1) \<and>
    poisoned (mem s') = (poisoned (mem s))(p := True) \<and>
    (\<forall>q. q \<notin> free_set s \<longrightarrow> q \<noteq> p \<longrightarrow> mem s' q = mem s q))"
proof -
  let ?k = "(zone, mt, order)"
  let ?h = "free_heads s ?k"
  let ?m0 = "stamp_block (mem s) p order ?h PFN_NULL"
  let ?m = "if ?h \<noteq> PFN_NULL then write_u64 ?m0 ?h OFF_PREV p else ?m0"
  have sh: "shape_ok s" using inv by (rule buddy_inv_shape)
  have p: "p < pfn_max s" "order \<le> MAX_ORDER" "2 ^ order dvd p"
    using block_ok_less [OF ok] ok by (auto simp: block_ok_def)
  obtain bm' where bm: "bm_set (bitmaps s order) (p div 2 ^ order) = Some bm'"
    "bm_bits bm' = insert (p div 2 ^ order) (bm_bits (bitmaps s order))" "length bm' = length (bitmaps s order)"
    using bm_set_ok [OF block_ok_index [OF sh ok]] by blast
  obtain xs where xs: "list_ok s ?k xs" by (rule buddy_inv_list [OF inv zi_less p(2)]) (simp add: zone)
  have hm: "?h \<noteq> PFN_NULL \<Longrightarrow> ?h \<in> set xs" using list_head [OF inv xs] by (auto split: list.splits)
  have hb: "?h \<noteq> PFN_NULL \<Longrightarrow> ?h \<le> U64_MAX \<and> (?h, order) \<in> blocks s"
    using list_member_pfn [OF inv xs] hm by blast
  have hu: "?h \<le> U64_MAX" using hb by (cases "?h = PFN_NULL") (auto simp: PFN_NULL_def)
  have "p \<notin> free_set s" using fresh pages_self [of p order] by blast
  then have pn: "(p, n) \<notin> blocks s" for n using span_of_mem [of p n "blocks s" p] by auto
  define s' where "s' = s\<lparr>mem := ?m, free_heads := (free_heads s)(?k := p),
      bitmaps := (bitmaps s)(order := bm'), free_count := (free_count s)(?k := free_count s ?k + 1)\<rparr>"
  have run: "enlist s zone p order mt = Some s'"
    using bm mt by (simp add: enlist_def push_free_def bitmap_set_def count_inc_def s'_def zone Let_def)
  have bl: "blocks s' = insert (p, order) (blocks s)"
    using blocks_of_insert [where bms = "bitmaps s", OF bm(2) p(2)] p(3) by (simp add: s'_def)
  have fr: "buddy_frame s s'" and pb: "pageblocks s' = pageblocks s"
    by (simp_all add: buddy_frame_def s'_def)
  have o256: "order < 256" using p(2) by (simp add: MAX_ORDER_def)
  have pu: "p \<le> U64_MAX" "PFN_NULL \<le> U64_MAX" using pfn_bound [OF sh p(1)] by (simp_all add: PFN_NULL_def)
  have nx: "next_of (mem s') = (next_of (mem s))(p := ?h)"
    and pv: "prev_of (mem s') = (if ?h = PFN_NULL then (prev_of (mem s))(p := PFN_NULL)
               else (prev_of (mem s))(p := PFN_NULL, ?h := p))"
    and po: "poisoned (mem s') = (poisoned (mem s))(p := True)"
    and od: "order_of (mem s') = (order_of (mem s))(p := order)"
    using hu o256 pu by (simp_all add: s'_def node.nxt_set_prv node.nxt_stamp node.prv_set_prv node.prv_stamp
        node.tag_set_prv node.tag_stamp node.ord_set_prv node.ord_stamp)
  have me: "mem s' q = mem s q" if "q \<notin> free_set s" "q \<noteq> p" for q
    using that hb span_of_mem [of ?h order "blocks s" ?h] by (cases "q = ?h") (auto simp: s'_def)
  have lay: "layout s' = layout s" "pfn_max s' = pfn_max s" using fr by (auto dest: buddy_frameD)
  have "buddy_inv s'" unfolding buddy_inv_def
  proof (intro conjI)
    show "shape_ok s'" using sh bm(3) by (simp add: s'_def shape_ok_def)
    have "block_ok s' = block_ok s" using block_ok_cong lay pb by blast
    then show "\<forall>(q, k) \<in> blocks s'. block_ok s' q k \<and> poisoned (mem s') q \<and> order_of (mem s') q = k"
      using ok buddy_invD [OF inv] pn by (auto simp: bl po od)
    show "disjoint_blocks (blocks s')"
      unfolding bl using buddy_inv_disjoint_blocks [OF inv] fresh by (rule disjoint_blocks_insert)
    have "free_heads s' = (free_heads s)(?k := p)" "free_count s' = (free_count s)(?k := free_count s ?k + 1)"
      by (simp_all add: s'_def)
    note lists = enlist_lists [OF inv fresh mt p(1) _ xs lay(1) pb bl nx pv this]
    show "\<forall>z<NR_ZONES. \<forall>t. \<forall>n\<le>MAX_ORDER. \<exists>ys. list_ok s' (z, t, n) ys"
      using lists buddy_inv_list [OF inv] by (metis zone)
  qed
  then show ?thesis using run bl fr pb po me by (simp add: s'_def)
qed

section \<open>Taking a block off its list\<close>

lemma unlink_lists:
  assumes inv: "buddy_inv s" and k: "k = (zone, mt, order)" and xs: "list_ok s k (as @ p # bs)"
    and s': "layout s' = layout s" "pageblocks s' = pageblocks s" "blocks s' = blocks s - {(p, order)}"
    and nx: "next_of (mem s') = (if prev_of (mem s) p = PFN_NULL then next_of (mem s)
               else (next_of (mem s))(prev_of (mem s) p := next_of (mem s) p))"
    and pv: "prev_of (mem s') = (if next_of (mem s) p = PFN_NULL then prev_of (mem s)
               else (prev_of (mem s))(next_of (mem s) p := prev_of (mem s) p))"
    and h: "free_heads s' = (if prev_of (mem s) p = PFN_NULL then (free_heads s)(k := next_of (mem s) p) else free_heads s)"
    and c: "free_count s' = (free_count s)(k := free_count s k - 1)"
    and ys: "list_ok s k' ys"
  shows "list_ok s' k' (if k' = k then as @ bs else ys)"
proof -
  obtain z' mt' o' where k': "k' = (z', mt', o')" by (metis prod_cases3)
  have z: "zi s' = zi s" "migratetype s' = migratetype s" using s' zi_cong migratetype_cong by blast+
  have d: "dll (next_of (mem s)) (prev_of (mem s)) (free_heads s k) (as @ p # bs)"
    and n: "free_count s k = length (as @ p # bs)"
    and st: "set (as @ p # bs) = {q. (q, order) \<in> blocks s \<and> zi s q = zone \<and> migratetype s q = Some mt}"
    using xs by (auto simp: list_ok_def k)
  have li: "prev_of (mem s) p = (if as = [] then PFN_NULL else last as)"
    "next_of (mem s) p = (case bs of [] \<Rightarrow> PFN_NULL | y # _ \<Rightarrow> y)" "PFN_NULL \<notin> set (as @ p # bs)"
    using dll_links [OF d] by auto
  show ?thesis
  proof (cases "k' = k")
    case True
    have "distinct (as @ p # bs)" using d by (simp add: dll_def)
    then have "set (as @ bs) = {q. (q, order) \<in> blocks s - {(p, order)} \<and> zi s q = zone \<and> migratetype s q = Some mt}"
      using st by auto
    moreover have "dll (next_of (mem s')) (prev_of (mem s')) (free_heads s' k) (as @ bs)"
      using dll_unlink [OF d] by (cases "prev_of (mem s) p = PFN_NULL") (simp_all add: nx pv h)
    moreover have "free_count s' k = length (as @ bs)" using n by (simp add: c)
    ultimately show ?thesis using True unfolding list_ok_def k
      by (simp only: s' z prod.case if_True simp_thms)
  next
    case False
    have d': "dll (next_of (mem s)) (prev_of (mem s)) (free_heads s k') ys"
      using ys by (auto simp: list_ok_def k')
    have dj: "x \<notin> set (as @ p # bs)" if "x \<in> set ys" for x
      using list_key_unique [OF inv ys xs that] False by blast
    have "prev_of (mem s) p \<noteq> PFN_NULL \<Longrightarrow> prev_of (mem s) p \<in> set as"
      "next_of (mem s) p \<noteq> PFN_NULL \<Longrightarrow> next_of (mem s) p \<in> set bs"
      using li last_in_set [of as] by (auto split: list.splits if_splits)
    then have "dll (next_of (mem s')) (prev_of (mem s')) (free_heads s k') ys"
      using d' dj by (subst dll_cong [of ys _ "next_of (mem s)" _ "prev_of (mem s)"]) (auto simp: nx pv)
    moreover have "{q. (q, o') \<in> blocks s - {(p, order)} \<and> zi s q = z' \<and> migratetype s q = Some mt'} =
        {q. (q, o') \<in> blocks s \<and> zi s q = z' \<and> migratetype s q = Some mt'}"
      using False list_member_pfn [OF inv xs [unfolded k], of p] by (auto simp: k k')
    moreover have "free_heads s' k' = free_heads s k'" "free_count s' k' = free_count s k'"
      using False by (auto simp: h c)
    ultimately show ?thesis using ys False unfolding list_ok_def k'
      by (simp only: s' z prod.case if_False simp_thms)
  qed
qed

lemma remove_inv:
  assumes inv: "buddy_inv s" and b: "(p, order) \<in> blocks s" and k: "k = (zi s p, mt, order)"
    and mt: "migratetype s p = Some mt" and fr: "buddy_frame s s'" and pb: "pageblocks s' = pageblocks s"
    and bm: "bitmaps s' = (bitmaps s)(order := bm')" "bm_bits bm' = bm_bits (bitmaps s order) - {p div 2 ^ order}"
      "length bm' = length (bitmaps s order)"
    and nx: "next_of (mem s') = (if prev_of (mem s) p = PFN_NULL then next_of (mem s)
               else (next_of (mem s))(prev_of (mem s) p := next_of (mem s) p))"
    and pv: "prev_of (mem s') = (if next_of (mem s) p = PFN_NULL then prev_of (mem s)
               else (prev_of (mem s))(next_of (mem s) p := prev_of (mem s) p))"
    and h: "free_heads s' = (if prev_of (mem s) p = PFN_NULL then (free_heads s)(k := next_of (mem s) p) else free_heads s)"
    and c: "free_count s' = (free_count s)(k := free_count s k - 1)"
    and po: "poisoned (mem s') = poisoned (mem s)" and od: "order_of (mem s') = order_of (mem s)"
  shows "buddy_inv s' \<and> blocks s' = blocks s - {(p, order)}"
proof -
  have p: "order \<le> MAX_ORDER" "2 ^ order dvd p"
    using buddy_invD(1) [OF inv b] by (auto simp: block_ok_def)
  have bl: "blocks s' = blocks s - {(p, order)}"
    using blocks_of_delete [where bms = "bitmaps s", OF bm(2)] p(2) by (simp add: bm(1))
  have lay: "layout s' = layout s" "pfn_max s' = pfn_max s" using fr by (auto dest: buddy_frameD)
  obtain xs where xs: "list_ok s k xs" using buddy_inv_list [OF inv zi_less p(1)] k by metis
  then have "p \<in> set xs" using b mt by (auto simp: list_ok_def k)
  then obtain as bs where xs': "xs = as @ p # bs" by (meson split_list)
  have "buddy_inv s'" unfolding buddy_inv_def
  proof (intro conjI)
    show "shape_ok s'" using buddy_inv_shape [OF inv] bm lay pb by (simp add: shape_ok_def)
    have "block_ok s' = block_ok s" using block_ok_cong lay pb by blast
    then show "\<forall>(q, n) \<in> blocks s'. block_ok s' q n \<and> poisoned (mem s') q \<and> order_of (mem s') q = n"
      using buddy_invD [OF inv] by (auto simp: bl po od)
    show "disjoint_blocks (blocks s')"
      unfolding bl using buddy_inv_disjoint_blocks [OF inv] by (rule disjoint_blocks_subset) blast
    note lists = unlink_lists [OF inv k xs [unfolded xs'] lay(1) pb bl nx pv h c]
    show "\<forall>z<NR_ZONES. \<forall>t. \<forall>n\<le>MAX_ORDER. \<exists>ys. list_ok s' (z, t, n) ys"
      using lists buddy_inv_list [OF inv] by metis
  qed
  then show ?thesis using bl by simp
qed

text \<open>The header links of a listed block name blocks of the same list.\<close>

lemma block_links:
  assumes inv: "buddy_inv s" and b: "(p, order) \<in> blocks s" and mt: "migratetype s p = Some mt"
    and q: "q = next_of (mem s) p \<or> q = prev_of (mem s) p" "q \<noteq> PFN_NULL"
  shows "(q, order) \<in> blocks s \<and> zi s q = zi s p \<and> migratetype s q = Some mt \<and> q < pfn_max s \<and> q \<le> U64_MAX \<and> q \<noteq> p"
proof -
  have "order \<le> MAX_ORDER" using buddy_invD(1) [OF inv b] by (simp add: block_ok_def)
  then obtain xs where xs: "list_ok s (zi s p, mt, order) xs" using buddy_inv_list [OF inv zi_less] by metis
  then have "p \<in> set xs" using b mt by (auto simp: list_ok_def)
  then obtain as bs where xs': "xs = as @ p # bs" by (meson split_list)
  have d: "dll (next_of (mem s)) (prev_of (mem s)) (free_heads s (zi s p, mt, order)) (as @ p # bs)"
    using xs by (simp add: list_ok_def xs')
  then have "distinct (as @ p # bs)" by (simp add: dll_def)
  moreover have "q \<in> set as \<union> set bs"
    using dll_links [OF d] q last_in_set [of as] by (auto split: list.splits if_splits)
  ultimately have "q \<in> set xs" "q \<noteq> p" by (auto simp: xs')
  then show ?thesis using list_member_pfn [OF inv xs] by blast
qed

lemma block_head:
  assumes inv: "buddy_inv s" and b: "(p, order) \<in> blocks s" and mt: "migratetype s p = Some mt"
  shows "(prev_of (mem s) p = PFN_NULL \<longleftrightarrow> free_heads s (zi s p, mt, order) = p) \<and> 0 < free_count s (zi s p, mt, order)"
proof -
  have "order \<le> MAX_ORDER" using buddy_invD(1) [OF inv b] by (simp add: block_ok_def)
  then obtain xs where xs: "list_ok s (zi s p, mt, order) xs" using buddy_inv_list [OF inv zi_less] by metis
  then have "p \<in> set xs" using b mt by (auto simp: list_ok_def)
  then obtain as bs where xs': "xs = as @ p # bs" by (meson split_list)
  have d: "dll (next_of (mem s)) (prev_of (mem s)) (free_heads s (zi s p, mt, order)) (as @ p # bs)"
    using xs by (simp add: list_ok_def xs')
  have "prev_of (mem s) p \<noteq> PFN_NULL \<and> free_heads s (zi s p, mt, order) \<noteq> p" if ne: "as \<noteq> []"
  proof
    have "PFN_NULL \<notin> set as" using dll_links [OF d] by simp
    then have "last as \<noteq> PFN_NULL" using last_in_set [OF ne] by metis
    then show "prev_of (mem s) p \<noteq> PFN_NULL" using dll_links [OF d] ne by simp
    show "free_heads s (zi s p, mt, order) \<noteq> p"
      using ne list_head [OF inv xs] d by (cases as) (auto simp: xs' dll_def)
  qed
  moreover have "as = [] \<Longrightarrow> prev_of (mem s) p = PFN_NULL \<and> free_heads s (zi s p, mt, order) = p"
    using dll_links [OF d] by simp
  ultimately show ?thesis using xs by (auto simp: list_ok_def xs')
qed

definition removed :: "pmm \<Rightarrow> nat \<Rightarrow> nat \<Rightarrow> migrate_type \<Rightarrow> pmm \<Rightarrow> bool" where
  "removed s p order mt s' \<longleftrightarrow> buddy_inv s' \<and> blocks s' = blocks s - {(p, order)} \<and>
    buddy_frame s s' \<and> pageblocks s' = pageblocks s \<and>
    free_count s' = (free_count s)((zi s p, mt, order) := free_count s (zi s p, mt, order) - 1) \<and>
    0 < free_count s (zi s p, mt, order) \<and>
    poisoned (mem s') = poisoned (mem s) \<and> (\<forall>q. q \<notin> free_set s \<longrightarrow> mem s' q = mem s q)"

lemma delist_ok:
  assumes inv: "buddy_inv s" and b: "(p, order) \<in> blocks s" and mt: "migratetype s p = Some mt" and zone: "zone = zi s p"
  shows "returns (delist s zone p order mt) (removed s p order mt)"
proof -
  let ?k = "(zone, mt, order)" and ?n = "next_of (mem s) p" and ?v = "prev_of (mem s) p"
  let ?m0 = "if ?v = PFN_NULL then mem s else write_u64 (mem s) ?v OFF_NEXT ?n"
  let ?m = "if ?n = PFN_NULL then ?m0 else write_u64 ?m0 ?n OFF_PREV ?v"
  have sh: "shape_ok s" using inv by (rule buddy_inv_shape)
  note ok = buddy_invD(1) [OF inv b]
  have n: "?n \<noteq> PFN_NULL \<Longrightarrow> (?n, order) \<in> blocks s \<and> zi s ?n = zone \<and> migratetype s ?n = Some mt \<and> ?n < pfn_max s"
    and v: "?v \<noteq> PFN_NULL \<Longrightarrow> (?v, order) \<in> blocks s \<and> zi s ?v = zone \<and> migratetype s ?v = Some mt \<and> ?v < pfn_max s"
    using block_links [OF inv b mt] zone by blast+
  have u: "?n \<le> U64_MAX" "?v \<le> U64_MAX" using block_links [OF inv b mt] by (metis PFN_NULL_def order_refl)+
  have f: "?n \<noteq> PFN_NULL \<Longrightarrow> ?n \<in> free_set s" "?v \<noteq> PFN_NULL \<Longrightarrow> ?v \<in> free_set s"
    using n v span_of_mem [of _ order "blocks s"] pages_self by blast+
  note hd = block_head [OF inv b mt, folded zone]
  obtain bm' where bm: "bm_clear (bitmaps s order) (p div 2 ^ order) = Some bm'"
    "bm_bits bm' = bm_bits (bitmaps s order) - {p div 2 ^ order}" "length bm' = length (bitmaps s order)"
    using bm_clear_ok [OF block_ok_index [OF sh ok]] by blast
  define s' where "s' = s\<lparr>mem := ?m, free_heads := if ?v = PFN_NULL then (free_heads s)(?k := ?n) else free_heads s,
      bitmaps := (bitmaps s)(order := bm'), free_count := (free_count s)(?k := free_count s ?k - 1)\<rparr>"
  have run: "delist s zone p order mt = Some s'"
    using bm(1) mt n v hd zone
    by (cases "?n = PFN_NULL"; cases "?v = PFN_NULL")
      (simp_all add: delist_def unlink_free_def same_class_def bitmap_clear_def count_dec_def checked_sub_def s'_def Let_def)
  have fr: "buddy_frame s s'" "pageblocks s' = pageblocks s" by (simp_all add: buddy_frame_def s'_def)
  have me: "mem s' q = mem s q" if "q \<notin> free_set s" for q
    using that f by (cases "q = ?n"; cases "q = ?v") (auto simp: s'_def)
  have po: "poisoned (mem s') = poisoned (mem s)" "order_of (mem s') = order_of (mem s)"
    by (simp_all add: s'_def node.tag_set_nxt node.tag_set_prv node.ord_set_nxt node.ord_set_prv)
  have nx: "next_of (mem s') = (if ?v = PFN_NULL then next_of (mem s) else (next_of (mem s))(?v := ?n))"
    and pv: "prev_of (mem s') = (if ?n = PFN_NULL then prev_of (mem s) else (prev_of (mem s))(?n := ?v))"
    using u by (simp_all add: s'_def node.nxt_set_prv node.nxt_set_nxt node.prv_set_prv node.prv_set_nxt)
  have "buddy_inv s' \<and> blocks s' = blocks s - {(p, order)}"
    by (rule remove_inv [OF inv b refl mt fr _ bm(2,3) nx pv _ _ po]) (simp_all add: s'_def zone)
  then show ?thesis using run fr po me hd by (simp add: removed_def s'_def zone)
qed

lemma delist_head_ok:
  assumes inv: "buddy_inv s" and zone: "zone < NR_ZONES" and order: "order \<le> MAX_ORDER"
    and ne: "free_heads s (zone, mt, order) \<noteq> PFN_NULL"
  shows "returns (delist_head s zone order mt) (\<lambda>(s', p). (p, order) \<in> blocks s \<and> zi s p = zone \<and>
    migratetype s p = Some mt \<and> removed s p order mt s')"
proof -
  let ?k = "(zone, mt, order)"
  define p where "p = free_heads s ?k"
  let ?n = "next_of (mem s) p"
  let ?m = "if ?n = PFN_NULL then mem s else write_u64 (mem s) ?n OFF_PREV PFN_NULL"
  obtain xs where xs: "list_ok s ?k xs" using buddy_inv_list [OF inv zone order] by metis
  obtain ys where ys: "xs = p # ys" using list_head [OF inv xs] ne by (auto simp: p_def split: list.splits)
  have b: "(p, order) \<in> blocks s" "zi s p = zone" "migratetype s p = Some mt" "p < pfn_max s"
    using list_member_pfn [OF inv xs, of p] by (simp_all add: ys)
  have sh: "shape_ok s" using inv by (rule buddy_inv_shape)
  have v: "prev_of (mem s) p = PFN_NULL" and c: "0 < free_count s ?k"
    using block_head [OF inv b(1,3)] b(2) by (auto simp: p_def)
  have n: "?n \<noteq> PFN_NULL \<Longrightarrow> (?n, order) \<in> blocks s \<and> zi s ?n = zone \<and> migratetype s ?n = Some mt \<and> ?n < pfn_max s \<and> ?n \<noteq> p"
    using block_links [OF inv b(1,3)] b(2) by blast
  have d: "dll (next_of (mem s)) (prev_of (mem s)) p (p # ys)" using xs by (simp add: list_ok_def ys p_def)
  have np: "?n \<noteq> PFN_NULL \<Longrightarrow> prev_of (mem s) ?n = p"
    using d by (cases ys) (auto simp: dll_def)
  have u: "?n \<le> U64_MAX" "PFN_NULL \<le> U64_MAX" using block_links [OF inv b(1,3)] by (metis PFN_NULL_def order_refl)+
  obtain bm' where bm: "bm_clear (bitmaps s order) (p div 2 ^ order) = Some bm'"
    "bm_bits bm' = bm_bits (bitmaps s order) - {p div 2 ^ order}" "length bm' = length (bitmaps s order)"
    using bm_clear_ok [OF block_ok_index [OF sh buddy_invD(1) [OF inv b(1)]]] by blast
  define s' where "s' = s\<lparr>mem := ?m, free_heads := (free_heads s)(?k := ?n),
      bitmaps := (bitmaps s)(order := bm'), free_count := (free_count s)(?k := free_count s ?k - 1)\<rparr>"
  have run: "delist_head s zone order mt = Some (s', p)"
    using bm(1) n np v c ne
    by (cases "?n = PFN_NULL")
      (simp_all add: delist_head_def pop_free_def bitmap_clear_def count_dec_def checked_sub_def s'_def Let_def p_def)
  have fr: "buddy_frame s s'" "pageblocks s' = pageblocks s" by (simp_all add: buddy_frame_def s'_def)
  have me: "mem s' q = mem s q" if "q \<notin> free_set s" for q
    using that n span_of_mem [of ?n order "blocks s" ?n] by (cases "q = ?n") (auto simp: s'_def)
  have po: "poisoned (mem s') = poisoned (mem s)" "order_of (mem s') = order_of (mem s)"
    by (simp_all add: s'_def node.tag_set_prv node.ord_set_prv)
  have nx: "next_of (mem s') = (if prev_of (mem s) p = PFN_NULL then next_of (mem s) else (next_of (mem s))(prev_of (mem s) p := ?n))"
    and pv: "prev_of (mem s') = (if ?n = PFN_NULL then prev_of (mem s) else (prev_of (mem s))(?n := prev_of (mem s) p))"
    using u v by (simp_all add: s'_def node.nxt_set_prv node.prv_set_prv)
  have "buddy_inv s' \<and> blocks s' = blocks s - {(p, order)}"
    by (rule remove_inv [OF inv b(1) refl b(3) fr _ bm(2,3) nx pv _ _ po]) (simp_all add: s'_def b v)
  then show ?thesis using run fr po me b c by (simp add: removed_def s'_def)
qed

end
