(* ===== verification/Buddy_Ops.thy ===== *)
theory Buddy_Ops
  imports Buddy_Inv
begin

text \<open>
  Every operation of \<open>buddy/inner.rs\<close> and the coalescer of \<open>buddy/free.rs\<close> keep the invariant,
  never fail an assertion, and change the set of free pages by exactly the block they move.
\<close>

section \<open>Geometry of blocks\<close>

lemma pages_halves [block_simps]: "pages p (Suc k) = pages p k \<union> pages (p + 2 ^ k) k"
  by (auto simp: pages_def)

lemma pages_halves_disjoint: "pages p k \<inter> pages (p + 2 ^ k) k = {}"
  by (auto simp: pages_def)

lemma pages_mono: "j \<le> k \<Longrightarrow> pages p j \<subseteq> pages p k"
  using power_increasing [of j k "2 :: nat"] by (auto simp: pages_def)

lemma pages_index:
  assumes "2 ^ k dvd p"
  shows "q \<in> pages p k \<longleftrightarrow> q div 2 ^ k = p div 2 ^ k"
proof -
  obtain j where p: "p = 2 ^ k * j" using assms by (rule dvdE)
  have "q div 2 ^ k = j" if "2 ^ k * j \<le> q" "q < 2 ^ k * j + 2 ^ k"
    using that by (intro div_nat_eqI) (simp_all add: mult.commute)
  moreover have "2 ^ k * j \<le> q \<and> q < 2 ^ k * j + 2 ^ k" if "q div 2 ^ k = j"
    using that dividend_less_times_div [of "2 ^ k" q] times_div_less_eq_dividend [of "2 ^ k" q]
    by (simp add: add.commute)
  ultimately show ?thesis by (auto simp: pages_def p)
qed

lemma block_ok_halves:
  assumes "block_ok s p (Suc k)"
  shows "block_ok s p k" "block_ok s (p + 2 ^ k) k"
    "zi s (p + 2 ^ k) = zi s p" "migratetype s (p + 2 ^ k) = migratetype s p"
proof -
  have "2 * 2 ^ k dvd p" using assms by (simp add: block_ok_def)
  then have d: "2 ^ k dvd p" "2 ^ k dvd p + 2 ^ k" by (auto dest: dvd_mult_right)
  have all: "one_class s (pages p (Suc k)) p" using assms by (simp add: block_ok_def)
  have mid: "p + 2 ^ k \<in> pages p (Suc k)" by (simp add: pages_def)
  show "zi s (p + 2 ^ k) = zi s p" "migratetype s (p + 2 ^ k) = migratetype s p"
    using one_classD [OF all mid] by auto
  have "one_class s (pages p k) p" "one_class s (pages (p + 2 ^ k) k) (p + 2 ^ k)"
    using one_class_subset [OF all] mid by (auto simp: pages_halves)
  then show "block_ok s p k" "block_ok s (p + 2 ^ k) k"
    using assms d by (simp_all add: block_ok_def)
qed

lemma block_ok_mono: "block_ok s p k \<Longrightarrow> j \<le> k \<Longrightarrow> block_ok s p j"
  by (induction k) (auto simp: le_Suc_eq dest: block_ok_halves(1))

lemma block_ok_frame: "buddy_frame s s' \<Longrightarrow> pageblocks s' = pageblocks s \<Longrightarrow> block_ok s' = block_ok s"
  by (intro block_ok_cong) (auto dest: buddy_frameD)

lemma zi_frame: "buddy_frame s s' \<Longrightarrow> zi s' = zi s"
  by (intro zi_cong) (auto dest: buddy_frameD)

section \<open>Splitting\<close>

definition split_post :: "pmm \<Rightarrow> nat \<Rightarrow> nat \<Rightarrow> nat \<Rightarrow> pmm \<Rightarrow> bool" where
  "split_post s p order cur s' \<longleftrightarrow> buddy_inv s' \<and> buddy_frame s s' \<and> pageblocks s' = pageblocks s \<and>
     free_set s' = free_set s \<union> (pages p cur - pages p order) \<and>
     blocks s \<subseteq> blocks s' \<and> (\<forall>(q, k) \<in> blocks s' - blocks s. q \<in> pages p cur) \<and>
     (\<forall>q. poisoned (mem s) q \<longrightarrow> poisoned (mem s') q) \<and>
     (\<forall>q. q \<notin> free_set s' \<longrightarrow> mem s' q = mem s q)"

lemma split_block_ok:
  "buddy_inv s \<Longrightarrow> block_ok s p cur \<Longrightarrow> pages p cur \<inter> free_set s = {} \<Longrightarrow> migratetype s p = Some mt \<Longrightarrow>
   zone = zi s p \<Longrightarrow> order \<le> cur \<Longrightarrow>
   returns (split_block s zone p order cur mt) (split_post s p order cur)"
proof (induction cur arbitrary: s)
  case 0
  then show ?case by (simp add: split_post_def)
next
  case (Suc k)
  show ?case
  proof (cases "order < Suc k")
    case False
    then have "order = Suc k" using Suc.prems by simp
    then show ?thesis using Suc.prems by (simp add: split_post_def)
  next
    case True
    note h = block_ok_halves [OF Suc.prems(2)]
    have dj: "pages (p + 2 ^ k) k \<inter> free_set s = {}" "pages p k \<inter> free_set s = {}"
      using Suc.prems(3) by (auto simp: pages_halves)
    show ?thesis unfolding split_block.simps if_P [OF True]
    proof (rule returns_bind [OF enlist_ok [OF Suc.prems(1) h(2) dj(1)]])
      show "migratetype s (p + 2 ^ k) = Some mt" "zone = zi s (p + 2 ^ k)" using h Suc.prems by simp_all
      fix s1
      assume "buddy_inv s1 \<and> blocks s1 = insert (p + 2 ^ k, k) (blocks s) \<and> buddy_frame s s1 \<and>
        pageblocks s1 = pageblocks s \<and>
        free_count s1 = (free_count s)((zone, mt, k) := free_count s (zone, mt, k) + 1) \<and>
        poisoned (mem s1) = (poisoned (mem s))(p + 2 ^ k := True) \<and>
        (\<forall>q. q \<notin> free_set s \<longrightarrow> q \<noteq> p + 2 ^ k \<longrightarrow> mem s1 q = mem s q)"
      then have i1: "buddy_inv s1" and b1: "blocks s1 = insert (p + 2 ^ k, k) (blocks s)"
        and f1: "buddy_frame s s1" "pageblocks s1 = pageblocks s"
        and p1: "poisoned (mem s1) = (poisoned (mem s))(p + 2 ^ k := True)"
        and m1: "\<And>q. q \<notin> free_set s \<Longrightarrow> q \<noteq> p + 2 ^ k \<Longrightarrow> mem s1 q = mem s q" by auto
      have "returns (split_block s1 zone p order k mt) (split_post s1 p order k)"
      proof (rule Suc.IH [OF i1])
        show "block_ok s1 p k" using h(1) f1 by (simp add: block_ok_frame [OF f1])
        show "pages p k \<inter> free_set s1 = {}" using dj(2) pages_halves_disjoint by (auto simp: b1)
        show "migratetype s1 p = Some mt" using Suc.prems(4) migratetype_cong [OF f1(2)] by simp
        show "zone = zi s1 p" using Suc.prems(5) zi_frame [OF f1(1)] by simp
        show "order \<le> k" using True by simp
      qed
      then show "returns (split_block s1 zone p order k mt) (split_post s p order (Suc k))"
      proof (rule returns_mono)
        fix s' assume "split_post s1 p order k s'"
        then have r: "buddy_inv s'" "buddy_frame s1 s'" "pageblocks s' = pageblocks s1"
          "free_set s' = free_set s1 \<union> (pages p k - pages p order)" "blocks s1 \<subseteq> blocks s'"
          "\<forall>(q, n) \<in> blocks s' - blocks s1. q \<in> pages p k" "\<forall>q. poisoned (mem s1) q \<longrightarrow> poisoned (mem s') q"
          "\<forall>q. q \<notin> free_set s' \<longrightarrow> mem s' q = mem s1 q" by (auto simp: split_post_def)
        have "pages p order \<subseteq> pages p k" using True by (intro pages_mono) simp
        then have fs: "free_set s' = free_set s \<union> (pages p (Suc k) - pages p order)"
          using pages_halves_disjoint [of p k] unfolding r(4) b1 pages_halves span_of_simps by blast
        show "split_post s p order (Suc k) s'" unfolding split_post_def
        proof (intro conjI)
          show "buddy_frame s s'" using f1(1) r(2) by (rule buddy_frame_trans)
          show "\<forall>(q, n) \<in> blocks s' - blocks s. q \<in> pages p (Suc k)"
            using r(6) by (auto simp: b1 pages_halves)
          show "\<forall>q. q \<notin> free_set s' \<longrightarrow> mem s' q = mem s q"
          proof (intro allI impI)
            fix q assume q: "q \<notin> free_set s'"
            have "p + 2 ^ k \<in> pages (p + 2 ^ k) k" by simp
            then have "q \<noteq> p + 2 ^ k" "q \<notin> free_set s" using q unfolding r(4) b1 span_of_simps by blast+
            then show "mem s' q = mem s q" using m1 r(8) q by simp
          qed
        qed (use r b1 fs f1 p1 in auto)
      qed
    qed
  qed
qed

section \<open>Taking a block\<close>

definition take_post :: "pmm \<Rightarrow> nat \<Rightarrow> nat \<Rightarrow> migrate_type \<Rightarrow> nat \<Rightarrow> pmm \<Rightarrow> bool" where
  "take_post s zone order mt p s' \<longleftrightarrow> buddy_inv s' \<and> buddy_frame s s' \<and> block_ok s' p order \<and>
     zi s p = zone \<and> migratetype s' p = Some mt \<and> poisoned (mem s') p \<and> pages p order \<subseteq> free_set s \<and>
     free_set s' = free_set s - pages p order \<and>
     (\<forall>q. q \<notin> free_set s \<longrightarrow> mem s' q = mem s q \<and> migratetype s' q = migratetype s q) \<and>
     (\<forall>(q, k) \<in> blocks s' - blocks s. migratetype s' q = Some mt) \<and>
     (\<forall>(q, k) \<in> blocks s' \<inter> blocks s. migratetype s' q = migratetype s q)"

text \<open>
  Splitting a block that has just left the lists, in a state \<open>t\<close> that differs from the starting
  state \<open>s\<close> in that block only.
\<close>

lemma split_taken:
  assumes s: "buddy_inv s" "(p, cur) \<in> blocks s" "zi s p = zone"
    and t: "buddy_inv t" "buddy_frame s t" "blocks t = blocks s - {(p, cur)}"
      "poisoned (mem t) = poisoned (mem s)" "\<And>q. q \<notin> free_set s \<Longrightarrow> mem t q = mem s q"
    and ty: "\<And>q. q \<notin> pages p cur \<Longrightarrow> migratetype t q = migratetype s q" "block_ok t p cur" "migratetype t p = Some mt"
    and o: "order \<le> cur"
  shows "returns (split_block t zone p order cur mt) (take_post s zone order mt p)"
proof -
  have ft: "free_set t = free_set s - pages p cur"
    unfolding t(3) using buddy_inv_disjoint_blocks [OF s(1)] s(2) by (rule span_of_remove)
  have sub: "pages p order \<subseteq> pages p cur" "pages p cur \<subseteq> free_set s"
    using pages_mono [OF o] span_of_mem [OF s(2)] by auto
  have z: "zone = zi t p" using zi_frame [OF t(2)] s(3) by simp
  have "pages p cur \<inter> free_set t = {}" unfolding ft by blast
  from split_block_ok [OF t(1) ty(2) this ty(3) z o] show ?thesis
  proof (rule returns_mono)
    fix s' assume "split_post t p order cur s'"
    then have r: "buddy_inv s'" "buddy_frame t s'" "pageblocks s' = pageblocks t"
      "free_set s' = free_set t \<union> (pages p cur - pages p order)" "blocks t \<subseteq> blocks s'"
      "\<forall>(q, n) \<in> blocks s' - blocks t. q \<in> pages p cur" "\<forall>q. poisoned (mem t) q \<longrightarrow> poisoned (mem s') q"
      "\<forall>q. q \<notin> free_set s' \<longrightarrow> mem s' q = mem t q" by (auto simp: split_post_def)
    have mt': "migratetype s' = migratetype t" by (rule migratetype_cong [OF r(3)])
    have fs: "free_set s' = free_set s - pages p order" unfolding r(4) ft using sub by blast
    have cl: "migratetype t q = Some mt" if "q \<in> pages p cur" for q
      using ty(2,3) one_classD that by (metis block_ok_def)
    have out: "q \<notin> pages p cur" if "(q, n) \<in> blocks s" "(q, n) \<noteq> (p, cur)" for q n
      using buddy_inv_disjoint [OF s(1) that(1) s(2), of q] that(2) by auto
    show "take_post s zone order mt p s'" unfolding take_post_def
    proof (intro conjI)
      show "buddy_frame s s'" using t(2) r(2) by (rule buddy_frame_trans)
      show "block_ok s' p order"
        using block_ok_mono [OF ty(2) o] by (simp add: block_ok_frame [OF r(2,3)])
      show "\<forall>q. q \<notin> free_set s \<longrightarrow> mem s' q = mem s q \<and> migratetype s' q = migratetype s q"
      proof (intro allI impI)
        fix q assume q: "q \<notin> free_set s"
        then have "q \<notin> pages p cur" using sub(2) by blast
        then show "mem s' q = mem s q \<and> migratetype s' q = migratetype s q"
          using t(5) [OF q] r(8) ty(1) q unfolding fs mt' by simp
      qed
      show "\<forall>(q, k) \<in> blocks s' - blocks s. migratetype s' q = Some mt"
        using r(6) cl unfolding t(3) mt' by blast
      show "\<forall>(q, k) \<in> blocks s' \<inter> blocks s. migratetype s' q = migratetype s q"
        unfolding mt'
      proof (clarify)
        fix q k assume b: "(q, k) \<in> blocks s" "(q, k) \<in> blocks s'"
        show "migratetype t q = migratetype s q"
        proof (cases "(q, k) = (p, cur)")
          case True
          with b(2) have "pages p cur \<subseteq> free_set s'" using span_of_mem by blast
          then show ?thesis using sub(1) pages_self [of p order] unfolding fs by blast
        qed (use out [OF b(1)] ty(1) in blast)
      qed
    qed (use r fs sub s t ty mt' buddy_invD [OF s(1,2)] in auto)
  qed
qed

lemma take_from_order_ok:
  assumes inv: "buddy_inv s" and zone: "zone < NR_ZONES" and o: "order \<le> cur" "cur \<le> MAX_ORDER"
    and ne: "free_heads s (zone, mt, cur) \<noteq> PFN_NULL"
  shows "returns (take_from_order s zone order cur mt) (\<lambda>(s', p). take_post s zone order mt p s' \<and>
    migratetype s p = Some mt)"
  unfolding take_from_order_def
proof (rule returns_bind [OF delist_head_ok [OF inv zone o(2) ne]], clarsimp)
  fix t p
  assume b: "(p, cur) \<in> blocks s" and z: "zone = zi s p" and mt: "migratetype s p = Some mt"
    and r: "removed s p cur mt t"
  have "migratetype t = migratetype s" by (rule migratetype_cong) (use r in \<open>simp add: removed_def\<close>)
  moreover have "block_ok t p cur"
    using r buddy_invD(1) [OF inv b] by (subst block_ok_frame [of s]) (auto simp: removed_def)
  ultimately have "returns (split_block t (zi s p) p order cur mt) (take_post s (zi s p) order mt p)"
    using r mt by (intro split_taken [OF inv b _ _ _ _ _ _ _ _ _ o(1)]) (auto simp: removed_def)
  then show "returns (split_block t (zi s p) p order cur mt \<bind> (\<lambda>s. Some (s, p)))
     (\<lambda>(s', p'). take_post s (zi s p) order mt p' s' \<and> migratetype s p' = Some mt)"
    using mt by (auto simp: returns_def)
qed

section \<open>Claiming a fallback block\<close>

text \<open>A block of at least pageblock size covers whole pageblocks.\<close>

lemma last_index:
  assumes "0 < (B :: nat)" and "0 < b"
  shows "(B * a + B * b - 1) div B = a + b - 1"
proof -
  obtain c where c: "b = Suc c" using assms(2) by (cases b) auto
  have e: "B * a + B * b - 1 = (B - 1) + (a + c) * B" using assms(1) by (simp add: c algebra_simps)
  have "((B - 1) + (a + c) * B) div B = a + c + (B - 1) div B" using assms(1) by (intro div_mult_self1) simp
  then show ?thesis unfolding e using assms(1) by (simp add: c)
qed

lemma pages_pageblocks:
  assumes "PAGEBLOCK_ORDER \<le> cur" and "2 ^ cur dvd p"
  shows "q \<in> pages p cur \<longleftrightarrow> p div 2 ^ PAGEBLOCK_ORDER \<le> q div 2 ^ PAGEBLOCK_ORDER \<and>
     q div 2 ^ PAGEBLOCK_ORDER \<le> (p + 2 ^ cur - 1) div 2 ^ PAGEBLOCK_ORDER"
proof -
  let ?B = "2 ^ PAGEBLOCK_ORDER :: nat"
  define b where "b = (2 :: nat) ^ (cur - PAGEBLOCK_ORDER)"
  have c: "2 ^ cur = ?B * b" using assms(1) by (simp add: b_def flip: power_add)
  obtain a where p: "p = ?B * a" using assms(2) unfolding c by (metis dvd_def dvd_mult_left)
  have b: "0 < b" by (simp add: b_def)
  have last: "(p + 2 ^ cur - 1) div ?B = a + b - 1"
    using b unfolding p c by (intro last_index) simp_all
  have "q div ?B \<le> a + b - 1 \<longleftrightarrow> q div ?B < a + b" using b by linarith
  also have "\<dots> \<longleftrightarrow> q < ?B * (a + b)" by (simp add: div_less_iff_less_mult mult.commute)
  finally have "q div ?B \<le> a + b - 1 \<longleftrightarrow> q < p + 2 ^ cur" unfolding p c by (simp add: distrib_left)
  moreover have "a \<le> q div ?B \<longleftrightarrow> p \<le> q" by (simp add: p less_eq_div_iff_mult_less_eq mult.commute)
  ultimately show ?thesis unfolding last by (simp add: pages_def p)
qed

lemma retype_inv:
  assumes inv: "buddy_inv s" and dj: "A \<inter> free_set s = {}"
    and ty: "\<And>q. q \<notin> A \<Longrightarrow> pb_get pb q = migratetype s q" and len: "length pb = length (pageblocks s)"
  shows "buddy_inv (s\<lparr>pageblocks := pb\<rparr>)"
proof -
  let ?t = "s\<lparr>pageblocks := pb\<rparr>"
  have same: "migratetype ?t q = migratetype s q" if "q \<in> free_set s" for q
    using that dj ty by (auto simp: migratetype_def)
  have head: "p \<in> free_set s" if "(p, n) \<in> blocks s" for p n
    using that by (rule span_of_mem) simp
  show ?thesis unfolding buddy_inv_def
  proof (intro conjI)
    show "shape_ok ?t" using buddy_inv_shape [OF inv] len by (simp add: shape_ok_def)
    show "\<forall>(p, n) \<in> blocks ?t. block_ok ?t p n \<and> poisoned (mem ?t) p \<and> order_of (mem ?t) p = n"
    proof (clarsimp)
      fix p n assume b: "(p, n) \<in> blocks s"
      have "one_class s (pages p n) p" using buddy_invD(1) [OF inv b] by (simp add: block_ok_def)
      then have "one_class ?t (pages p n) p"
        using same [OF head [OF b]] same [OF span_of_mem [OF b]] unfolding one_class_def zi_update by metis
      then show "block_ok ?t p n \<and> poisoned (mem s) p \<and> order_of (mem s) p = n"
        using buddy_invD [OF inv b] by (simp add: block_ok_def)
    qed
    show "disjoint_blocks (blocks ?t)" using buddy_inv_disjoint_blocks [OF inv] by simp
    have "list_ok ?t k xs" if "list_ok s k xs" for k xs
      using that same head unfolding list_ok_def by (auto split: prod.splits)
    then show "\<forall>z<NR_ZONES. \<forall>t. \<forall>n\<le>MAX_ORDER. \<exists>xs. list_ok ?t (z, t, n) xs"
      using inv unfolding buddy_inv_def by blast
  qed
qed

lemma shape_pageblocks: "shape_ok s \<Longrightarrow> pfn_max s \<le> 32 * length (pageblocks s) * 2 ^ PAGEBLOCK_ORDER"
  by (auto simp: shape_ok_def pb_words_for_def PAGEBLOCK_ORDER_def TYPES_PER_WORD_def saturating_add_def
      Let_def U64_MAX_def MAX_ORDER_def)

lemma claim_block:
  assumes inv: "buddy_inv s" and b: "(p, cur) \<in> blocks s" "zi s p = zone" and mt: "migratetype s p = Some fallback"
    and r: "removed s p cur fallback t" and o: "order \<le> cur" "PAGEBLOCK_ORDER \<le> cur"
  shows "returns (do {
      pb \<leftarrow> pb_set_range (pageblocks t) p (p + 2 ^ cur) requested;
      s' \<leftarrow> split_block (t\<lparr>pageblocks := pb\<rparr>) zone p order cur requested;
      Some (s', Some p)
    }) (\<lambda>(s', r). r = Some p \<and> take_post s zone order requested p s')"
proof -
  have t: "buddy_inv t" "buddy_frame s t" "pageblocks t = pageblocks s" "blocks t = blocks s - {(p, cur)}"
    "poisoned (mem t) = poisoned (mem s)" "\<And>q. q \<notin> free_set s \<Longrightarrow> mem t q = mem s q"
    using r by (auto simp: removed_def)
  note ok = buddy_invD(1) [OF inv b(1)]
  have d: "2 ^ cur dvd p" "p + 2 ^ cur \<le> pfn_max s" using ok by (auto simp: block_ok_def)
  have lim: "p + 2 ^ cur \<le> 32 * length (pageblocks t) * 2 ^ PAGEBLOCK_ORDER"
    using d(2) shape_pageblocks [OF buddy_inv_shape [OF inv]] t(3) by simp
  show ?thesis
  proof (rule returns_bind [OF pb_set_range_returns [OF lim]])
    fix pb
    assume pb0: "length pb = length (pageblocks t) \<and> (\<forall>pfn. pb_get pb pfn =
       (if p < p + 2 ^ cur \<and> p div 2 ^ PAGEBLOCK_ORDER \<le> pfn div 2 ^ PAGEBLOCK_ORDER \<and>
           pfn div 2 ^ PAGEBLOCK_ORDER \<le> (p + 2 ^ cur - 1) div 2 ^ PAGEBLOCK_ORDER
        then Some requested else pb_get (pageblocks t) pfn))"
    have pb: "pb_get pb q = (if q \<in> pages p cur then Some requested else pb_get (pageblocks t) q)" for q
      using pb0 pages_pageblocks [OF o(2) d(1), of q] by simp
    let ?u = "t\<lparr>pageblocks := pb\<rparr>"
    have ft: "free_set t = free_set s - pages p cur"
      unfolding t(4) using buddy_inv_disjoint_blocks [OF inv] b(1) by (rule span_of_remove)
    have iu: "buddy_inv ?u"
      by (rule retype_inv [OF t(1), of "pages p cur"]) (use ft pb pb0 in \<open>auto simp: migratetype_def\<close>)
    have oc: "one_class s (pages p cur) p" using ok by (simp add: block_ok_def)
    have zu: "zi ?u = zi s" using zi_frame [OF t(2)] by simp
    have ty: "migratetype ?u q = (if q \<in> pages p cur then Some requested else migratetype s q)" for q
      using pb t(3) by (simp add: migratetype_def)
    have "one_class ?u (pages p cur) p" unfolding one_class_def
    proof (intro ballI)
      fix q assume q: "q \<in> pages p cur"
      show "zi ?u q = zi ?u p \<and> migratetype ?u q = migratetype ?u p"
        using one_classD [OF oc q] q by (simp only: zu ty pages_self if_True simp_thms)
    qed
    then have "block_ok ?u p cur" using ok buddy_frameD(1) [OF t(2)] by (simp add: block_ok_def)
    then have "returns (split_block ?u zone p order cur requested) (take_post s zone order requested p)"
      by (intro split_taken [OF inv b iu _ _ _ _ _ _ _ o(1)]) (use t ty in \<open>auto simp: buddy_frame_def\<close>)
    then show "returns (split_block ?u zone p order cur requested \<bind> (\<lambda>s'. Some (s', Some p)))
      (\<lambda>(s', r). r = Some p \<and> take_post s zone order requested p s')" by (auto simp: returns_def)
  qed
qed

definition claim_post :: "pmm \<Rightarrow> nat \<Rightarrow> nat \<Rightarrow> migrate_type \<Rightarrow> pmm \<times> nat option \<Rightarrow> bool" where
  "claim_post s zone order mt sr \<longleftrightarrow> (case snd sr of None \<Rightarrow> fst sr = s | Some p \<Rightarrow> take_post s zone order mt p (fst sr))"

lemma claim_orders_ok:
  assumes "buddy_inv s" and "zone < NR_ZONES"
    and "\<forall>c \<in> set orders. order \<le> c \<and> PAGEBLOCK_ORDER \<le> c \<and> c \<le> MAX_ORDER"
  shows "returns (claim_orders s zone order requested fallback orders) (\<lambda>sr. claim_post s zone order requested sr \<and>
     (snd sr = None \<longrightarrow> (\<forall>c \<in> set orders. free_heads s (zone, fallback, c) = PFN_NULL)))"
  using assms(3)
proof (induction orders)
  case Nil
  then show ?case by (simp add: claim_post_def)
next
  case (Cons c orders)
  show ?case
  proof (cases "free_heads s (zone, fallback, c) = PFN_NULL")
    case True
    then show ?thesis using Cons by (auto elim!: returns_mono)
  next
    case False
    have c: "order \<le> c" "PAGEBLOCK_ORDER \<le> c" "c \<le> MAX_ORDER" using Cons.prems by auto
    show ?thesis unfolding claim_orders.simps if_not_P [OF False]
    proof (rule returns_bind [OF delist_head_ok [OF assms(1,2) c(3) False]], clarify)
      fix t p
      assume "(p, c) \<in> blocks s" "zone = zi s p" "migratetype s p = Some fallback" "removed s p c fallback t"
      from claim_block [OF assms(1) this(1) refl this(3,4) c(1,2), of requested]
      show "returns (do {
          pb \<leftarrow> pb_set_range (pageblocks t) p (p + 2 ^ c) requested;
          s' \<leftarrow> split_block (t\<lparr>pageblocks := pb\<rparr>) (zi s p) p order c requested;
          Some (s', Some p)
        }) (\<lambda>sr. claim_post s (zi s p) order requested sr \<and>
          (snd sr = None \<longrightarrow> (\<forall>c' \<in> set (c # orders). free_heads s (zi s p, fallback, c') = PFN_NULL)))"
        by (rule returns_mono) (auto simp: claim_post_def)
    qed
  qed
qed

section \<open>Taking a block of any class\<close>

text \<open>Only the requested class has free fragments smaller than a pageblock.\<close>

definition no_foreign :: "pmm \<Rightarrow> nat \<Rightarrow> migrate_type \<Rightarrow> bool" where
  "no_foreign s zone mt \<longleftrightarrow>
     (\<forall>(p, order) \<in> blocks s. zi s p = zone \<longrightarrow> order < PAGEBLOCK_ORDER \<longrightarrow> migratetype s p = Some mt)"

definition take_block_post :: "pmm \<Rightarrow> nat \<Rightarrow> nat \<Rightarrow> migrate_type \<Rightarrow> pmm \<times> nat option \<Rightarrow> bool" where
  "take_block_post s zone order requested sr \<longleftrightarrow> (case snd sr of
     None \<Rightarrow> fst sr = s \<and> (\<forall>(p, k) \<in> blocks s. zi s p = zone \<longrightarrow> k < order)
   | Some p \<Rightarrow> (\<exists>mt. take_post s zone order mt p (fst sr) \<and> (no_foreign s zone requested \<longrightarrow> mt = requested)))"

lemma find_Some_mem: "List.find P xs = Some x \<Longrightarrow> P x \<and> x \<in> set xs"
  by (induction xs) (auto split: if_splits)

lemma first_order_Some:
  "first_order s zone order mt = Some c \<Longrightarrow> order \<le> c \<and> c \<le> MAX_ORDER \<and> free_heads s (zone, mt, c) \<noteq> PFN_NULL"
  unfolding first_order_def by (drule find_Some_mem) auto

lemma first_order_None:
  "first_order s zone order mt = None \<longleftrightarrow> (\<forall>c. order \<le> c \<longrightarrow> c \<le> MAX_ORDER \<longrightarrow> free_heads s (zone, mt, c) = PFN_NULL)"
  unfolding first_order_def find_None_iff by auto

lemma head_block:
  assumes "buddy_inv s" and "zone < NR_ZONES" and "c \<le> MAX_ORDER" and "free_heads s (zone, mt, c) \<noteq> PFN_NULL"
  shows "\<exists>p. (p, c) \<in> blocks s \<and> zi s p = zone \<and> migratetype s p = Some mt"
proof -
  obtain xs where xs: "list_ok s (zone, mt, c) xs" using buddy_inv_list [OF assms(1-3)] by metis
  then have "hd xs \<in> set xs" using list_head [OF assms(1) xs] assms(4) by (cases xs) auto
  then show ?thesis using list_member_pfn [OF assms(1) xs] by blast
qed

lemma block_on_list:
  assumes "buddy_inv s" and "(p, c) \<in> blocks s"
  shows "\<exists>mt. free_heads s (zi s p, mt, c) \<noteq> PFN_NULL"
proof -
  have "p < pfn_max s" "c \<le> MAX_ORDER" using buddy_invD(1) [OF assms] block_ok_less by (auto simp: block_ok_def)
  then obtain mt where mt: "migratetype s p = Some mt"
    using migratetype_defined buddy_inv_shape [OF assms(1)] by blast
  obtain xs where xs: "list_ok s (zi s p, mt, c) xs"
    using buddy_inv_list [OF assms(1) zi_less \<open>c \<le> MAX_ORDER\<close>] by metis
  then have "p \<in> set xs" using assms(2) mt by (auto simp: list_ok_def)
  then have "free_heads s (zi s p, mt, c) \<in> set xs" using list_head [OF assms(1) xs] by (cases xs) auto
  then have "free_heads s (zi s p, mt, c) < PFN_NULL" by (rule list_member_pfn(5) [OF assms(1) xs])
  then show ?thesis using less_irrefl by metis
qed

lemma claim_loop_ok:
  assumes "buddy_inv s" and "zone < NR_ZONES"
  shows "returns (claim_loop s zone order requested fbs) (\<lambda>sr. claim_post s zone order requested sr \<and>
     (snd sr = None \<longrightarrow> (\<forall>fb \<in> set fbs. \<forall>c. order \<le> c \<longrightarrow> PAGEBLOCK_ORDER \<le> c \<longrightarrow> c \<le> MAX_ORDER \<longrightarrow>
        free_heads s (zone, fb, c) = PFN_NULL)))"
proof (induction fbs)
  case Nil
  then show ?case by (simp add: claim_post_def)
next
  case (Cons fb fbs)
  have "returns (claim_fallback s zone order requested fb) (\<lambda>sr. claim_post s zone order requested sr \<and>
     (snd sr = None \<longrightarrow> (\<forall>c \<in> set (rev [max order PAGEBLOCK_ORDER..<Suc MAX_ORDER]). free_heads s (zone, fb, c) = PFN_NULL)))"
    unfolding claim_fallback_def by (intro claim_orders_ok assms) (auto simp: less_Suc_eq_le)
  then show ?case unfolding claim_loop.simps
  proof (rule returns_bind, clarify)
    fix t r
    assume r: "claim_post s zone order requested (t, r)"
      "snd (t, r) = None \<longrightarrow> (\<forall>c \<in> set (rev [max order PAGEBLOCK_ORDER..<Suc MAX_ORDER]). free_heads s (zone, fb, c) = PFN_NULL)"
    show "returns (case r of None \<Rightarrow> claim_loop t zone order requested fbs | Some pfn \<Rightarrow> Some (t, Some pfn))
      (\<lambda>sr. claim_post s zone order requested sr \<and> (snd sr = None \<longrightarrow> (\<forall>f \<in> set (fb # fbs). \<forall>c. order \<le> c \<longrightarrow>
        PAGEBLOCK_ORDER \<le> c \<longrightarrow> c \<le> MAX_ORDER \<longrightarrow> free_heads s (zone, f, c) = PFN_NULL)))"
    proof (cases r)
      case None
      then have "t = s" "\<forall>c. order \<le> c \<longrightarrow> PAGEBLOCK_ORDER \<le> c \<longrightarrow> c \<le> MAX_ORDER \<longrightarrow> free_heads s (zone, fb, c) = PFN_NULL"
        using r by (auto simp: claim_post_def less_Suc_eq_le)
      then show ?thesis using None Cons.IH by (auto elim!: returns_mono)
    next
      case (Some p)
      then show ?thesis using r by (simp add: claim_post_def)
    qed
  qed
qed

lemma steal_loop_ok:
  assumes inv: "buddy_inv s" and zone: "zone < NR_ZONES"
    and small: "\<forall>fb \<in> set fbs. \<forall>c. order \<le> c \<longrightarrow> PAGEBLOCK_ORDER \<le> c \<longrightarrow> c \<le> MAX_ORDER \<longrightarrow> free_heads s (zone, fb, c) = PFN_NULL"
    and other: "requested \<notin> set fbs"
  shows "returns (steal_loop s zone order fbs) (\<lambda>sr. (case snd sr of
      None \<Rightarrow> fst sr = s \<and> (\<forall>fb \<in> set fbs. first_order s zone order fb = None)
    | Some p \<Rightarrow> (\<exists>mt. take_post s zone order mt p (fst sr)) \<and> \<not> no_foreign s zone requested))"
  using small other
proof (induction fbs)
  case Nil
  then show ?case by simp
next
  case (Cons fb fbs)
  show ?case
  proof (cases "first_order s zone order fb")
    case None
    then show ?thesis using Cons by (auto elim!: returns_mono split: option.splits)
  next
    case (Some c)
    note c = first_order_Some [OF Some]
    have "c < PAGEBLOCK_ORDER" using c Cons.prems(1) by (meson list.set_intros(1) not_less)
    moreover obtain q where "(q, c) \<in> blocks s" "zi s q = zone" "migratetype s q = Some fb"
      using head_block [OF inv zone] c by blast
    ultimately have "\<not> no_foreign s zone requested" using Cons.prems(2) by (force simp: no_foreign_def)
    then show ?thesis using take_from_order_ok [OF inv zone, of order c fb] c Some
      by (auto simp: returns_def)
  qed
qed

lemma fallbacks_all: "mt \<noteq> requested \<Longrightarrow> mt \<in> set (fallbacks requested)" "requested \<notin> set (fallbacks requested)"
  by (cases mt; cases requested; simp)+

lemma take_block_ok:
  assumes inv: "buddy_inv s" and zone: "zone < NR_ZONES"
  shows "returns (take_block s zone order requested) (take_block_post s zone order requested)"
proof (cases "first_order s zone order requested")
  case (Some c)
  then show ?thesis using take_from_order_ok [OF inv zone, of order c requested] first_order_Some [OF Some]
    by (auto simp: take_block_def take_block_post_def returns_def)
next
  case None
  show ?thesis unfolding take_block_def None option.case
  proof (rule returns_bind [OF claim_loop_ok [OF inv zone]], clarify)
    fix t r
    assume c: "claim_post s zone order requested (t, r)"
      and n: "snd (t, r) = None \<longrightarrow> (\<forall>fb \<in> set (fallbacks requested). \<forall>c. order \<le> c \<longrightarrow> PAGEBLOCK_ORDER \<le> c \<longrightarrow>
         c \<le> MAX_ORDER \<longrightarrow> free_heads s (zone, fb, c) = PFN_NULL)"
    show "returns (case r of None \<Rightarrow> steal_loop t zone order (fallbacks requested) | Some pfn \<Rightarrow> Some (t, Some pfn))
      (take_block_post s zone order requested)"
    proof (cases r)
      case (Some p)
      then show ?thesis using c by (auto simp: claim_post_def take_block_post_def)
    next
      case r: None
      then have t: "t = s" using c by (simp add: claim_post_def)
      have "\<forall>(p, k) \<in> blocks s. zi s p = zone \<longrightarrow> k < order"
        if all: "\<forall>fb \<in> set (fallbacks requested). first_order s zone order fb = None"
      proof (clarify, rule ccontr)
        fix p k assume b: "(p, k) \<in> blocks s" "zone = zi s p" "\<not> k < order"
        obtain mt where mt: "free_heads s (zone, mt, k) \<noteq> PFN_NULL" using block_on_list [OF inv b(1)] b(2) by blast
        have "first_order s zone order mt = None" using all None fallbacks_all(1) by (cases "mt = requested") auto
        moreover have "k \<le> MAX_ORDER" using buddy_invD(1) [OF inv b(1)] by (simp add: block_ok_def)
        ultimately show False using mt b(3) unfolding first_order_None by simp
      qed
      moreover have "returns (steal_loop s zone order (fallbacks requested)) (\<lambda>sr. (case snd sr of
          None \<Rightarrow> fst sr = s \<and> (\<forall>fb \<in> set (fallbacks requested). first_order s zone order fb = None)
        | Some p \<Rightarrow> (\<exists>mt. take_post s zone order mt p (fst sr)) \<and> \<not> no_foreign s zone requested))"
        using n r by (intro steal_loop_ok [OF inv zone _ fallbacks_all(2)]) simp
      ultimately show ?thesis unfolding t r option.case
        by (elim returns_mono) (auto simp: take_block_post_def split: option.splits)
    qed
  qed
qed

end
