(* ===== verification/Buddy_Free.thy ===== *)
theory Buddy_Free
  imports Buddy_Ops
begin

text \<open>
  Coalescing on free (\<open>return_to_buddy\<close>), seeding, and the totals: the counters of a zone equal
  the number of its free pages.
\<close>

unbundle bit_operations_syntax

section \<open>The buddy of a block\<close>

lemma buddy_xor:
  assumes "2 ^ k dvd (p :: nat)"
  shows "p XOR 2 ^ k = (if even (p div 2 ^ k) then p + 2 ^ k else p - 2 ^ k)"
proof -
  obtain j where p: "p = 2 ^ k * j" using assms by (rule dvdE)
  have "p XOR 2 ^ k = push_bit k j XOR push_bit k 1" by (simp add: p push_bit_eq_mult mult.commute)
  also have "\<dots> = push_bit k (j XOR 1)" by simp
  also have "j XOR 1 = (if even j then j + 1 else j - 1)" by (simp add: xor_Suc_0_eq)
  finally show ?thesis by (simp add: p push_bit_eq_mult mult.commute [of j] diff_mult_distrib)
qed

text \<open>A block and its buddy are the two halves of the block one order up.\<close>

lemma buddy_merge:
  assumes "2 ^ k dvd (p :: nat)" and "b = p XOR 2 ^ k" and "p' = (if b < p then b else p)"
  shows "2 ^ Suc k dvd p'" and "pages p' (Suc k) = pages p k \<union> pages b k" and "2 ^ k dvd b"
    and "p' + 2 ^ Suc k = max p b + 2 ^ k"
proof -
  obtain j where p: "p = 2 ^ k * j" using assms(1) by (rule dvdE)
  have d: "p div 2 ^ k = j" by (simp add: p)
  have "2 ^ Suc k dvd p' \<and> pages p' (Suc k) = pages p k \<union> pages b k \<and> 2 ^ k dvd b \<and> p' + 2 ^ Suc k = max p b + 2 ^ k"
  proof (cases "even j")
    case True
    then have b: "b = p + 2 ^ k" and p': "p' = p" using assms(2,3) buddy_xor [OF assms(1)] d by simp_all
    have "2 ^ Suc k dvd p" using True by (auto simp: p elim!: evenE)
    then show ?thesis using assms(1) by (auto simp: b p' pages_halves)
  next
    case False
    then obtain i where j: "j = 2 * i + 1" by (rule oddE)
    have b: "b = 2 ^ k * (2 * i)" using assms(2) buddy_xor [OF assms(1)] d False by (simp add: p j)
    then have p': "p' = b" "p = b + 2 ^ k" using assms(3) by (simp_all add: p j)
    show ?thesis using pages_halves [of b k] by (auto simp: p' b)
  qed
  then show "2 ^ Suc k dvd p'" "pages p' (Suc k) = pages p k \<union> pages b k" "2 ^ k dvd b"
    "p' + 2 ^ Suc k = max p b + 2 ^ k" by simp_all
qed

section \<open>Coalescing\<close>

definition coalesce_post :: "pmm \<Rightarrow> nat \<Rightarrow> nat \<Rightarrow> pmm \<times> nat \<times> nat \<Rightarrow> bool" where
  "coalesce_post s p order r \<longleftrightarrow> (case r of (s', p', order') \<Rightarrow> buddy_inv s' \<and> buddy_frame s s' \<and>
     pageblocks s' = pageblocks s \<and> block_ok s p' order' \<and> pages p' order' \<inter> free_set s' = {} \<and>
     free_set s' \<union> pages p' order' = free_set s \<union> pages p order \<and> pages p order \<subseteq> pages p' order' \<and>
     (\<forall>q. q \<notin> free_set s \<longrightarrow> mem s' q = mem s q) \<and> zi s p' = zi s p \<and> migratetype s p' = migratetype s p)"

lemma merge_block_ok:
  assumes p: "block_ok s p k" and b: "block_ok s b k" and buddy: "b = p XOR 2 ^ k"
    and cl: "zi s b = zi s p" "migratetype s b = migratetype s p" and k: "Suc k \<le> MAX_ORDER"
  shows "block_ok s (if b < p then b else p) (Suc k)"
proof -
  let ?p' = "if b < p then b else p"
  have d: "2 ^ k dvd p" "p + 2 ^ k \<le> pfn_max s" "b + 2 ^ k \<le> pfn_max s" using p b by (auto simp: block_ok_def)
  note m = buddy_merge [OF d(1) buddy refl]
  have pc: "zi s ?p' = zi s p \<and> migratetype s ?p' = migratetype s p" using cl by simp
  have ocp: "one_class s (pages p k) p" and ocb: "one_class s (pages b k) b"
    using p b by (simp_all add: block_ok_def)
  have "one_class s (pages ?p' (Suc k)) ?p'" unfolding one_class_def
  proof (intro ballI)
    fix q assume "q \<in> pages ?p' (Suc k)"
    then have "q \<in> pages p k \<or> q \<in> pages b k" by (simp add: m(2))
    then show "zi s q = zi s ?p' \<and> migratetype s q = migratetype s ?p'"
      using one_classD [OF ocp, of q] one_classD [OF ocb, of q] pc cl by metis
  qed
  then show ?thesis using m d k unfolding block_ok_def by simp
qed

lemma coalesce_ok:
  "buddy_inv s \<Longrightarrow> block_ok s p order \<Longrightarrow> pages p order \<inter> free_set s = {} \<Longrightarrow> migratetype s p = Some mt \<Longrightarrow>
   zone = zi s p \<Longrightarrow> returns (coalesce s zone mt p order) (coalesce_post s p order)"
proof (induction "MAX_ORDER - order" arbitrary: s p order)
  case 0
  have "order \<le> MAX_ORDER" using "0.prems"(2) by (simp add: block_ok_def)
  then show ?case using 0 by (subst coalesce.simps) (simp add: coalesce_post_def)
next
  case (Suc n)
  let ?b = "p XOR 2 ^ order"
  let ?p' = "if ?b < p then ?b else p"
  have stop: "returns (Some (s, p, order)) (coalesce_post s p order)"
    using Suc.prems by (simp add: coalesce_post_def)
  have lt: "order < MAX_ORDER" using Suc.hyps by simp
  show ?case
  proof (cases "?b + 2 ^ order > pfn_max s \<or> zi s ?b \<noteq> zone")
    case True
    then show ?thesis using stop lt by (subst coalesce.simps) (auto simp: Let_def)
  next
    case False
    have sh: "shape_ok s" using Suc.prems(1) by (rule buddy_inv_shape)
    have bm: "?b < pfn_max s" using False less_le_trans [of ?b "?b + 2 ^ order"] by simp
    then obtain t where t: "migratetype s ?b = Some t" using migratetype_defined [OF sh] by blast
    have d: "2 ^ order dvd p" using Suc.prems(2) by (simp add: block_ok_def)
    have "?b div 2 ^ order < 64 * length (bitmaps s order)" using sh bm lt by (simp add: shape_ok_def)
    then obtain v where v: "bitmap_get s order (?b div 2 ^ order) = Some v"
      unfolding bitmap_get_def using bm.get_defined by blast
    show ?thesis
    proof (cases "t = mt \<and> v")
      case stopped: False
      then show ?thesis using stop False lt t v by (subst coalesce.simps) (auto simp: Let_def)
    next
      case True
      have "2 ^ order dvd ?b" by (rule buddy_merge(3) [OF d refl refl])
      then have b: "(?b, order) \<in> blocks s"
        using v True lt by (simp add: blocks_of_mem bitmap_get_def bm_bits_def)
      have cl: "zi s ?b = zi s p" "migratetype s ?b = migratetype s p" using False t True Suc.prems by auto
      have step: "coalesce s zone mt p order = delist s zone ?b order mt \<bind> (\<lambda>s. coalesce s zone mt ?p' (order + 1))"
        using False t v True lt by (subst coalesce.simps) (simp add: Let_def)
      have dl: "returns (delist s zone ?b order mt) (removed s ?b order mt)"
        using False t True by (intro delist_ok [OF Suc.prems(1) b]) auto
      show ?thesis unfolding step
      proof (rule returns_bind [OF dl])
        fix u assume "removed s ?b order mt u"
        then have u: "buddy_inv u" "blocks u = blocks s - {(?b, order)}" "buddy_frame s u" "pageblocks u = pageblocks s"
          "\<forall>q. q \<notin> free_set s \<longrightarrow> mem u q = mem s q" by (auto simp: removed_def)
        have fu: "free_set u = free_set s - pages ?b order"
          unfolding u(2) using buddy_inv_disjoint_blocks [OF Suc.prems(1)] b by (rule span_of_remove)
        have sub: "pages ?b order \<subseteq> free_set s" using span_of_mem [OF b] by blast
        note m = buddy_merge [OF d refl refl]
        have same: "zi u = zi s" "migratetype u = migratetype s" "block_ok u = block_ok s"
          using zi_frame [OF u(3)] migratetype_cong [OF u(4)] block_ok_frame [OF u(3,4)] by auto
        have ok': "block_ok s ?p' (Suc order)"
          using lt by (intro merge_block_ok [OF Suc.prems(2) buddy_invD(1) [OF Suc.prems(1) b] refl cl]) simp
        have "returns (coalesce u zone mt ?p' (Suc order)) (coalesce_post u ?p' (Suc order))"
          by (rule Suc.hyps(1) [of "Suc order"])
            (use Suc.hyps(2) u(1) ok' m(2) Suc.prems(3,4,5) fu cl in \<open>auto simp: same\<close>)
        then show "returns (coalesce u zone mt ?p' (order + 1)) (coalesce_post s p order)"
          unfolding Suc_eq_plus1 [symmetric]
        proof (rule returns_mono, clarify)
          fix s' q k assume "coalesce_post u ?p' (Suc order) (s', q, k)"
          then have r: "buddy_inv s'" "buddy_frame u s'" "pageblocks s' = pageblocks u" "block_ok u q k"
            "pages q k \<inter> free_set s' = {}" "free_set s' \<union> pages q k = free_set u \<union> pages ?p' (Suc order)"
            "pages ?p' (Suc order) \<subseteq> pages q k" "\<forall>x. x \<notin> free_set u \<longrightarrow> mem s' x = mem u x"
            "zi u q = zi u ?p'" "migratetype u q = migratetype u ?p'"
            by (auto simp: coalesce_post_def)
          have "free_set s' \<union> pages q k = free_set s \<union> pages p order"
            unfolding r(6) fu m(2) using sub by blast
          moreover have "pages p order \<subseteq> pages q k" using r(7) m(2) by blast
          moreover have "\<forall>x. x \<notin> free_set s \<longrightarrow> mem s' x = mem s x" using r(8) u(5) fu by simp
          ultimately show "coalesce_post s p order (s', q, k)"
            using r u cl buddy_frame_trans [OF u(3) r(2)] unfolding coalesce_post_def prod.case same by auto
        qed
      qed
    qed
  qed
qed

lemma return_to_buddy_ok:
  assumes inv: "buddy_inv s" and ok: "block_ok s p order" and dj: "pages p order \<inter> free_set s = {}"
  shows "returns (return_to_buddy s p order) (\<lambda>s'. buddy_inv s' \<and> buddy_frame s s' \<and> pageblocks s' = pageblocks s \<and>
    free_set s' = free_set s \<union> pages p order \<and> (\<forall>q. q \<notin> free_set s' \<longrightarrow> mem s' q = mem s q))"
proof -
  obtain mt where mt: "migratetype s p = Some mt"
    using migratetype_defined [OF buddy_inv_shape [OF inv] block_ok_less [OF ok]] by blast
  show ?thesis unfolding return_to_buddy_def Let_def mt Option.bind.bind_lunit
  proof (rule returns_bind [OF coalesce_ok [OF inv ok dj mt refl]], clarify)
    fix t q k assume "coalesce_post s p order (t, q, k)"
    then have r: "buddy_inv t" "buddy_frame s t" "pageblocks t = pageblocks s" "block_ok s q k"
      "pages q k \<inter> free_set t = {}" "free_set t \<union> pages q k = free_set s \<union> pages p order"
      "\<forall>x. x \<notin> free_set s \<longrightarrow> mem t x = mem s x" "zi s q = zi s p" "migratetype s q = migratetype s p"
      by (auto simp: coalesce_post_def)
    have "returns (enlist t (zi s p) q k mt) (\<lambda>s'. buddy_inv s' \<and> blocks s' = insert (q, k) (blocks t) \<and>
      buddy_frame t s' \<and> pageblocks s' = pageblocks t \<and>
      free_count s' = (free_count t)((zi s p, mt, k) := free_count t (zi s p, mt, k) + 1) \<and>
      poisoned (mem s') = (poisoned (mem t))(q := True) \<and>
      (\<forall>x. x \<notin> free_set t \<longrightarrow> x \<noteq> q \<longrightarrow> mem s' x = mem t x))"
      using r mt by (intro enlist_ok)
        (simp_all add: block_ok_frame [OF r(2,3)] migratetype_cong [OF r(3)] zi_frame [OF r(2)])
    then show "returns (enlist t (zi s p) q k mt) (\<lambda>s'. buddy_inv s' \<and> buddy_frame s s' \<and> pageblocks s' = pageblocks s \<and>
      free_set s' = free_set s \<union> pages p order \<and> (\<forall>x. x \<notin> free_set s' \<longrightarrow> mem s' x = mem s x))"
    proof (rule returns_mono, elim conjE, intro conjI)
      fix s' assume e: "blocks s' = insert (q, k) (blocks t)" "buddy_frame t s'" "pageblocks s' = pageblocks t"
        and m: "\<forall>x. x \<notin> free_set t \<longrightarrow> x \<noteq> q \<longrightarrow> mem s' x = mem t x"
      show "buddy_frame s s'" using r(2) e(2) by (rule buddy_frame_trans)
      show fs: "free_set s' = free_set s \<union> pages p order" using r(6) by (simp add: e(1) Un_commute)
      show "\<forall>x. x \<notin> free_set s' \<longrightarrow> mem s' x = mem s x"
        using m r(6,7) pages_self [of q k] unfolding fs by (metis UnCI)
    qed (use r in auto)
  qed
qed

section \<open>Fields outside the buddy\<close>

lemma buddy_inv_cong:
  assumes "mem s' = mem s" "bitmaps s' = bitmaps s" "pageblocks s' = pageblocks s" "free_heads s' = free_heads s"
    "free_count s' = free_count s" "pfn_max s' = pfn_max s" "layout s' = layout s"
  shows "buddy_inv s' \<longleftrightarrow> buddy_inv s"
  unfolding buddy_inv_def list_ok_def shape_ok_def block_ok_cong [OF assms(6,7,3)] zi_cong [OF assms(7)]
    migratetype_cong [OF assms(3)] by (simp add: assms)

lemma buddy_inv_update [simp]:
  "buddy_inv (s\<lparr>managed := v0\<rparr>) = buddy_inv s"
  "buddy_inv (s\<lparr>present := v1\<rparr>) = buddy_inv s"
  "buddy_inv (s\<lparr>spanned := v2\<rparr>) = buddy_inv s"
  "buddy_inv (s\<lparr>reserve := v3\<rparr>) = buddy_inv s"
  "buddy_inv (s\<lparr>wmark := v4\<rparr>) = buddy_inv s"
  "buddy_inv (s\<lparr>tunables := v5\<rparr>) = buddy_inv s"
  "buddy_inv (s\<lparr>allocated := v6\<rparr>) = buddy_inv s"
  "buddy_inv (s\<lparr>reserved := v7\<rparr>) = buddy_inv s"
  "buddy_inv (s\<lparr>initial_free := v8\<rparr>) = buddy_inv s"
  "buddy_inv (s\<lparr>alloc_events := v9\<rparr>) = buddy_inv s"
  "buddy_inv (s\<lparr>alloc_event_pages := v10\<rparr>) = buddy_inv s"
  "buddy_inv (s\<lparr>free_events := v11\<rparr>) = buddy_inv s"
  "buddy_inv (s\<lparr>free_event_pages := v12\<rparr>) = buddy_inv s"
  "buddy_inv (s\<lparr>pcp_bitmap := v13\<rparr>) = buddy_inv s"
  "buddy_inv (s\<lparr>hibernate_forbidden := v14\<rparr>) = buddy_inv s"
  "buddy_inv (s\<lparr>pcp := v15\<rparr>) = buddy_inv s"
  "buddy_inv (s\<lparr>zone_free := v16\<rparr>) = buddy_inv s"
  "buddy_inv (s\<lparr>pcp_free := v17\<rparr>) = buddy_inv s"
  "buddy_inv (s\<lparr>pcp_zone := v18\<rparr>) = buddy_inv s"
  "buddy_inv (s\<lparr>pcp_alloc_events := v19\<rparr>) = buddy_inv s"
  "buddy_inv (s\<lparr>pcp_alloc_event_pages := v20\<rparr>) = buddy_inv s"
  "buddy_inv (s\<lparr>pcp_free_events := v21\<rparr>) = buddy_inv s"
  "buddy_inv (s\<lparr>pcp_free_event_pages := v22\<rparr>) = buddy_inv s"
  "buddy_inv (s\<lparr>zone_list := v23\<rparr>) = buddy_inv s"
  "buddy_inv (s\<lparr>published := v24\<rparr>) = buddy_inv s"
  by (rule buddy_inv_cong; simp)+

lemma block_ok_update [simp]:
  "block_ok (s\<lparr>managed := v0\<rparr>) = block_ok s"
  "block_ok (s\<lparr>present := v1\<rparr>) = block_ok s"
  "block_ok (s\<lparr>spanned := v2\<rparr>) = block_ok s"
  "block_ok (s\<lparr>reserve := v3\<rparr>) = block_ok s"
  "block_ok (s\<lparr>wmark := v4\<rparr>) = block_ok s"
  "block_ok (s\<lparr>tunables := v5\<rparr>) = block_ok s"
  "block_ok (s\<lparr>allocated := v6\<rparr>) = block_ok s"
  "block_ok (s\<lparr>reserved := v7\<rparr>) = block_ok s"
  "block_ok (s\<lparr>initial_free := v8\<rparr>) = block_ok s"
  "block_ok (s\<lparr>alloc_events := v9\<rparr>) = block_ok s"
  "block_ok (s\<lparr>alloc_event_pages := v10\<rparr>) = block_ok s"
  "block_ok (s\<lparr>free_events := v11\<rparr>) = block_ok s"
  "block_ok (s\<lparr>free_event_pages := v12\<rparr>) = block_ok s"
  "block_ok (s\<lparr>pcp_bitmap := v13\<rparr>) = block_ok s"
  "block_ok (s\<lparr>hibernate_forbidden := v14\<rparr>) = block_ok s"
  "block_ok (s\<lparr>pcp := v15\<rparr>) = block_ok s"
  "block_ok (s\<lparr>zone_free := v16\<rparr>) = block_ok s"
  "block_ok (s\<lparr>pcp_free := v17\<rparr>) = block_ok s"
  "block_ok (s\<lparr>pcp_zone := v18\<rparr>) = block_ok s"
  "block_ok (s\<lparr>pcp_alloc_events := v19\<rparr>) = block_ok s"
  "block_ok (s\<lparr>pcp_alloc_event_pages := v20\<rparr>) = block_ok s"
  "block_ok (s\<lparr>pcp_free_events := v21\<rparr>) = block_ok s"
  "block_ok (s\<lparr>pcp_free_event_pages := v22\<rparr>) = block_ok s"
  "block_ok (s\<lparr>zone_list := v23\<rparr>) = block_ok s"
  "block_ok (s\<lparr>published := v25\<rparr>) = block_ok s"
  "block_ok (s\<lparr>mem := v24\<rparr>) = block_ok s"
  by (rule block_ok_cong; simp)+

lemma outer_commute [simp]:
  "outer (s\<lparr>managed := v\<rparr>) = (outer s)\<lparr>managed := v\<rparr>" "outer (s\<lparr>present := v\<rparr>) = (outer s)\<lparr>present := v\<rparr>"
  by (simp_all add: outer_def)

section \<open>Seeding\<close>

lemma seed_order_fits:
  "cur < e \<Longrightarrow> seed_order n cur e \<le> n \<and> 2 ^ seed_order n cur e dvd cur \<and> cur + 2 ^ seed_order n cur e \<le> e"
  by (induction n) (auto simp: dvd_eq_mod_eq_0)

definition seed_post :: "pmm \<Rightarrow> nat set \<Rightarrow> pmm \<Rightarrow> bool" where
  "seed_post s A s' \<longleftrightarrow> buddy_inv s' \<and> free_set s' = free_set s \<union> A \<and> pageblocks s' = pageblocks s \<and>
     outer s' = outer (s\<lparr>managed := managed s', present := present s'\<rparr>) \<and>
     (\<forall>z. managed s' z = managed s z + card {q \<in> A. zi s q = z}) \<and>
     (\<forall>z. present s' z = present s z + card {q \<in> A. zi s q = z})"

lemma seed_post_refl: "buddy_inv s \<Longrightarrow> seed_post s {} s"
  unfolding seed_post_def by (simp add: outer_def del: outer_commute)

lemma seed_post_frame:
  assumes "seed_post s A s'"
  shows "layout s' = layout s" "pfn_max s' = pfn_max s" "zi s' = zi s" "migratetype s' = migratetype s"
proof -
  have o: "outer s' = outer (s\<lparr>managed := managed s', present := present s'\<rparr>)" and pb: "pageblocks s' = pageblocks s"
    using assms by (simp_all add: seed_post_def)
  show l: "layout s' = layout s" using arg_cong [OF o, of layout] by (simp add: outer_def)
  show "pfn_max s' = pfn_max s" using arg_cong [OF o, of pfn_max] by (simp add: outer_def)
  show "zi s' = zi s" by (rule zi_cong [OF l])
  show "migratetype s' = migratetype s" by (rule migratetype_cong [OF pb])
qed

lemma seed_post_trans:
  assumes "seed_post s A t" and "seed_post t B u" and "A \<inter> B = {}" and "finite A" and "finite B"
  shows "seed_post s (A \<union> B) u"
proof -
  note f = seed_post_frame [OF assms(1)]
  have c: "card {q \<in> A \<union> B. zi s q = z} = card {q \<in> A. zi s q = z} + card {q \<in> B. zi s q = z}" for z
  proof -
    have "{q \<in> A \<union> B. zi s q = z} = {q \<in> A. zi s q = z} \<union> {q \<in> B. zi s q = z}" by blast
    then show ?thesis using assms(3-5) by (simp add: card_Un_disjoint disjoint_iff)
  qed
  have o: "outer u = outer (s\<lparr>managed := managed u, present := present u\<rparr>)"
  proof -
    have t: "outer t = outer (s\<lparr>managed := managed t, present := present t\<rparr>)" using assms(1) by (simp add: seed_post_def)
    have "outer u = (outer t)\<lparr>managed := managed u, present := present u\<rparr>"
      using assms(2) by (simp add: seed_post_def outer_def)
    also have "\<dots> = outer (s\<lparr>managed := managed u, present := present u\<rparr>)" unfolding t by (simp add: outer_def)
    finally show ?thesis .
  qed
  show ?thesis using assms(1,2) o unfolding seed_post_def f c by (auto simp: add.assoc)
qed

lemma seed_within_zone_ok:
  assumes "buddy_inv s" and "{cur..<e} \<inter> free_set s = {}" and "e \<le> pfn_max s"
    and "\<forall>q \<in> {cur..<e}. zi s q = zone \<and> migratetype s q = Some mt"
  shows "returns (seed_within_zone s zone cur e) (seed_post s {cur..<e})"
  using assms
proof (induction "e - cur" arbitrary: s cur rule: less_induct)
  case less
  show ?case
  proof (cases "cur < e")
    case False
    then show ?thesis using less.prems by (subst seed_within_zone.simps) (simp add: seed_post_def)
  next
    case True
    define o' where "o' = seed_order MAX_ORDER cur e"
    have o: "o' \<le> MAX_ORDER" "2 ^ o' dvd cur" "cur + 2 ^ o' \<le> e"
      using seed_order_fits [OF True, of MAX_ORDER] by (auto simp: o'_def)
    have cl: "zi s cur = zone" "migratetype s cur = Some mt" using less.prems(4) True by auto
    have sub: "pages cur o' \<subseteq> {cur..<e}" using o(3) by (auto simp: pages_def)
    have "one_class s (pages cur o') cur" unfolding one_class_def using less.prems(4) sub cl by (metis subsetD)
    then have ok: "block_ok s cur o'" using o less.prems(3) by (simp add: block_ok_def)
    have dj: "pages cur o' \<inter> free_set s = {}" using sub less.prems(2) by blast
    let ?upd = "\<lambda>t. t\<lparr>managed := (managed t)(zone := managed t zone + 2 ^ o'), present := (present t)(zone := present t zone + 2 ^ o')\<rparr>"
    have step: "seed_within_zone s zone cur e = enlist s zone cur o' mt \<bind>
        (\<lambda>t. seed_within_zone (?upd t) zone (cur + 2 ^ o') e)"
      using True cl by (subst seed_within_zone.simps) (simp add: Let_def o'_def)
    show ?thesis unfolding step
    proof (rule returns_bind [OF enlist_ok [OF less.prems(1) ok dj cl(2) cl(1) [symmetric]]], elim conjE)
      fix t assume t: "buddy_inv t" "blocks t = insert (cur, o') (blocks s)" "buddy_frame s t" "pageblocks t = pageblocks s"
      have same: "zi t = zi s" "migratetype t = migratetype s" "pfn_max t = pfn_max s"
        "managed t = managed s" "present t = present s"
        using zi_frame [OF t(3)] migratetype_cong [OF t(4)] buddy_frameD [OF t(3)] by auto
      have in_zone: "{q \<in> pages cur o'. zi s q = z} = (if z = zone then pages cur o' else {})" for z
        using less.prems(4) sub by auto
      have p1: "seed_post s (pages cur o') (?upd t)"
        using t same unfolding seed_post_def in_zone
        by (auto simp: Un_commute buddy_frame_def)
      have "{cur + 2 ^ o'..<e} \<inter> free_set t = {}" 
        using less.prems(2) unfolding t(2) span_of_simps by (auto simp: pages_def disjoint_iff)
      moreover have "e - (cur + 2 ^ o') < e - cur" using True by (intro diff_less_mono2) simp_all
      ultimately have "returns (seed_within_zone (?upd t) zone (cur + 2 ^ o') e) (seed_post (?upd t) {cur + 2 ^ o'..<e})"
        using less.prems(3,4) True o t(1) by (intro less.hyps) (simp_all add: same)
      then show "returns (seed_within_zone (?upd t) zone (cur + 2 ^ o') e) (seed_post s {cur..<e})"
      proof (rule returns_mono)
        fix u assume "seed_post (?upd t) {cur + 2 ^ o'..<e} u"
        from seed_post_trans [OF p1 this] have "seed_post s (pages cur o' \<union> {cur + 2 ^ o'..<e}) u"
          by (auto simp: pages_def)
        moreover have "pages cur o' \<union> {cur + 2 ^ o'..<e} = {cur..<e}" using o(3) by (auto simp: pages_def)
        ultimately show "seed_post s {cur..<e} u" by simp
      qed
    qed
  qed
qed

lemma zi_span:
  assumes "shape_ok s" and "zone < NR_ZONES"
  shows "q < pfn_max s \<and> zi s q = zone \<longleftrightarrow> start_pfn (layout s ! zone) \<le> q \<and> q < end_pfn (layout s ! zone)"
proof -
  have wf: "wf_layout (layout s) (pfn_max s)" using assms(1) by (simp add: shape_ok_def)
  have "q < pfn_max s \<and> zi s q = zone \<longleftrightarrow> index_of (layout s) q = zone"
    using index_of_less [OF wf, of q] assms(2) by (auto simp: zi_def Let_def)
  also have "\<dots> \<longleftrightarrow> start_pfn (layout s ! zone) \<le> q \<and> q < end_pfn (layout s ! zone)"
    using index_of_eq_iff [OF wf assms(2), of q] by (simp add: span_contains_def)
  finally show ?thesis .
qed

lemma seed_zones_ok:
  assumes "buddy_inv s" and "{q \<in> {start..<e}. zi s q \<in> set zones} \<inter> free_set s = {}" and "e \<le> pfn_max s"
    and "\<forall>q < pfn_max s. migratetype s q = Some (ty (zi s q))"
    and "distinct zones" and "\<forall>z \<in> set zones. z < NR_ZONES"
  shows "returns (seed_zones s zones start e) (seed_post s {q \<in> {start..<e}. zi s q \<in> set zones})"
  using assms
proof (induction zones arbitrary: s)
  case Nil
  then show ?case using seed_post_refl by simp
next
  case (Cons z zones)
  let ?lo = "max start (start_pfn (layout s ! z))" and ?hi = "min e (end_pfn (layout s ! z))"
  let ?A = "{q \<in> {start..<e}. zi s q = z}" and ?R = "{q \<in> {start..<e}. zi s q \<in> set zones}"
  have z: "z < NR_ZONES" using Cons.prems by simp
  have sh: "shape_ok s" using Cons.prems(1) by (rule buddy_inv_shape)
  have A: "{?lo..<?hi} = ?A"
  proof (intro set_eqI)
    fix q
    have "q \<in> {?lo..<?hi} \<longleftrightarrow> start \<le> q \<and> q < e \<and> (start_pfn (layout s ! z) \<le> q \<and> q < end_pfn (layout s ! z))"
      by auto
    also have "\<dots> \<longleftrightarrow> start \<le> q \<and> q < e \<and> (q < pfn_max s \<and> zi s q = z)"
      unfolding zi_span [OF sh z] ..
    also have "\<dots> \<longleftrightarrow> q \<in> ?A" using Cons.prems(3) by auto
    finally show "q \<in> {?lo..<?hi} \<longleftrightarrow> q \<in> ?A" .
  qed
  have un: "?A \<union> ?R = {q \<in> {start..<e}. zi s q \<in> set (z # zones)}" by auto
  have dj: "?A \<inter> ?R = {}" using Cons.prems(5) by auto
  have first: "returns (if ?hi > ?lo then seed_within_zone s z ?lo ?hi else Some s) (seed_post s ?A)"
  proof (cases "?hi > ?lo")
    case True
    have "returns (seed_within_zone s z ?lo ?hi) (seed_post s {?lo..<?hi})"
    proof (rule seed_within_zone_ok [OF Cons.prems(1)])
      show "{?lo..<?hi} \<inter> free_set s = {}" unfolding A using Cons.prems(2) un by blast
      show "?hi \<le> pfn_max s" using Cons.prems(3) by simp
      show "\<forall>q \<in> {?lo..<?hi}. zi s q = z \<and> migratetype s q = Some (ty z)"
        unfolding A using Cons.prems(3,4) by auto
    qed
    then show ?thesis unfolding if_P [OF True] A .
  next
    case False
    then have e: "?A = {}" unfolding A [symmetric] by simp
    show ?thesis unfolding if_not_P [OF False] e using seed_post_refl [OF Cons.prems(1)] by simp
  qed
  show ?case unfolding seed_zones.simps Let_def
  proof (rule returns_bind [OF first])
    fix t assume t: "seed_post s ?A t"
    note f = seed_post_frame [OF t]
    have fs: "free_set t = free_set s \<union> ?A" and it: "buddy_inv t" using t by (auto simp: seed_post_def)
    have "returns (seed_zones t zones start e) (seed_post t {q \<in> {start..<e}. zi t q \<in> set zones})"
    proof (rule Cons.IH [OF it])
      show "{q \<in> {start..<e}. zi t q \<in> set zones} \<inter> free_set t = {}"
        unfolding fs f using Cons.prems(2) dj un by blast
    qed (use Cons.prems f in auto)
    then show "returns (seed_zones t zones start e) (seed_post s {q \<in> {start..<e}. zi s q \<in> set (z # zones)})"
      unfolding f un [symmetric] by (rule returns_mono) (rule seed_post_trans [OF t _ dj], simp_all)
  qed
qed

lemma seed_range_ok:
  assumes "buddy_inv s" and "{start..<e} \<inter> free_set s = {}" and "e \<le> pfn_max s"
    and "\<forall>q < pfn_max s. migratetype s q = Some (ty (zi s q))"
  shows "returns (seed_range s start e) (seed_post s {start..<e})"
proof -
  have "{q \<in> {start..<e}. zi s q \<in> set [0..<NR_ZONES]} = {start..<e}" by auto
  then show ?thesis
    using seed_zones_ok [of s start e "[0..<NR_ZONES]" ty] assms unfolding seed_range_def by simp
qed

section \<open>Totals\<close>

lemma UNIV_migrate_type: "(UNIV :: migrate_type set) = {Unmovable, Movable, Reclaimable}"
  by (auto intro: migrate_type.exhaust)

lemma sum_list_all_types: "sum_list (map f all_types) = (\<Sum>mt \<in> UNIV. f mt :: nat)"
  by (simp add: all_types_def MIGRATE_TYPES_def mt_from_index_def UNIV_migrate_type upt_rec)

lemma finite_blocks: "finite (blocks_of bms)"
proof -
  have "finite (bm_bits bm)" for bm
    using bm.bits_bounded [of bm] finite_subset by (auto simp: bm_bits_def)
  then have "finite (\<Union>order \<in> {..MAX_ORDER}. (\<lambda>i. (i * 2 ^ order, order)) ` bm_bits (bms order))" by simp
  moreover have "blocks_of bms \<subseteq> (\<Union>order \<in> {..MAX_ORDER}. (\<lambda>i. (i * 2 ^ order, order)) ` bm_bits (bms order))"
    by (auto simp: blocks_of_def)
  ultimately show ?thesis by (rule rev_finite_subset)
qed

lemma finite_free_set [simp]: "finite (free_set s)"
  using finite_blocks by (auto simp: span_of_def)

lemma card_span_of:
  assumes "disjoint_blocks B" and "finite B"
  shows "card (span_of B) = (\<Sum>(p, order) \<in> B. 2 ^ order)"
proof -
  have "pages (fst b) (snd b) \<inter> pages (fst c) (snd c) = {}" if "b \<in> B" "c \<in> B" "b \<noteq> c" for b c
    using assms(1) that unfolding disjoint_blocks_def by (metis prod.collapse)
  then have "card (span_of B) = (\<Sum>b \<in> B. card (pages (fst b) (snd b)))"
    unfolding span_of_def split_def using assms(2) by (intro card_UN_disjoint) auto
  then show ?thesis by (simp add: split_def)
qed

lemma zone_free_pages_card:
  assumes inv: "buddy_inv s" and z: "zone < NR_ZONES"
  shows "zone_free_pages s zone = card {q \<in> free_set s. zi s q = zone}"
proof -
  let ?B = "{(p, order) \<in> blocks s. zi s p = zone}"
  let ?key = "\<lambda>(p, order). (the (migratetype s p), order)"
  have fin: "finite ?B" using finite_blocks by (rule rev_finite_subset) auto
  have mt: "the (migratetype s p) = t \<longleftrightarrow> migratetype s p = Some t" if "(p, order) \<in> blocks s" for p order t
    using migratetype_defined [OF buddy_inv_shape [OF inv] block_ok_less [OF buddy_invD(1) [OF inv that]]] by auto
  have cnt: "free_count s (zone, t, order) = card {b \<in> ?B. ?key b = (t, order)}" if o: "order \<le> MAX_ORDER" for t order
  proof -
    obtain xs where xs: "list_ok s (zone, t, order) xs" using buddy_inv_list [OF inv z o] by metis
    have st: "set xs = {p. (p, order) \<in> blocks s \<and> zi s p = zone \<and> migratetype s p = Some t}"
      using xs by (simp add: list_ok_def)
    have "{b \<in> ?B. ?key b = (t, order)} = (\<lambda>p. (p, order)) ` set xs"
      unfolding st by (auto simp: image_iff mt intro: mt [THEN iffD1, OF _ refl])
    then have "card {b \<in> ?B. ?key b = (t, order)} = card (set xs)" by (simp add: card_image inj_on_def)
    also have "\<dots> = length xs" using xs by (intro distinct_card) (simp add: list_ok_def dll_def)
    finally show ?thesis using xs by (simp add: list_ok_def)
  qed
  have "{q \<in> free_set s. zi s q = zone} = span_of ?B"
  proof -
    have zc: "zi s q = zi s p" if "(p, order) \<in> blocks s" "q \<in> pages p order" for p order q
      using one_classD buddy_invD(1) [OF inv that(1)] that(2) unfolding block_ok_def by blast
    show ?thesis unfolding span_of_def by (auto dest: zc) (metis zc)
  qed
  moreover have "disjoint_blocks ?B"
    using buddy_inv_disjoint_blocks [OF inv] by (rule disjoint_blocks_subset) auto
  ultimately have "card {q \<in> free_set s. zi s q = zone} = (\<Sum>(p, order) \<in> ?B. 2 ^ order)"
    using card_span_of fin by simp
  also have "\<dots> = (\<Sum>k \<in> UNIV \<times> {..MAX_ORDER}. \<Sum>b \<in> {b \<in> ?B. ?key b = k}. (case b of (p, order) \<Rightarrow> 2 ^ order))"
    using fin by (intro sum.group [symmetric]) (auto simp: UNIV_migrate_type blocks_of_mem intro: migrate_type.exhaust)
  also have "\<dots> = (\<Sum>k \<in> UNIV \<times> {..MAX_ORDER}. free_count s (zone, k) * 2 ^ snd k)"
  proof (intro sum.cong refl)
    fix k :: "migrate_type \<times> nat" assume k: "k \<in> UNIV \<times> {..MAX_ORDER}"
    have "(\<Sum>b \<in> {b \<in> ?B. ?key b = k}. (case b of (p, order) \<Rightarrow> 2 ^ order)) = (\<Sum>b \<in> {b \<in> ?B. ?key b = k}. 2 ^ snd k)"
      by (intro sum.cong) auto
    also have "\<dots> = card {b \<in> ?B. ?key b = k} * 2 ^ snd k" by simp
    also have "card {b \<in> ?B. ?key b = k} = free_count s (zone, k)" using cnt [of "snd k" "fst k"] k by auto
    finally show "(\<Sum>b \<in> {b \<in> ?B. ?key b = k}. (case b of (p, order) \<Rightarrow> 2 ^ order)) = free_count s (zone, k) * 2 ^ snd k" .
  qed
  also have "\<dots> = zone_free_pages s zone"
    unfolding zone_free_pages_def sum_list_all_types sum_list_upt sum.cartesian_product' ORDERS_def
      Suc_eq_plus1 [symmetric] lessThan_Suc_atMost by simp
  finally show ?thesis by simp
qed

end
