(* ===== verification/Pagesets.thy ===== *)
theory Pagesets
  imports Buddy_Free
begin

text \<open>
  The per-CPU order-0 pagesets (\<open>buddy/pcp.rs\<close>). A pageset is a singly linked list threaded
  through the header of its pages; a page on it is marked in the pageset bitmap and on no buddy
  list. The current CPU and the number of online CPUs are arguments. Statistics counters that only
  ever grow, and the atomic free-page counters, wrap around as the source's \<open>fetch_add\<close> and
  \<open>fetch_sub\<close> do.
\<close>

section \<open>Thresholds\<close>

definition MAX_CPUS :: nat where "MAX_CPUS = 256"

fun ilog2 :: "nat \<Rightarrow> nat" where
  "ilog2 n = (if n < 2 then 0 else Suc (ilog2 (n div 2)))"

declare ilog2.simps [simp del]

definition batch_pages :: "u64 \<Rightarrow> u64" where
  "batch_pages managed_pages =
     (let batch = min (managed_pages div 2 ^ 12) ((256 * 1024) div PAGE_SIZE_BYTES) in
      if batch \<le> 1 then 1
      else let scaled = saturating_add batch (batch div 2) in max (2 ^ ilog2 scaled - 1) 1)"

definition high_pages :: "nat \<Rightarrow> u64 \<Rightarrow> u64 \<Rightarrow> u64" where
  "high_pages online low batch = max (low div max online 1) (saturating_mul batch 4)"

definition cfg_new :: "zone_watermarks \<Rightarrow> u64 list \<Rightarrow> u64 \<Rightarrow> pcp_zone_config" where
  "cfg_new wm res managed_pages =
     \<lparr>cfg_low = wm_low wm, cfg_min = wm_min wm, cfg_reserve = res, cfg_batch = batch_pages managed_pages\<rparr>"

definition cfg_mark :: "pcp_zone_config \<Rightarrow> alloc_wmark \<Rightarrow> u64" where
  "cfg_mark cfg w = (case w of Low \<Rightarrow> cfg_low cfg | _ \<Rightarrow> cfg_min cfg)"

definition cfg_reserve_for :: "pcp_zone_config \<Rightarrow> nat \<Rightarrow> u64" where
  "cfg_reserve_for cfg highest = cfg_reserve cfg ! min highest (NR_ZONES - 1)"

definition cfg_high :: "nat \<Rightarrow> pcp_zone_config \<Rightarrow> u64" where
  "cfg_high online cfg = high_pages online (cfg_low cfg) (max (cfg_batch cfg) 1)"

section \<open>The list of one pageset\<close>

definition pl_empty :: pcp_list where
  "pl_empty = \<lparr>pl_head = PFN_NULL, pl_count = 0\<rparr>"

text \<open>\<open>push\<close> writes the same header as \<open>stamp_block\<close> with order 0.\<close>

definition pl_push :: "page_mem \<Rightarrow> pcp_list \<Rightarrow> u64 \<Rightarrow> page_mem \<times> pcp_list" where
  "pl_push m l pfn =
     (stamp_block m pfn 0 (pl_head l) PFN_NULL, \<lparr>pl_head = pfn, pl_count = pl_count l + 1\<rparr>)"

definition pl_pop :: "page_mem \<Rightarrow> u64 \<Rightarrow> pcp_list \<Rightarrow> (pcp_list \<times> u64 option) option" where
  "pl_pop m lim l =
     (if pl_count l = 0 then Some (l, None)
      else do {
        let pfn = pl_head l;
        kassert (pfn < lim);
        let nxt = next_of m pfn;
        kassert (nxt = PFN_NULL \<or> nxt < lim);
        kassert (nxt \<noteq> pfn);
        Some (\<lparr>pl_head = nxt, pl_count = pl_count l - 1\<rparr>, Some pfn)
      })"

fun pl_take_loop :: "nat \<Rightarrow> page_mem \<Rightarrow> u64 \<Rightarrow> pcp_list \<Rightarrow> pcp_list \<Rightarrow> (page_mem \<times> pcp_list \<times> pcp_list) option" where
  "pl_take_loop 0 m lim l out = Some (m, l, out)"
| "pl_take_loop (Suc n) m lim l out = do {
     (l, r) \<leftarrow> pl_pop m lim l;
     pfn \<leftarrow> r;
     let (m, out) = pl_push m out pfn;
     pl_take_loop n m lim l out
   }"

definition pl_take :: "page_mem \<Rightarrow> u64 \<Rightarrow> pcp_list \<Rightarrow> u64 \<Rightarrow> (page_mem \<times> pcp_list \<times> pcp_list) option" where
  "pl_take m lim l limit = pl_take_loop (min (pl_count l) limit) m lim l pl_empty"

lemma pl_pop_count: "pl_pop m lim l = Some (l', Some pfn) \<Longrightarrow> pl_count l' < pl_count l"
  by (auto simp: pl_pop_def Let_def bind_eq_Some_conv split: if_splits)

section \<open>Marks and checks\<close>

definition pcp_key :: "nat \<Rightarrow> nat \<Rightarrow> migrate_type \<Rightarrow> nat \<times> nat \<times> migrate_type" where
  "pcp_key cpu zone mt = (min cpu (MAX_CPUS - 1), zone, mt)"

definition pcp_mark :: "pmm \<Rightarrow> u64 \<Rightarrow> pmm option" where
  "pcp_mark s pfn = do {
     old \<leftarrow> bm_get (pcp_bitmap s) pfn;
     bm \<leftarrow> bm_set (pcp_bitmap s) pfn;
     kassert (\<not> old);
     Some (s\<lparr>pcp_bitmap := bm\<rparr>)
   }"

definition pcp_unmark :: "pmm \<Rightarrow> u64 \<Rightarrow> pmm option" where
  "pcp_unmark s pfn = do {
     old \<leftarrow> bm_get (pcp_bitmap s) pfn;
     bm \<leftarrow> bm_clear (pcp_bitmap s) pfn;
     kassert old;
     Some (s\<lparr>pcp_bitmap := bm\<rparr>)
   }"

definition pcp_marked :: "pmm \<Rightarrow> u64 \<Rightarrow> bool option" where
  "pcp_marked s pfn = bm_get (pcp_bitmap s) pfn"

definition buddy_marked :: "pmm \<Rightarrow> u64 \<Rightarrow> nat \<Rightarrow> bool option" where
  "buddy_marked s pfn order = bm_get (bitmaps s order) (pfn div 2 ^ order)"

definition verify_pcp_node :: "pmm \<Rightarrow> u64 \<Rightarrow> nat \<Rightarrow> migrate_type \<Rightarrow> unit option" where
  "verify_pcp_node s pfn zone mt = do {
     kassert (index_of (layout s) pfn = zone);
     t \<leftarrow> migratetype s pfn;
     kassert (t = mt);
     kassert (read_u64 (mem s) pfn OFF_POISON = POISON_MAGIC);
     kassert (mem s pfn OFF_ORDER = 0)
   }"

definition verify_pcp_page :: "pmm \<Rightarrow> u64 \<Rightarrow> nat \<Rightarrow> migrate_type \<Rightarrow> unit option" where
  "verify_pcp_page s pfn zone mt = do {
     verify_pcp_node s pfn zone mt;
     b \<leftarrow> pcp_marked s pfn;
     kassert b
   }"

definition pcp_watermark_ok :: "pmm \<Rightarrow> nat \<Rightarrow> nat \<Rightarrow> alloc_wmark \<Rightarrow> bool" where
  "pcp_watermark_ok s zone highest w =
     (let cfg = pcp_zone s zone in
      zone_watermark_ok_pages (cfg_mark cfg w) w (cfg_reserve_for cfg highest) (zone_free s zone))"

section \<open>Allocation from a pageset\<close>

definition count_pcp_alloc :: "pmm \<Rightarrow> pmm" where
  "count_pcp_alloc s = s\<lparr>pcp_alloc_events := wrapping_add (pcp_alloc_events s) 1,
                         pcp_alloc_event_pages := wrapping_add (pcp_alloc_event_pages s) 1\<rparr>"

definition pop_current_pcp :: "nat \<Rightarrow> pmm \<Rightarrow> nat \<Rightarrow> migrate_type \<Rightarrow> (pmm \<times> u64 option) option" where
  "pop_current_pcp cpu s zone mt = do {
     let k = pcp_key cpu zone mt;
     (l, r) \<leftarrow> pl_pop (mem s) (pfn_max s) (pcp s k);
     (case r of
        None \<Rightarrow> Some (s, None)
      | Some pfn \<Rightarrow> do {
          let s = s\<lparr>pcp := (pcp s)(k := l)\<rparr>;
          verify_pcp_page s pfn zone mt;
          s \<leftarrow> pcp_unmark s pfn;
          let s = s\<lparr>pcp_free := (pcp_free s)(zone := wrapping_sub (pcp_free s zone) 1),
                    zone_free := (zone_free s)(zone := wrapping_sub (zone_free s zone) 1)\<rparr>;
          Some (count_pcp_alloc s, Some pfn)
        })
   }"

definition wmark_of :: "pmm \<Rightarrow> nat \<Rightarrow> alloc_wmark \<Rightarrow> u64" where
  "wmark_of s zone w = (case w of Low \<Rightarrow> wm_low (wmark s zone) | _ \<Rightarrow> wm_min (wmark s zone))"

definition area_with_cached :: "pmm \<Rightarrow> nat \<Rightarrow> u64 list" where
  "area_with_cached s zone = (let area = free_area s zone in area[0 := saturating_add (area ! 0) (pcp_free s zone)])"

fun refill_loop ::
    "nat \<Rightarrow> pmm \<Rightarrow> pcp_list \<Rightarrow> nat \<Rightarrow> nat \<Rightarrow> alloc_wmark \<Rightarrow> migrate_type \<Rightarrow> (pmm \<times> pcp_list) option" where
  "refill_loop 0 s refill zone highest w mt = Some (s, refill)"
| "refill_loop (Suc n) s refill zone highest w mt =
     (case zone_from_index zone of
        None \<Rightarrow> Some (s, refill)
      | Some zone_type \<Rightarrow>
          if \<not> zone_watermark_ok zone_type 0 (wmark_of s zone w) w (reserve s) highest (area_with_cached s zone)
          then Some (s, refill)
          else do {
            (s, r) \<leftarrow> take_block s zone 0 mt;
            (case r of
               None \<Rightarrow> Some (s, refill)
             | Some pfn \<Rightarrow> do {
                 verify_poison s pfn;
                 let (m, refill) = pl_push (mem s) refill pfn;
                 refill_loop n (s\<lparr>mem := m, allocated := allocated s + 1\<rparr>) refill zone highest w mt
               })
          })"

function cache_loop ::
    "pmm \<Rightarrow> pcp_list \<Rightarrow> pcp_list \<Rightarrow> (pmm \<times> pcp_list) option" where
  "cache_loop s refill l =
     (case pl_pop (mem s) (pfn_max s) refill of
        None \<Rightarrow> None
      | Some (_, None) \<Rightarrow> Some (s, l)
      | Some (refill', Some cached) \<Rightarrow> do {
          s \<leftarrow> pcp_mark s cached;
          let (m, l) = pl_push (mem s) l cached;
          cache_loop (s\<lparr>mem := m\<rparr>) refill' l
        })"
  by pat_completeness auto
termination
  by (relation "measure (\<lambda>(s, refill, l). pl_count refill)") (auto dest: pl_pop_count)

declare cache_loop.simps [simp del]

definition refill_current_pcp ::
    "nat \<Rightarrow> pmm \<Rightarrow> nat \<Rightarrow> nat \<Rightarrow> alloc_wmark \<Rightarrow> migrate_type \<Rightarrow> (pmm \<times> u64 option) option" where
  "refill_current_pcp cpu s zone highest w mt = do {
     let wanted = max (cfg_batch (pcp_zone s zone)) 1;
     (s, refill) \<leftarrow> refill_loop wanted s pl_empty zone highest w mt;
     let count = pl_count refill;
     (if count = 0 then Some (s, None)
      else do {
        let k = pcp_key cpu zone mt;
        (refill, r) \<leftarrow> pl_pop (mem s) (pfn_max s) refill;
        pfn \<leftarrow> r;
        (s, l) \<leftarrow> cache_loop s refill (pcp s k);
        let s = s\<lparr>pcp := (pcp s)(k := l),
                  pcp_free := (pcp_free s)(zone := wrapping_add (pcp_free s zone) (count - 1)),
                  zone_free := (zone_free s)(zone := wrapping_sub (zone_free s zone) 1)\<rparr>;
        verify_pcp_node s pfn zone mt;
        Some (count_pcp_alloc s, Some pfn)
      })
   }"

fun alloc_from_pcp_zones ::
    "nat \<Rightarrow> pmm \<Rightarrow> nat \<Rightarrow> alloc_wmark \<Rightarrow> migrate_type \<Rightarrow> zone_type list \<Rightarrow> (pmm \<times> u64 option) option" where
  "alloc_from_pcp_zones cpu s highest w mt [] = Some (s, None)"
| "alloc_from_pcp_zones cpu s highest w mt (zone # zones) =
     (let zi = zone_index zone in
      if \<not> pcp_watermark_ok s zi highest w then alloc_from_pcp_zones cpu s highest w mt zones
      else do {
        (s, r) \<leftarrow> pop_current_pcp cpu s zi mt;
        (case r of
           Some pfn \<Rightarrow> Some (s, Some pfn)
         | None \<Rightarrow> do {
             (s, r) \<leftarrow> refill_current_pcp cpu s zi highest w mt;
             (case r of
                Some pfn \<Rightarrow> Some (s, Some pfn)
              | None \<Rightarrow> alloc_from_pcp_zones cpu s highest w mt zones)
           })
      })"

definition alloc_from_pcp ::
    "nat \<Rightarrow> pmm \<Rightarrow> nat \<Rightarrow> alloc_wmark \<Rightarrow> migrate_type \<Rightarrow> (pmm \<times> u64 option) option" where
  "alloc_from_pcp cpu s highest w mt =
     alloc_from_pcp_zones cpu s highest w mt (zonelist_walk (zone_list s) highest)"

section \<open>Draining\<close>

function release_loop :: "pmm \<Rightarrow> nat \<Rightarrow> migrate_type \<Rightarrow> pcp_list \<Rightarrow> pcp_list \<Rightarrow> (pmm \<times> pcp_list) option" where
  "release_loop s zone mt l private =
     (case pl_pop (mem s) (pfn_max s) l of
        None \<Rightarrow> None
      | Some (_, None) \<Rightarrow> Some (s, private)
      | Some (l', Some pfn) \<Rightarrow> do {
          verify_pcp_page s pfn zone mt;
          s \<leftarrow> pcp_unmark s pfn;
          let (m, private) = pl_push (mem s) private pfn;
          release_loop (s\<lparr>mem := m\<rparr>) zone mt l' private
        })"
  by pat_completeness auto
termination
  by (relation "measure (\<lambda>(s, zone, mt, l, private). pl_count l)") (auto dest: pl_pop_count)

declare release_loop.simps [simp del]

definition release_pcp_batch :: "pmm \<Rightarrow> nat \<Rightarrow> migrate_type \<Rightarrow> pcp_list \<Rightarrow> (pmm \<times> pcp_list) option" where
  "release_pcp_batch s zone mt l = release_loop s zone mt l pl_empty"

function drain_loop :: "pmm \<Rightarrow> nat \<Rightarrow> migrate_type \<Rightarrow> pcp_list \<Rightarrow> pmm option" where
  "drain_loop s zone mt l =
     (case pl_pop (mem s) (pfn_max s) l of
        None \<Rightarrow> None
      | Some (_, None) \<Rightarrow> Some s
      | Some (l', Some pfn) \<Rightarrow> do {
          verify_pcp_node s pfn zone mt;
          s \<leftarrow> return_to_buddy s pfn 0;
          drain_loop s zone mt l'
        })"
  by pat_completeness auto
termination
  by (relation "measure (\<lambda>(s, zone, mt, l). pl_count l)") (auto dest: pl_pop_count)

declare drain_loop.simps [simp del]

definition drain_pcp_list :: "pmm \<Rightarrow> nat \<Rightarrow> migrate_type \<Rightarrow> pcp_list \<Rightarrow> pmm option" where
  "drain_pcp_list s zone mt l = do {
     let drained = pl_count l;
     s \<leftarrow> drain_loop s zone mt l;
     a \<leftarrow> checked_sub (allocated s) drained;
     Some (s\<lparr>allocated := a\<rparr>)
   }"

fun not_buddy_marked :: "pmm \<Rightarrow> u64 \<Rightarrow> nat list \<Rightarrow> unit option" where
  "not_buddy_marked s pfn [] = Some ()"
| "not_buddy_marked s pfn (order # orders) =
     do { b \<leftarrow> buddy_marked s pfn order; kassert (\<not> b); not_buddy_marked s pfn orders }"

definition free_to_pcp :: "nat \<Rightarrow> nat \<Rightarrow> pmm \<Rightarrow> u64 \<Rightarrow> pmm option" where
  "free_to_pcp cpu online s pfn = do {
     let zone = index_of (layout s) pfn;
     mt \<leftarrow> migratetype s pfn;
     kassert (zone < NR_ZONES);
     not_buddy_marked s pfn [0..<Suc MAX_ORDER];
     let high = cfg_high online (pcp_zone s zone);
     let batch = max (cfg_batch (pcp_zone s zone)) 1;
     let k = pcp_key cpu zone mt;
     s \<leftarrow> pcp_mark s pfn;
     let (m, l) = pl_push (mem s) (pcp s k) pfn;
     let s = s\<lparr>mem := m\<rparr>;
     (s, l, drain) \<leftarrow>
       (if pl_count l > high then do {
          (m, l, taken) \<leftarrow> pl_take (mem s) (pfn_max s) l batch;
          (s, drain) \<leftarrow> release_pcp_batch (s\<lparr>mem := m\<rparr>) zone mt taken;
          Some (s, l, drain)
        } else Some (s, l, pl_empty));
     let s = s\<lparr>pcp := (pcp s)(k := l),
               zone_free := (zone_free s)(zone := wrapping_add (zone_free s zone) 1),
               pcp_free := (pcp_free s)(zone := wrapping_sub (wrapping_add (pcp_free s zone) 1) (pl_count drain)),
               pcp_free_events := wrapping_add (pcp_free_events s) 1,
               pcp_free_event_pages := wrapping_add (pcp_free_event_pages s) 1\<rparr>;
     (if pl_count drain \<noteq> 0 then drain_pcp_list s zone mt drain else Some s)
   }"

definition drain_one :: "pmm \<Rightarrow> nat \<Rightarrow> migrate_type \<Rightarrow> nat \<Rightarrow> (pmm \<times> bool) option" where
  "drain_one s zone mt cpu = do {
     let k = pcp_key cpu zone mt;
     (m, l, taken) \<leftarrow> pl_take (mem s) (pfn_max s) (pcp s k) U64_MAX;
     (s, l2) \<leftarrow> release_pcp_batch (s\<lparr>mem := m, pcp := (pcp s)(k := l)\<rparr>) zone mt taken;
     (if pl_count l2 = 0 then Some (s, False)
      else do {
        let s = s\<lparr>pcp_free := (pcp_free s)(zone := wrapping_sub (pcp_free s zone) (pl_count l2))\<rparr>;
        s \<leftarrow> drain_pcp_list s zone mt l2;
        Some (s, True)
      })
   }"

fun drain_slots :: "pmm \<Rightarrow> (nat \<times> migrate_type \<times> nat) list \<Rightarrow> bool \<Rightarrow> (pmm \<times> bool) option" where
  "drain_slots s [] drained = Some (s, drained)"
| "drain_slots s ((zone, mt, cpu) # slots) drained = do {
     (s, d) \<leftarrow> drain_one s zone mt cpu;
     drain_slots s slots (drained \<or> d)
   }"

definition drain_pcp_below :: "pmm \<Rightarrow> nat \<Rightarrow> (pmm \<times> bool) option" where
  "drain_pcp_below s highest =
     drain_slots s [(zone_index zone, mt, cpu). zone \<leftarrow> zonelist_walk (zone_list s) highest,
                      mt \<leftarrow> all_types, cpu \<leftarrow> [0..<MAX_CPUS]] False"

end
