(* ===== verification/Oom.thy ===== *)
theory Oom
  imports Prelude
begin

text \<open>
  The allocator slowpath (\<open>oom_entry.rs\<close>): the decision machine that alternates reclaim, retry and
  the out-of-memory killer. The three actions are arguments; they thread a state and may panic. The
  loop need not end, so it is a partial function: a call that does not return is \<^const>\<open>None\<close>, as a
  panic is.
\<close>

section \<open>Decision machine\<close>

definition PAGE_ALLOC_COSTLY_ORDER :: nat where "PAGE_ALLOC_COSTLY_ORDER = 3"
definition MAX_RECLAIM_RETRIES :: nat where "MAX_RECLAIM_RETRIES = 16"
definition U32_MAX :: nat where "U32_MAX = 4294967295"

datatype step = Retry | InvokeOom | Fail

datatype oom_outcome = Progress | Contended | NoKillable

record retry_state =
  no_progress_loops :: nat
  oom_attempts :: nat

definition retry_default :: retry_state where
  "retry_default = \<lparr>no_progress_loops = 0, oom_attempts = 0\<rparr>"

definition note_reclaim :: "retry_state \<Rightarrow> bool \<Rightarrow> nat \<Rightarrow> retry_state" where
  "note_reclaim st did_some_progress order =
     (if did_some_progress \<and> order \<le> PAGE_ALLOC_COSTLY_ORDER then st\<lparr>no_progress_loops := 0\<rparr>
      else st\<lparr>no_progress_loops := min (no_progress_loops st + 1) U32_MAX\<rparr>)"

definition should_reclaim_retry :: "retry_state \<Rightarrow> bool" where
  "should_reclaim_retry st \<longleftrightarrow> no_progress_loops st \<le> MAX_RECLAIM_RETRIES"

definition slowpath_allowed :: "bool \<Rightarrow> bool" where
  "slowpath_allowed in_atomic \<longleftrightarrow> \<not> in_atomic"

definition may_invoke_oom :: "nat \<Rightarrow> bool" where
  "may_invoke_oom order \<longleftrightarrow> order \<le> PAGE_ALLOC_COSTLY_ORDER"

definition next_step :: "retry_state \<Rightarrow> nat \<Rightarrow> bool \<Rightarrow> retry_state \<times> step" where
  "next_step st order did_some_progress =
     (let st = note_reclaim st did_some_progress order in
      if should_reclaim_retry st then (st, Retry)
      else if \<not> may_invoke_oom order then (st, Fail)
      else (st, InvokeOom))"

definition after_oom :: "retry_state \<Rightarrow> oom_outcome \<Rightarrow> retry_state \<times> step" where
  "after_oom st outcome =
     (if outcome = NoKillable then (st, Fail)
      else (st\<lparr>oom_attempts := min (oom_attempts st + 1) U32_MAX, no_progress_loops := 0\<rparr>, Retry))"

section \<open>The loop\<close>

partial_function (option) slowpath_loop ::
    "nat \<Rightarrow> ('s \<Rightarrow> ('s \<times> 'a option) option) \<Rightarrow> ('s \<Rightarrow> ('s \<times> bool) option) \<Rightarrow>
     ('s \<Rightarrow> ('s \<times> oom_outcome) option) \<Rightarrow> retry_state \<Rightarrow> 's \<Rightarrow> ('s \<times> 'a option) option" where
  "slowpath_loop order alloc reclaim oom st s =
     do {
       (s, did_some_progress) \<leftarrow> reclaim s;
       (s, st, step) \<leftarrow>
         (case next_step st order did_some_progress of
            (st, InvokeOom) \<Rightarrow> do { (s, outcome) \<leftarrow> oom s; Some (s, after_oom st outcome) }
          | (st, step) \<Rightarrow> Some (s, st, step));
       (if step = Fail then Some (s, None)
        else do {
          (s, r) \<leftarrow> alloc s;
          (case r of Some v \<Rightarrow> Some (s, Some v) | None \<Rightarrow> slowpath_loop order alloc reclaim oom st s)
        })
     }"

definition run_slowpath ::
    "nat \<Rightarrow> bool \<Rightarrow> ('s \<Rightarrow> ('s \<times> 'a option) option) \<Rightarrow> ('s \<Rightarrow> ('s \<times> bool) option) \<Rightarrow>
     ('s \<Rightarrow> ('s \<times> oom_outcome) option) \<Rightarrow> 's \<Rightarrow> ('s \<times> 'a option) option" where
  "run_slowpath order allowed alloc reclaim oom s =
     (if \<not> allowed then Some (s, None) else slowpath_loop order alloc reclaim oom retry_default s)"

section \<open>Termination and results\<close>

lemma next_step_cases:
  "next_step st order p =
     (let n = (if p \<and> order \<le> 3 then 0 else min (no_progress_loops st + 1) U32_MAX) in
      (st\<lparr>no_progress_loops := n\<rparr>, if n \<le> 16 then Retry else if order \<le> 3 then InvokeOom else Fail))"
  by (simp add: next_step_def note_reclaim_def should_reclaim_retry_def may_invoke_oom_def Let_def
      PAGE_ALLOC_COSTLY_ORDER_def MAX_RECLAIM_RETRIES_def)

text \<open>
  One pass, with what the caller may rely on: an invariant \<open>P\<close> of the state that all three actions
  keep, and a postcondition \<open>Q\<close> of a successful allocation.
\<close>

locale slowpath_actions =
  fixes alloc :: "'s \<Rightarrow> ('s \<times> 'a option) option" and reclaim :: "'s \<Rightarrow> ('s \<times> bool) option"
    and oom :: "'s \<Rightarrow> ('s \<times> oom_outcome) option"
    and P :: "'s \<Rightarrow> bool" and Q :: "'s \<Rightarrow> 'a \<Rightarrow> bool"
  assumes alloc_ok: "P s \<Longrightarrow> returns (alloc s) (\<lambda>(s', r). case r of Some v \<Rightarrow> Q s' v | None \<Rightarrow> P s')"
    and reclaim_ok: "P s \<Longrightarrow> returns (reclaim s) (\<lambda>(s', b). P s')"
    and oom_ok: "P s \<Longrightarrow> returns (oom s) (\<lambda>(s', out). P s')"
begin

definition post :: "'s \<times> 'a option \<Rightarrow> bool" where
  "post sr \<longleftrightarrow> (case snd sr of Some v \<Rightarrow> Q (fst sr) v | None \<Rightarrow> P (fst sr))"

lemma alloc_then:
  assumes "P s" and "\<And>s'. P s' \<Longrightarrow> returns (k s') post"
  shows "returns (do { (s, r) \<leftarrow> alloc s; (case r of Some v \<Rightarrow> Some (s, Some v) | None \<Rightarrow> k s) }) post"
  using assms by (intro returns_bind [OF alloc_ok]) (auto simp: post_def split: option.splits)

text \<open>A costly order never reaches the killer and gives up after a bounded number of passes.\<close>

lemma costly_returns:
  assumes "3 < order" and "P s"
  shows "returns (slowpath_loop order alloc reclaim oom st s) post"
  using assms(2)
proof (induction "17 - no_progress_loops st" arbitrary: st s rule: less_induct)
  case less
  show ?case
  proof (subst slowpath_loop.simps, rule returns_bind [OF reclaim_ok [OF less.prems]], clarify)
    fix s1 p assume p1: "P s1"
    define n where "n = min (no_progress_loops st + 1) U32_MAX"
    have ns: "next_step st order p = (st\<lparr>no_progress_loops := n\<rparr>, if n \<le> 16 then Retry else Fail)"
      using assms(1) by (simp add: next_step_cases n_def Let_def)
    let ?rest = "\<lambda>(s, st', step). if step = Fail then Some (s, None) else
         alloc s \<bind> (\<lambda>(s, r). case r of None \<Rightarrow> slowpath_loop order alloc reclaim oom st' s | Some v \<Rightarrow> Some (s, Some v))"
    have "returns (?rest (s1, st\<lparr>no_progress_loops := n\<rparr>, if n \<le> 16 then Retry else Fail)) post"
    proof (cases "n \<le> 16")
      case True
      then have "17 - no_progress_loops (st\<lparr>no_progress_loops := n\<rparr>) < 17 - no_progress_loops st"
        by (simp add: n_def U32_MAX_def)
      then show ?thesis using True less.hyps by (simp add: alloc_then [OF p1])
    next
      case False
      then show ?thesis using p1 by (simp add: post_def)
    qed
    then show "returns ((case next_step st order p of
        (st, Retry) \<Rightarrow> Some (s1, st, Retry)
      | (st, InvokeOom) \<Rightarrow> oom s1 \<bind> (\<lambda>(s, outcome). Some (s, after_oom st outcome))
      | (st, Fail) \<Rightarrow> Some (s1, st, Fail)) \<bind> ?rest) post"
      by (auto simp: ns split: if_splits)
  qed
qed

end

text \<open>
  For the other orders the killer owns termination: the loop returns if reclaim that reports
  progress, and every killer call that does not report \<open>NoKillable\<close>, use up a resource that nothing
  in the loop replenishes (reclaimable pages and killable tasks).
\<close>

locale slowpath_progress = slowpath_actions alloc reclaim oom P Q
  for alloc :: "'s \<Rightarrow> ('s \<times> 'a option) option" and reclaim oom P Q +
  fixes mu :: "'s \<Rightarrow> nat"
  assumes alloc_mu: "P s \<Longrightarrow> alloc s = Some (s', None) \<Longrightarrow> mu s' \<le> mu s"
    and reclaim_mu: "P s \<Longrightarrow> reclaim s = Some (s', b) \<Longrightarrow> mu s' \<le> mu s \<and> (b \<longrightarrow> mu s' < mu s)"
    and oom_mu: "P s \<Longrightarrow> oom s = Some (s', out) \<Longrightarrow> out \<noteq> NoKillable \<Longrightarrow> mu s' < mu s"
begin

definition rank :: "'s \<Rightarrow> retry_state \<Rightarrow> nat" where
  "rank s st = 18 * mu s + (17 - no_progress_loops st)"

lemma alloc_then_rank:
  assumes "P s" and "\<And>s'. P s' \<Longrightarrow> mu s' \<le> mu s \<Longrightarrow> returns (k s') post"
  shows "returns (do { (s, r) \<leftarrow> alloc s; (case r of Some v \<Rightarrow> Some (s, Some v) | None \<Rightarrow> k s) }) post"
proof -
  obtain s' r where a: "alloc s = Some (s', r)" "case r of Some v \<Rightarrow> Q s' v | None \<Rightarrow> P s'"
    using alloc_ok [OF assms(1)] by (auto simp: returns_def)
  then show ?thesis using alloc_mu [OF assms(1)] assms(2) by (auto simp: post_def split: option.splits)
qed

lemma loop_returns: "P s \<Longrightarrow> returns (slowpath_loop order alloc reclaim oom st s) post"
proof (induction "rank s st" arbitrary: st s rule: less_induct)
  case less
  obtain s1 p where r: "reclaim s = Some (s1, p)" "P s1" using reclaim_ok [OF less.prems] by (auto simp: returns_def)
  note m1 = reclaim_mu [OF less.prems r(1)]
  define n where "n = (if p \<and> order \<le> 3 then 0 else min (no_progress_loops st + 1) U32_MAX)"
  let ?st = "st\<lparr>no_progress_loops := n\<rparr>"
  have ns: "next_step st order p = (?st, if n \<le> 16 then Retry else if order \<le> 3 then InvokeOom else Fail)"
    by (simp add: next_step_cases n_def Let_def)
  consider (retry) "n \<le> 16" | (fail) "\<not> n \<le> 16" "\<not> order \<le> 3" | (kill) "\<not> n \<le> 16" "order \<le> 3" by blast
  then show ?case
  proof cases
    case retry
    have dec: "rank s2 ?st < rank s st" if "mu s2 \<le> mu s1" for s2
      using that m1 retry by (cases p) (auto simp: rank_def n_def U32_MAX_def split: if_splits)
    have "returns (do { (s, r) \<leftarrow> alloc s1; (case r of Some v \<Rightarrow> Some (s, Some v)
        | None \<Rightarrow> slowpath_loop order alloc reclaim oom ?st s) }) post"
      by (intro alloc_then_rank [OF r(2)] less.hyps dec)
    then show ?thesis using r(1) ns retry by (subst slowpath_loop.simps) simp
  next
    case fail
    then show ?thesis using r ns by (subst slowpath_loop.simps) (simp add: post_def)
  next
    case kill
    obtain s2 out where o: "oom s1 = Some (s2, out)" "P s2" using oom_ok [OF r(2)] by (auto simp: returns_def)
    show ?thesis
    proof (cases "out = NoKillable")
      case True
      then show ?thesis using r(1) ns kill o by (subst slowpath_loop.simps) (simp add: after_oom_def post_def)
    next
      case False
      let ?st2 = "st\<lparr>oom_attempts := min (Suc (oom_attempts st)) U32_MAX, no_progress_loops := 0\<rparr>"
      have dec: "rank s3 ?st2 < rank s st" if "mu s3 \<le> mu s2" for s3
        using that m1 oom_mu [OF r(2) o(1) False] by (simp add: rank_def)
      have "returns (do { (s, r) \<leftarrow> alloc s2; (case r of Some v \<Rightarrow> Some (s, Some v)
          | None \<Rightarrow> slowpath_loop order alloc reclaim oom ?st2 s) }) post"
        by (intro alloc_then_rank [OF o(2)] less.hyps dec)
      then show ?thesis using r(1) ns kill o(1) False by (subst slowpath_loop.simps) (simp add: after_oom_def)
    qed
  qed
qed

end

end
