(* ===== verification/Pmm.thy ===== *)
theory Pmm
  imports Pagesets Oom
begin

text \<open>
  The interface of the physical memory manager: construction (\<open>buddy/construct.rs\<close>), allocation and
  queries (\<open>buddy/api.rs\<close>), freeing (\<open>buddy/free.rs\<close>), boot reservations (\<open>buddy/reserve.rs\<close>), the
  derived thresholds (\<open>recompute_derived\<close>, \<open>buddy/zones.rs\<close>), the hibernation marks and the
  invariant walk (\<open>buddy/audit.rs\<close>).

  The context of a call is the record \<open>env\<close>: the CPU the call runs on, the online CPU count, whether
  the caller may sleep, and the reclaim and out-of-memory entries of the kernel, which may free
  pages of this allocator before the call continues.
\<close>

datatype pmm_error = InvalidOrder | NoMem | OutOfRange | Corrupt | Overlap

record env =
  current_cpu :: "pmm \<Rightarrow> nat"
  online_count :: nat
  in_atomic :: bool
  io_flusher :: bool
  reclaim_once :: "pmm \<Rightarrow> (pmm \<times> bool) option"
  invoke_oom :: "pmm \<Rightarrow> (pmm \<times> oom_outcome) option"

section \<open>Derived thresholds\<close>

definition add_marks :: "zone_watermarks \<Rightarrow> zone_watermarks \<Rightarrow> zone_watermarks" where
  "add_marks a b = \<lparr>wm_min = wm_min a + wm_min b, wm_low = wm_low a + wm_low b,
                    wm_high = wm_high a + wm_high b, wm_promo = wm_promo a + wm_promo b\<rparr>"

definition zone_marks :: "pmm \<Rightarrow> watermark_tunables \<Rightarrow> u64 \<Rightarrow> nat \<Rightarrow> zone_watermarks" where
  "zone_marks s t all_pages zone =
     derive_zone_watermarks (managed s zone) all_pages t PAGE_SIZE_BYTES (zone = zone_index MovableZone)"

definition recompute_derived :: "pmm \<Rightarrow> pmm \<times> (u64 \<times> zone_watermarks) option" where
  "recompute_derived s =
     (let s = s\<lparr>reserve := lowmem_reserve (map (managed s) [0..<NR_ZONES]) DEFAULT_LOWMEM_RESERVE_RATIO\<rparr>;
          all_pages = sum_list (map (managed s) [0..<NR_ZONES])
      in case tunables s of
           None \<Rightarrow> (s, None)
         | Some t \<Rightarrow>
             (s\<lparr>wmark := (\<lambda>zone. if zone < NR_ZONES then zone_marks s t all_pages zone else wmark s zone)\<rparr>,
              Some (all_pages, fold (\<lambda>zone agg. add_marks agg (zone_marks s t all_pages zone)) [0..<NR_ZONES]
                             zone_watermarks_default)))"

definition refresh_pcp_zones :: "pmm \<Rightarrow> pmm" where
  "refresh_pcp_zones s =
     s\<lparr>pcp_zone := (\<lambda>zone. if zone < NR_ZONES then cfg_new (wmark s zone) (reserve s ! zone) (managed s zone)
                             else pcp_zone s zone)\<rparr>"

text \<open>The published words; a managed total of zero reads as unpublished (\<open>watermark/cell.rs\<close>).\<close>

definition publish :: "pmm \<Rightarrow> (u64 \<times> zone_watermarks) option \<Rightarrow> pmm" where
  "publish s derived =
     (case derived of
        None \<Rightarrow> s
      | Some (n, agg) \<Rightarrow> s\<lparr>published := (if n = 0 then None else Some (n, agg))\<rparr>)"

definition refresh_watermarks :: "pmm \<Rightarrow> watermark_tunables \<Rightarrow> pmm" where
  "refresh_watermarks s t =
     (let (s, derived) = recompute_derived (s\<lparr>tunables := Some t\<rparr>)
      in publish (refresh_pcp_zones s) derived)"

section \<open>Construction\<close>

type_synonym region = "u64 \<times> u64"

fun measure_regions :: "region list \<Rightarrow> u64 \<Rightarrow> u64 \<Rightarrow> (u64 \<times> u64) option" where
  "measure_regions [] pfn_end n = Some (pfn_end, n)"
| "measure_regions ((start, len) # rs) pfn_end n = do {
     e \<leftarrow> checked_add start len;
     t \<leftarrow> checked_add n len;
     measure_regions rs (if e > pfn_end then e else pfn_end) t
   }"

fun regions_overlap :: "region list \<Rightarrow> bool" where
  "regions_overlap [] = False"
| "regions_overlap ((a, alen) # rs) =
     ((alen \<noteq> 0 \<and> (\<exists>(b, blen) \<in> set rs. blen \<noteq> 0 \<and> a < b + blen \<and> b < a + alen)) \<or> regions_overlap rs)"

definition order_words :: "u64 \<Rightarrow> nat \<Rightarrow> nat" where
  "order_words lim order = ((lim + 2 ^ order - 1) div 2 ^ order + 63) div 64"

fun seed_regions :: "pmm \<Rightarrow> region list \<Rightarrow> pmm option" where
  "seed_regions s [] = Some s"
| "seed_regions s ((start, len) # rs) = do { s \<leftarrow> seed_range s start (start + len); seed_regions s rs }"

text \<open>
  The state before seeding. \<open>bitmap_storage\<close> of the backing returns zero-filled words of the
  requested length, \<open>pcp_storage\<close> empty lists; \<open>m\<close> is the content of the pages.
\<close>

definition blank_pmm :: "page_mem \<Rightarrow> zone_layout \<Rightarrow> u64 \<Rightarrow> bitmap \<Rightarrow> u64 \<Rightarrow> pmm" where
  "blank_pmm m lay lim pb n =
     \<lparr>mem = m, pfn_max = lim, bitmaps = (\<lambda>order. replicate (order_words lim order) 0), layout = lay,
      zone_list = zonelist_default, pageblocks = pb, free_heads = (\<lambda>_. PFN_NULL), free_count = (\<lambda>_. 0),
      managed = (\<lambda>_. 0), present = (\<lambda>_. 0), spanned = (\<lambda>zone. spanned_pages (lay ! zone)),
      reserve = replicate NR_ZONES (replicate NR_ZONES 0), wmark = (\<lambda>_. zone_watermarks_default),
      tunables = None, allocated = 0, reserved = 0, initial_free = n, alloc_events = 0,
      alloc_event_pages = 0, free_events = 0, free_event_pages = 0,
      pcp_bitmap = replicate ((lim + 63) div 64) 0, hibernate_forbidden = replicate ((lim + 63) div 64) 0,
      pcp = (\<lambda>_. pl_empty), zone_free = (\<lambda>_. 0), pcp_free = (\<lambda>_. 0),
      pcp_zone = (\<lambda>_. cfg_new zone_watermarks_default (replicate NR_ZONES 0) 0), pcp_alloc_events = 0,
      pcp_alloc_event_pages = 0, pcp_free_events = 0, pcp_free_event_pages = 0, published = None\<rparr>"

definition init_zoned ::
    "(u64 \<Rightarrow> u64 \<Rightarrow> zone_limits) \<Rightarrow> page_mem \<Rightarrow> region list \<Rightarrow> zone_limits option \<Rightarrow> (pmm_error + pmm) option" where
  "init_zoned arch_default m regions limits =
     (if regions = [] then Some (Inl OutOfRange)
      else case measure_regions regions 0 0 of
        None \<Rightarrow> Some (Inl OutOfRange)
      | Some (lim, n) \<Rightarrow>
          if regions_overlap regions then Some (Inl Overlap)
          else do {
            kassert (lim + 2 ^ MAX_ORDER \<le> U64_MAX);
            let lay = layout_new (case limits of Some l \<Rightarrow> l | None \<Rightarrow> arch_default lim PAGE_SIZE_BYTES) lim;
            let movable = layout_span lay MovableZone;
            pb \<leftarrow> pb_set_range (replicate (pb_words_for lim) 0) (start_pfn movable) (end_pfn movable) Movable;
            s \<leftarrow> seed_regions (blank_pmm m lay lim pb n) regions;
            let s = s\<lparr>zone_list := zonelist_build (map (\<lambda>zone. managed s zone > 0) [0..<NR_ZONES])\<rparr>;
            let s = fst (recompute_derived s);
            let s = s\<lparr>zone_free := (\<lambda>zone. if zone < NR_ZONES then zone_free_pages s zone else 0)\<rparr>;
            Some (Inr (refresh_pcp_zones s))
          })"

section \<open>Queries\<close>

definition free_pages :: "pmm \<Rightarrow> u64" where
  "free_pages s = sum_list (map (zone_free s) [0..<NR_ZONES])"

definition cached_pages :: "pmm \<Rightarrow> u64" where
  "cached_pages s = sum_list (map (pcp_free s) [0..<NR_ZONES])"

definition free_orders :: "pmm \<Rightarrow> u64 list" where
  "free_orders s =
     map (\<lambda>order. sum_list (map (\<lambda>zone. sum_list (map (\<lambda>mt. free_count s (zone, mt, order)) all_types)) [0..<NR_ZONES]))
       [0..<ORDERS]"

definition allocated_pages :: "pmm \<Rightarrow> u64" where
  "allocated_pages s = allocated s - cached_pages s"

record pmm_snapshot =
  managed_pages :: u64
  snap_free_pages :: u64
  snap_allocated_pages :: u64
  reserved_pages :: u64
  snap_alloc_events :: u64
  snap_alloc_event_pages :: u64
  snap_free_events :: u64
  snap_free_event_pages :: u64

definition snapshot :: "pmm \<Rightarrow> pmm_snapshot" where
  "snapshot s =
     \<lparr>managed_pages = initial_free s, snap_free_pages = free_pages s,
      snap_allocated_pages = allocated s - cached_pages s - reserved s, reserved_pages = reserved s,
      snap_alloc_events = wrapping_add (alloc_events s) (pcp_alloc_events s),
      snap_alloc_event_pages = wrapping_add (alloc_event_pages s) (pcp_alloc_event_pages s),
      snap_free_events = wrapping_add (free_events s) (pcp_free_events s),
      snap_free_event_pages = wrapping_add (free_event_pages s) (pcp_free_event_pages s)\<rparr>"

record zone_stat =
  zs_zone :: zone_type
  zs_start_pfn :: u64
  zs_spanned_pages :: u64
  zs_present_pages :: u64
  zs_managed_pages :: u64
  zs_free_pages :: u64
  zs_free_orders :: "u64 list"
  zs_wmark :: zone_watermarks
  zs_lowmem_reserve :: "u64 list"

definition zone_snapshot :: "pmm \<Rightarrow> zone_stat list" where
  "zone_snapshot s =
     map (\<lambda>zone. \<lparr>zs_zone = (case zone_from_index zone of Some z \<Rightarrow> z | None \<Rightarrow> MovableZone),
                  zs_start_pfn = start_pfn (layout s ! zone), zs_spanned_pages = spanned s zone,
                  zs_present_pages = present s zone, zs_managed_pages = managed s zone,
                  zs_free_pages = zone_free s zone, zs_free_orders = free_area s zone,
                  zs_wmark = wmark s zone, zs_lowmem_reserve = reserve s ! zone\<rparr>) [0..<NR_ZONES]"

section \<open>Allocation\<close>

definition alloc_gfp_args :: "gfp \<Rightarrow> pmm_error + (nat \<times> migrate_type)" where
  "alloc_gfp_args flags =
     (case gfp_zone flags of
        Inl _ \<Rightarrow> Inl InvalidOrder
      | Inr zone \<Rightarrow> (case gfp_migratetype flags of Inl _ \<Rightarrow> Inl InvalidOrder | Inr mt \<Rightarrow> Inr (zone_index zone, mt)))"

definition area_for :: "pmm \<Rightarrow> nat \<Rightarrow> nat \<Rightarrow> u64 list" where
  "area_for s order zone = (if order = 0 then area_with_cached s zone else free_area s zone)"

text \<open>
  The walk over the entries of the fallback list. The lock is held, so the list itself does not
  change during the walk.
\<close>

fun take_zones ::
    "pmm \<Rightarrow> nat \<Rightarrow> nat \<Rightarrow> alloc_wmark \<Rightarrow> migrate_type \<Rightarrow> nat list \<Rightarrow> (pmm \<times> (u64 \<times> nat) option) option" where
  "take_zones s order hi w mt [] = Some (s, None)"
| "take_zones s order hi w mt (zone # zones) =
     (if zone > hi then take_zones s order hi w mt zones
      else case zone_from_index zone of
        None \<Rightarrow> take_zones s order hi w mt zones
      | Some z \<Rightarrow>
          if \<not> zone_watermark_ok z order (wmark_of s zone w) w (reserve s) hi (area_for s order zone)
          then take_zones s order hi w mt zones
          else do {
            (s, r) \<leftarrow> take_block s zone order mt;
            (case r of
               Some pfn \<Rightarrow> Some (s, Some (pfn, zone))
             | None \<Rightarrow> take_zones s order hi w mt zones)
          })"

definition zonelist_entries :: "zonelist \<Rightarrow> nat list" where
  "zonelist_entries zl = map (\<lambda>pos. the (zonelist_entry zl pos)) [0..<zl_len zl]"

definition global_attempt :: "pmm \<Rightarrow> nat \<Rightarrow> nat \<Rightarrow> alloc_wmark \<Rightarrow> migrate_type \<Rightarrow> (pmm \<times> u64 option) option" where
  "global_attempt s order hi w mt = do {
     (s, taken) \<leftarrow> take_zones s order hi w mt (zonelist_entries (zone_list s));
     (case taken of
        None \<Rightarrow> Some (s, None)
      | Some (pfn, zone) \<Rightarrow> do {
          verify_poison s pfn;
          let s = s\<lparr>allocated := allocated s + 2 ^ order,
                    alloc_events := wrapping_add (alloc_events s) 1,
                    alloc_event_pages := wrapping_add (alloc_event_pages s) (2 ^ order),
                    zone_free := (zone_free s)(zone := wrapping_sub (zone_free s zone) (2 ^ order))\<rparr>;
          Some (s\<lparr>mem := zero_pages (mem s) pfn order\<rparr>, Some pfn)
        })
   }"

text \<open>The \<open>loop\<close> of \<open>alloc_inner_zoned\<close>: a second attempt only after a drain, and no third.\<close>

definition alloc_global :: "pmm \<Rightarrow> nat \<Rightarrow> nat \<Rightarrow> alloc_wmark \<Rightarrow> migrate_type \<Rightarrow> (pmm \<times> (pmm_error + u64)) option" where
  "alloc_global s order hi w mt = do {
     (s, r) \<leftarrow> global_attempt s order hi w mt;
     (case r of
        Some pfn \<Rightarrow> Some (s, Inr pfn)
      | None \<Rightarrow> do {
          (s, drained) \<leftarrow> drain_pcp_below s hi;
          (if \<not> drained then Some (s, Inl NoMem)
           else do {
             (s, r) \<leftarrow> global_attempt s order hi w mt;
             (case r of Some pfn \<Rightarrow> Some (s, Inr pfn) | None \<Rightarrow> Some (s, Inl NoMem))
           })
        })
   }"

definition alloc_inner_zoned ::
    "nat \<Rightarrow> pmm \<Rightarrow> nat \<Rightarrow> nat \<Rightarrow> alloc_wmark \<Rightarrow> migrate_type \<Rightarrow> (pmm \<times> (pmm_error + u64)) option" where
  "alloc_inner_zoned cpu s order hi w mt =
     (if order > MAX_ORDER then Some (s, Inl InvalidOrder)
      else do {
        (s, r) \<leftarrow> (if order = 0 then alloc_from_pcp cpu s hi w mt else Some (s, None));
        (case r of
           Some pfn \<Rightarrow> Some (s\<lparr>mem := zero_pages (mem s) pfn order\<rparr>, Inr pfn)
         | None \<Rightarrow> alloc_global s order hi w mt)
      })"

definition before_allocation :: "env \<Rightarrow> pmm \<Rightarrow> u64 \<Rightarrow> pmm option" where
  "before_allocation e s requested_pages =
     (case allocation_policy (map_option snd (published s)) (free_pages s) requested_pages of
        DirectReclaim \<Rightarrow>
          (if direct_reclaim_allowed (in_atomic e) (io_flusher e) then do { (s, _) \<leftarrow> reclaim_once e s; Some s } else Some s)
      | _ \<Rightarrow> Some s)"

definition ok_of :: "pmm \<times> (pmm_error + u64) \<Rightarrow> pmm \<times> u64 option" where
  "ok_of sr = (case sr of (s, Inr pfn) \<Rightarrow> (s, Some pfn) | (s, Inl _) \<Rightarrow> (s, None))"

definition alloc_slowpath ::
    "env \<Rightarrow> pmm \<Rightarrow> nat \<Rightarrow> nat \<Rightarrow> gfp \<Rightarrow> migrate_type \<Rightarrow> (pmm \<times> (pmm_error + u64)) option" where
  "alloc_slowpath e s order hi flags mt = do {
     let allowed = slowpath_allowed (in_atomic e);
     let w = slowpath_wmark (grants_min_reserve flags) allowed;
     (s, r) \<leftarrow> alloc_inner_zoned (current_cpu e s) s order hi w mt;
     (case r of
        Inr pfn \<Rightarrow> Some (s, Inr pfn)
      | Inl _ \<Rightarrow> do {
          (s, v) \<leftarrow> run_slowpath order allowed
             (\<lambda>s. map_option ok_of (alloc_inner_zoned (current_cpu e s) s order hi w mt))
             (reclaim_once e) (invoke_oom e) s;
          (case v of Some pfn \<Rightarrow> Some (s, Inr pfn) | None \<Rightarrow> Some (s, Inl NoMem))
        })
   }"

definition alloc_gfp :: "env \<Rightarrow> pmm \<Rightarrow> nat \<Rightarrow> gfp \<Rightarrow> (pmm \<times> (pmm_error + u64)) option" where
  "alloc_gfp e s order flags =
     (case alloc_gfp_args flags of
        Inl err \<Rightarrow> Some (s, Inl err)
      | Inr (hi, mt) \<Rightarrow> do {
          s \<leftarrow> (if order \<le> MAX_ORDER then before_allocation e s (2 ^ order) else Some s);
          (s, r) \<leftarrow> alloc_inner_zoned (current_cpu e s) s order hi Low mt;
          (if r = Inl NoMem then alloc_slowpath e s order hi flags mt else Some (s, r))
        })"

definition alloc :: "env \<Rightarrow> pmm \<Rightarrow> nat \<Rightarrow> (pmm \<times> (pmm_error + u64)) option" where
  "alloc e s order = alloc_gfp e s order 0"

definition alloc_gfp_nowait :: "env \<Rightarrow> pmm \<Rightarrow> nat \<Rightarrow> gfp \<Rightarrow> (pmm \<times> (pmm_error + u64)) option" where
  "alloc_gfp_nowait e s order flags =
     (case alloc_gfp_args flags of
        Inl err \<Rightarrow> Some (s, Inl err)
      | Inr (hi, mt) \<Rightarrow> alloc_inner_zoned (current_cpu e s) s order hi Low mt)"

section \<open>Freeing\<close>

definition free_block :: "env \<Rightarrow> pmm \<Rightarrow> u64 \<Rightarrow> nat \<Rightarrow> pmm option" where
  "free_block e s pfn order = do {
     kassert (order \<le> MAX_ORDER);
     kassert (pfn < pfn_max s);
     kassert (pfn mod 2 ^ order = 0);
     (if order = 0 then free_to_pcp (current_cpu e s) (online_count e) s pfn
      else do {
        let zone = index_of (layout s) pfn;
        kassert (zone < NR_ZONES);
        not_buddy_marked s pfn [order..<Suc MAX_ORDER];
        s \<leftarrow> return_to_buddy s pfn order;
        a \<leftarrow> checked_sub (allocated s) (2 ^ order);
        Some (s\<lparr>allocated := a, free_events := wrapping_add (free_events s) 1,
                free_event_pages := wrapping_add (free_event_pages s) (2 ^ order),
                zone_free := (zone_free s)(zone := wrapping_add (zone_free s zone) (2 ^ order))\<rparr>)
      })
   }"

definition gfp_rank :: "gfp \<Rightarrow> nat" where
  "gfp_rank g = (if g AND 5 = 0 then 2 else if g AND 1 = 0 then 1 else 0)"

lemma narrow_zone_bits_rank: "narrow_zone_bits g = Some g' \<Longrightarrow> gfp_rank g' < gfp_rank g"
  by (auto simp: narrow_zone_bits_def gfp_rank_def gfp_flag_defs Let_def bit.conj_disj_distrib2 and.assoc split: if_splits)

text \<open>\<open>alloc_below\<close>: the loop narrows the zone bits until the block ends below the bound.\<close>

function alloc_below_loop :: "env \<Rightarrow> pmm \<Rightarrow> nat \<Rightarrow> u64 \<Rightarrow> gfp \<Rightarrow> (pmm \<times> (pmm_error + u64)) option" where
  "alloc_below_loop e s order limit flags = do {
     (s, r) \<leftarrow> alloc_gfp e s order flags;
     (case r of
        Inl err \<Rightarrow> Some (s, Inl err)
      | Inr pfn \<Rightarrow>
          (if pfn + 2 ^ order \<le> U64_MAX \<and> pfn + 2 ^ order \<le> limit then Some (s, Inr pfn)
           else do {
             s \<leftarrow> free_block e s pfn order;
             (case narrow_zone_bits flags of
                None \<Rightarrow> Some (s, Inl NoMem)
              | Some g \<Rightarrow> alloc_below_loop e s order limit g)
           }))
   }"
  by pat_completeness auto

termination
  by (relation "measure (\<lambda>(e, s, order, limit, flags). gfp_rank flags)") (auto dest: narrow_zone_bits_rank)

declare alloc_below_loop.simps [simp del]

definition alloc_below :: "env \<Rightarrow> pmm \<Rightarrow> nat \<Rightarrow> u64 \<Rightarrow> (pmm \<times> (pmm_error + u64)) option" where
  "alloc_below e s order limit =
     (if order > MAX_ORDER then Some (s, Inl InvalidOrder)
      else if limit < 2 ^ order then Some (s, Inl NoMem)
      else alloc_below_loop e s order limit (gfp_for_pfn_limit (layout s) limit))"

section \<open>Boot reservations\<close>

definition hibernate_forbid :: "pmm \<Rightarrow> u64 \<Rightarrow> pmm option" where
  "hibernate_forbid s pfn =
     (if pfn \<ge> pfn_max s then Some s
      else do { bm \<leftarrow> bm_set (hibernate_forbidden s) pfn; Some (s\<lparr>hibernate_forbidden := bm\<rparr>) })"

definition hibernate_allow :: "pmm \<Rightarrow> u64 \<Rightarrow> pmm option" where
  "hibernate_allow s pfn =
     (if pfn \<ge> pfn_max s then Some s
      else do { bm \<leftarrow> bm_clear (hibernate_forbidden s) pfn; Some (s\<lparr>hibernate_forbidden := bm\<rparr>) })"

definition hibernate_pfn_forbidden :: "pmm \<Rightarrow> u64 \<Rightarrow> bool option" where
  "hibernate_pfn_forbidden s pfn = (if pfn < pfn_max s then bm_get (hibernate_forbidden s) pfn else Some False)"

fun containing_order :: "pmm \<Rightarrow> u64 \<Rightarrow> nat list \<Rightarrow> nat option option" where
  "containing_order s p [] = Some None"
| "containing_order s p (order # orders) = do {
     b \<leftarrow> bitmap_get s order (p div 2 ^ order);
     (if b then Some (Some order) else containing_order s p orders)
   }"

fun reserve_split :: "pmm \<Rightarrow> nat \<Rightarrow> u64 \<Rightarrow> u64 \<Rightarrow> nat \<Rightarrow> migrate_type \<Rightarrow> (pmm \<times> u64) option" where
  "reserve_split s zone p blk 0 mt = Some (s, blk)"
| "reserve_split s zone p blk (Suc order) mt =
     (let half = 2 ^ order; buddy = blk + half in
      if p \<ge> buddy then do { s \<leftarrow> enlist s zone blk order mt; reserve_split s zone p buddy order mt }
      else do { s \<leftarrow> enlist s zone buddy order mt; reserve_split s zone p blk order mt })"

definition reserve_page :: "pmm \<Rightarrow> bool \<Rightarrow> u64 \<Rightarrow> pmm option" where
  "reserve_page s nosave p = do {
     k \<leftarrow> containing_order s p [0..<Suc MAX_ORDER];
     (case k of
        None \<Rightarrow> (if nosave then hibernate_forbid s p else Some s)
      | Some order \<Rightarrow> do {
          let blk = p div 2 ^ order * 2 ^ order;
          let zone = zi s blk;
          mt \<leftarrow> migratetype s blk;
          s \<leftarrow> delist s zone blk order mt;
          (s, blk) \<leftarrow> reserve_split s zone p blk order mt;
          kassert (blk = p);
          n \<leftarrow> checked_sub (managed s zone) 1;
          let s = s\<lparr>allocated := allocated s + 1, reserved := reserved s + 1, managed := (managed s)(zone := n)\<rparr>;
          s \<leftarrow> (if nosave then hibernate_forbid s p else Some s);
          Some (s\<lparr>zone_free := (zone_free s)(zone := wrapping_sub (zone_free s zone) 1)\<rparr>)
        })
   }"

fun reserve_pages :: "pmm \<Rightarrow> bool \<Rightarrow> u64 list \<Rightarrow> pmm option" where
  "reserve_pages s nosave [] = Some s"
| "reserve_pages s nosave (p # ps) = do { s \<leftarrow> reserve_page s nosave p; reserve_pages s nosave ps }"

fun all_free :: "pmm \<Rightarrow> u64 list \<Rightarrow> bool option" where
  "all_free s [] = Some True"
| "all_free s (p # ps) = do {
     k \<leftarrow> containing_order s p [0..<Suc MAX_ORDER];
     (if k = None then Some False else all_free s ps)
   }"

definition reserve_early_inner :: "pmm \<Rightarrow> u64 \<Rightarrow> u64 \<Rightarrow> bool \<Rightarrow> bool \<Rightarrow> (pmm \<times> (pmm_error + unit)) option" where
  "reserve_early_inner s start len nosave exact =
     (case checked_add start len of
        None \<Rightarrow> Some (s, Inl OutOfRange)
      | Some e \<Rightarrow>
          if e > pfn_max s then Some (s, Inl OutOfRange)
          else do {
            ok \<leftarrow> (if exact then all_free s [start..<e] else Some True);
            (if \<not> ok then Some (s, Inl Overlap)
             else do {
               s \<leftarrow> reserve_pages s nosave [start..<e];
               let (s, derived) = recompute_derived s;
               Some (publish (refresh_pcp_zones s) derived, Inr ())
             })
          })"

definition reserve_early :: "pmm \<Rightarrow> u64 \<Rightarrow> u64 \<Rightarrow> (pmm \<times> (pmm_error + unit)) option" where
  "reserve_early s start len = reserve_early_inner s start len False False"

definition reserve_early_nosave :: "pmm \<Rightarrow> u64 \<Rightarrow> u64 \<Rightarrow> (pmm \<times> (pmm_error + unit)) option" where
  "reserve_early_nosave s start len = reserve_early_inner s start len True False"

definition reserve_early_exact :: "pmm \<Rightarrow> u64 \<Rightarrow> u64 \<Rightarrow> (pmm \<times> (pmm_error + unit)) option" where
  "reserve_early_exact s start len = reserve_early_inner s start len True True"

section \<open>The invariant walk\<close>

text \<open>A list walk ends only if the links do, so it is a partial function.\<close>

partial_function (option) audit_list :: "pmm \<Rightarrow> nat \<Rightarrow> migrate_type \<Rightarrow> nat \<Rightarrow> u64 \<Rightarrow> u64 \<Rightarrow> u64 option" where
  "audit_list s zone mt order cur n =
     (if cur = PFN_NULL then Some n
      else do {
        b \<leftarrow> bitmap_get s order (cur div 2 ^ order);
        kassert b;
        kassert (cur mod 2 ^ order = 0);
        kassert (span_contains (layout s ! zone) cur);
        kassert (cur + 2 ^ order \<le> end_pfn (layout s ! zone));
        t \<leftarrow> migratetype s cur;
        kassert (t = mt);
        kassert (read_u64 (mem s) cur OFF_POISON = POISON_MAGIC);
        audit_list s zone mt order (next_of (mem s) cur) (n + 1)
      })"

fun audit_lists ::
    "pmm \<Rightarrow> nat \<Rightarrow> (nat \<times> migrate_type) list \<Rightarrow> u64 \<Rightarrow> (nat \<Rightarrow> u64) \<Rightarrow> (u64 \<times> (nat \<Rightarrow> u64)) option" where
  "audit_lists s order [] counted by_zone = Some (counted, by_zone)"
| "audit_lists s order ((zone, mt) # ks) counted by_zone = do {
     n \<leftarrow> audit_list s zone mt order (free_heads s (zone, mt, order)) 0;
     kassert (n = free_count s (zone, mt, order));
     audit_lists s order ks (counted + n) (by_zone(zone := by_zone zone + n * 2 ^ order))
   }"

definition zone_types :: "(nat \<times> migrate_type) list" where
  "zone_types = [(zone, mt). zone \<leftarrow> [0..<NR_ZONES], mt \<leftarrow> all_types]"

fun audit_orders :: "pmm \<Rightarrow> nat list \<Rightarrow> u64 \<Rightarrow> (nat \<Rightarrow> u64) \<Rightarrow> (u64 \<times> (nat \<Rightarrow> u64)) option" where
  "audit_orders s [] total_global by_zone = Some (total_global, by_zone)"
| "audit_orders s (order # orders) total_global by_zone = do {
     (counted, by_zone) \<leftarrow> audit_lists s order zone_types 0 by_zone;
     kassert (bm_popcount (bitmaps s order) = counted);
     audit_orders s orders (total_global + counted * 2 ^ order) by_zone
   }"

partial_function (option) audit_pcp_list :: "pmm \<Rightarrow> nat \<Rightarrow> migrate_type \<Rightarrow> u64 \<Rightarrow> u64 \<Rightarrow> u64 \<Rightarrow> u64 option" where
  "audit_pcp_list s zone mt count cur n =
     (if cur = PFN_NULL then Some n
      else do {
        kassert (cur < pfn_max s);
        kassert (index_of (layout s) cur = zone);
        t \<leftarrow> migratetype s cur;
        kassert (t = mt);
        b \<leftarrow> pcp_marked s cur;
        kassert b;
        not_buddy_marked s cur [0..<ORDERS];
        kassert (read_u64 (mem s) cur OFF_POISON = POISON_MAGIC);
        kassert (mem s cur OFF_ORDER = 0);
        let nxt = next_of (mem s) cur;
        kassert (nxt = PFN_NULL \<or> nxt < pfn_max s);
        kassert (nxt \<noteq> cur);
        kassert (n + 1 \<le> count);
        audit_pcp_list s zone mt count nxt (n + 1)
      })"

definition pcp_slots :: "(nat \<times> migrate_type \<times> nat) list" where
  "pcp_slots = [(zone, mt, cpu). zone \<leftarrow> [0..<NR_ZONES], mt \<leftarrow> all_types, cpu \<leftarrow> [0..<MAX_CPUS]]"

fun audit_pcps :: "pmm \<Rightarrow> (nat \<times> migrate_type \<times> nat) list \<Rightarrow> (nat \<Rightarrow> u64) \<Rightarrow> (nat \<Rightarrow> u64) option" where
  "audit_pcps s [] by_zone = Some by_zone"
| "audit_pcps s ((zone, mt, cpu) # slots) by_zone = do {
     let l = pcp s (pcp_key cpu zone mt);
     n \<leftarrow> audit_pcp_list s zone mt (pl_count l) (pl_head l) 0;
     kassert (n = pl_count l);
     audit_pcps s slots (by_zone(zone := by_zone zone + n))
   }"

definition audit :: "pmm \<Rightarrow> unit option" where
  "audit s = do {
     (total_global, global_by_zone) \<leftarrow> audit_orders s [0..<ORDERS] 0 (\<lambda>_. 0);
     pcp_by_zone \<leftarrow> audit_pcps s pcp_slots (\<lambda>_. 0);
     let pcp_total = sum_list (map pcp_by_zone [0..<NR_ZONES]);
     kassert (bm_popcount (pcp_bitmap s) = pcp_total);
     kassert (list_all (\<lambda>zone. pcp_free s zone = pcp_by_zone zone \<and>
                                zone_free s zone = global_by_zone zone + pcp_by_zone zone) [0..<NR_ZONES]);
     a \<leftarrow> checked_sub (allocated s) pcp_total;
     kassert (total_global + pcp_total + a = initial_free s)
   }"

end
