(* ===== verification/Pagesets_Inv.thy ===== *)
theory Pagesets_Inv
  imports Pagesets
begin

text \<open>
  The pagesets keep their shape. A list of pages described by \<open>pl_ok\<close> is linked from its head, as
  long as its count says, and all its pages carry the header and the class of the list; \<open>pmm_ok\<close> is
  the invariant of the whole allocator state, with the ghost content \<open>L\<close> of every pageset, the
  seeded pages \<open>M\<close> and the permanently reserved ones \<open>R\<close>.
\<close>

section \<open>One list\<close>

definition pcp_page :: "pmm \<Rightarrow> nat \<Rightarrow> migrate_type \<Rightarrow> nat \<Rightarrow> bool" where
  "pcp_page s zone mt p \<longleftrightarrow> p < pfn_max s \<and> zi s p = zone \<and> migratetype s p = Some mt \<and>
     poisoned (mem s) p \<and> mem s p OFF_ORDER = 0"

definition pl_ok :: "pmm \<Rightarrow> nat \<Rightarrow> migrate_type \<Rightarrow> pcp_list \<Rightarrow> nat list \<Rightarrow> bool" where
  "pl_ok s zone mt l xs \<longleftrightarrow> sll (next_of (mem s)) (pl_head l) xs \<and> pl_count l = length xs \<and> distinct xs \<and>
     (\<forall>p \<in> set xs. pcp_page s zone mt p)"

lemma header_cong:
  assumes "m' p = m p"
  shows "next_of m' p = next_of m p" "prev_of m' p = prev_of m p" "poisoned m' p = poisoned m p" "order_of m' p = order_of m p"
  using assms by (auto simp: next_of_def prev_of_def poisoned_def order_of_def intro!: read_u64_cong arg_cong [where f = "\<lambda>v. v = _"])

text \<open>The state may change outside the pages of a list.\<close>

definition keeps :: "pmm \<Rightarrow> nat set \<Rightarrow> pmm \<Rightarrow> bool" where
  "keeps s A s' \<longleftrightarrow> pfn_max s' = pfn_max s \<and> layout s' = layout s \<and>
     (\<forall>p \<in> A. mem s' p = mem s p \<and> migratetype s' p = migratetype s p)"

lemma keeps_refl [simp]: "keeps s A s"
  by (simp add: keeps_def)

lemma keeps_trans: "keeps s A t \<Longrightarrow> keeps t B u \<Longrightarrow> C \<subseteq> A \<Longrightarrow> C \<subseteq> B \<Longrightarrow> keeps s C u"
  unfolding keeps_def by (metis subsetD)

lemma keeps_subset: "keeps s A t \<Longrightarrow> B \<subseteq> A \<Longrightarrow> keeps s B t"
  unfolding keeps_def by blast

lemma keeps_zi: "keeps s A s' \<Longrightarrow> zi s' = zi s"
  by (rule zi_cong) (simp add: keeps_def)

lemma pl_ok_keeps:
  assumes "pl_ok s zone mt l xs" and "keeps s A s'" and "set xs \<subseteq> A"
  shows "pl_ok s' zone mt l xs"
proof -
  have z: "zi s' = zi s" using assms(2) by (rule keeps_zi)
  have eq: "mem s' p = mem s p \<and> migratetype s' p = migratetype s p" if "p \<in> set xs" for p
    using that assms(2,3) unfolding keeps_def by blast
  have "sll (next_of (mem s')) (pl_head l) xs \<longleftrightarrow> sll (next_of (mem s)) (pl_head l) xs"
    using eq header_cong(1) by (intro sll_cong) blast
  moreover have "pcp_page s' zone mt p" if "p \<in> set xs" for p
    using that assms(1,2) eq [OF that] header_cong(3) [of "mem s'" p "mem s"]
    by (simp add: pl_ok_def pcp_page_def z keeps_def)
  ultimately show ?thesis using assms(1) by (simp add: pl_ok_def)
qed

lemma pl_ok_empty [simp]: "pl_ok s zone mt pl_empty []"
  by (simp add: pl_ok_def pl_empty_def)

lemma pl_ok_Nil: "pl_ok s zone mt l [] \<Longrightarrow> l = pl_empty"
  by (simp add: pl_ok_def pl_empty_def)

lemma pl_pop_ok:
  assumes sh: "shape_ok s" and l: "pl_ok s zone mt l xs"
  shows "pl_pop (mem s) (pfn_max s) l =
    (case xs of [] \<Rightarrow> Some (l, None)
     | p # ys \<Rightarrow> Some (\<lparr>pl_head = next_of (mem s) p, pl_count = length ys\<rparr>, Some p))"
proof (cases xs)
  case (Cons p ys)
  have "ys \<noteq> [] \<Longrightarrow> next_of (mem s) p = hd ys" and nil: "ys = [] \<Longrightarrow> next_of (mem s) p = PFN_NULL"
    using l by (cases ys; simp add: pl_ok_def Cons)+
  moreover have "ys \<noteq> [] \<Longrightarrow> hd ys < pfn_max s \<and> hd ys \<noteq> p"
    using l by (cases ys) (auto simp: pl_ok_def pcp_page_def Cons)
  moreover have "p < pfn_max s" "p \<noteq> PFN_NULL" using l by (auto simp: pl_ok_def pcp_page_def Cons)
  ultimately have k: "next_of (mem s) p = PFN_NULL \<or> next_of (mem s) p < pfn_max s" "next_of (mem s) p \<noteq> p"
    by (cases "ys = []"; simp)+
  show ?thesis using l k \<open>p < pfn_max s\<close> by (simp add: pl_pop_def pl_ok_def Cons Let_def)
qed (use l in \<open>simp add: pl_pop_def pl_ok_def\<close>)

lemma pl_ok_tail:
  "pl_ok s zone mt l (p # xs) \<Longrightarrow> pl_ok s zone mt \<lparr>pl_head = next_of (mem s) p, pl_count = length xs\<rparr> xs"
  by (simp add: pl_ok_def)

lemma pl_push_ok:
  assumes sh: "shape_ok s" and l: "pl_ok s zone mt l xs" and p: "p \<notin> set xs" "p < pfn_max s" "zi s p = zone" "migratetype s p = Some mt"
    and e: "pl_push (mem s) l p = (m, l')"
  shows "pl_ok (s\<lparr>mem := m\<rparr>) zone mt l' (p # xs)" "\<And>q. q \<noteq> p \<Longrightarrow> m q = mem s q"
proof -
  have m: "m = stamp_block (mem s) p 0 (pl_head l) PFN_NULL" and l': "l' = \<lparr>pl_head = p, pl_count = pl_count l + 1\<rparr>"
    using e by (auto simp: pl_push_def)
  show frame: "\<And>q. q \<noteq> p \<Longrightarrow> m q = mem s q" by (simp add: m)
  have pn: "p \<noteq> PFN_NULL" using pfn_bound [OF sh p(2)] by simp
  have hd: "pl_head l \<le> U64_MAX"
    using l sll_head [of "next_of (mem s)" "pl_head l" xs] pfn_bound [OF sh]
    by (cases xs) (auto simp: pl_ok_def pcp_page_def PFN_NULL_def)
  have nx: "next_of m = (next_of (mem s))(p := pl_head l)" and po: "poisoned m p" 
    using node.nxt_stamp [OF hd, of "mem s" p 0 PFN_NULL] node.tag_stamp [of "mem s" p 0 "pl_head l" PFN_NULL] by (simp_all add: m fun_eq_iff)
  have "order_of m p = 0" using node.ord_stamp [of 0 "mem s" p "pl_head l" PFN_NULL] by (simp add: m)
  then have od: "m p OFF_ORDER = 0" by (simp add: order_of_def unat_eq_0)
  have "pcp_page (s\<lparr>mem := m\<rparr>) zone mt q" if "q \<in> set xs" for q
  proof -
    have "m q = mem s q" using frame that p(1) by metis
    then show ?thesis using l that header_cong(3) [of m q "mem s"] by (simp add: pl_ok_def pcp_page_def)
  qed
  moreover have "sll (next_of m) p (p # xs)" unfolding nx using l by (intro sll_push p pn) (simp add: pl_ok_def)
  ultimately show "pl_ok (s\<lparr>mem := m\<rparr>) zone mt l' (p # xs)"
    using l p po od by (simp add: pl_ok_def l' pcp_page_def del: sll.simps)
qed


lemma pl_push_keeps:
  assumes "pl_push (mem s) l p = (m, l')" and "p \<notin> A"
  shows "keeps s A (s\<lparr>mem := m\<rparr>)"
proof -
  have "m q = mem s q" if "q \<in> A" for q
  proof -
    have "q \<noteq> p" using that assms(2) by blast
    then show ?thesis using assms(1) unfolding pl_push_def by (simp only: prod.inject) (metis stamp_block_page)
  qed
  then show ?thesis by (simp add: keeps_def)
qed

lemma pl_take_loop_ok:
  assumes "shape_ok s" and "pl_ok s zone mt l xs" and "pl_ok s zone mt out ys" and "set xs \<inter> set ys = {}" and "n \<le> length xs"
  shows "\<exists>m l' out'. pl_take_loop n (mem s) (pfn_max s) l out = Some (m, l', out') \<and>
    pl_ok (s\<lparr>mem := m\<rparr>) zone mt l' (drop n xs) \<and> pl_ok (s\<lparr>mem := m\<rparr>) zone mt out' (rev (take n xs) @ ys) \<and>
    (\<forall>q. q \<notin> set (take n xs) \<longrightarrow> m q = mem s q)"
  using assms
proof (induction n arbitrary: s l xs out ys)
  case 0
  then show ?case by simp
next
  case (Suc n)
  obtain p zs where xs: "xs = p # zs" using Suc.prems(5) by (cases xs) auto
  obtain m out1 where push: "pl_push (mem s) out p = (m, out1)" by fastforce
  let ?l = "\<lparr>pl_head = next_of (mem s) p, pl_count = length zs\<rparr>" and ?s = "s\<lparr>mem := m\<rparr>"
  have p: "p \<notin> set ys" "p \<notin> set zs" "p < pfn_max s" "zi s p = zone" "migratetype s p = Some mt"
    using Suc.prems(2,4) by (auto simp: xs pl_ok_def pcp_page_def)
  note o1 = pl_push_ok [OF Suc.prems(1,3) p(1,3,4,5) push]
  have l1: "pl_ok ?s zone mt ?l zs"
    by (rule pl_ok_keeps [OF pl_ok_tail pl_push_keeps [OF push p(2)] subset_refl]) (use Suc.prems(2) xs in simp)
  have "shape_ok ?s" using Suc.prems(1) by (simp add: shape_ok_def)
  from Suc.IH [OF this l1 o1(1)] Suc.prems(4,5) p obtain m2 l2 out2 where
    r: "pl_take_loop n m (pfn_max s) ?l out1 = Some (m2, l2, out2)" "pl_ok (s\<lparr>mem := m2\<rparr>) zone mt l2 (drop n zs)"
      "pl_ok (s\<lparr>mem := m2\<rparr>) zone mt out2 (rev (take n zs) @ p # ys)" "\<forall>q. q \<notin> set (take n zs) \<longrightarrow> m2 q = m q"
    by (auto simp: xs)
  have "pl_take_loop (Suc n) (mem s) (pfn_max s) l out = Some (m2, l2, out2)"
    using pl_pop_ok [OF Suc.prems(1,2)] push r(1) by (simp add: xs)
  moreover have "\<forall>q. q \<notin> set (take (Suc n) xs) \<longrightarrow> m2 q = mem s q" using r(4) o1(2) by (auto simp: xs)
  ultimately show ?case using r(2,3) by (auto simp: xs)
qed

lemma pl_take_ok:
  assumes "shape_ok s" and "pl_ok s zone mt l xs"
  obtains m l' out where "pl_take (mem s) (pfn_max s) l n = Some (m, l', out)"
    "pl_ok (s\<lparr>mem := m\<rparr>) zone mt l' (drop n xs)" "pl_ok (s\<lparr>mem := m\<rparr>) zone mt out (rev (take n xs))"
    "\<And>q. q \<notin> set (take n xs) \<Longrightarrow> m q = mem s q"
proof -
  have n: "min (pl_count l) n = min (length xs) n" using assms(2) by (simp add: pl_ok_def)
  have d: "drop (min (length xs) n) xs = drop n xs" "take (min (length xs) n) xs = take n xs"
    by (auto simp: min_def)
  show ?thesis
    using pl_take_loop_ok [OF assms pl_ok_empty, of "min (length xs) n"] that
    unfolding pl_take_def n d by auto
qed

section \<open>The invariant of the allocator\<close>

type_synonym pcp_content = "nat \<times> nat \<times> migrate_type \<Rightarrow> nat list"

abbreviation cached :: "pmm \<Rightarrow> nat set" where
  "cached s \<equiv> bm_bits (pcp_bitmap s)"

text \<open>The pages the allocator may hand out.\<close>

definition avail :: "pmm \<Rightarrow> nat set" where
  "avail s = free_set s \<union> cached s"

definition in_zone :: "pmm \<Rightarrow> nat \<Rightarrow> nat set \<Rightarrow> nat set" where
  "in_zone s z A = {p \<in> A. zi s p = z}"

definition pcp_lists :: "pmm \<Rightarrow> pcp_content \<Rightarrow> bool" where
  "pcp_lists s L \<longleftrightarrow> (\<forall>cpu zone mt. pl_ok s zone mt (pcp s (cpu, zone, mt)) (L (cpu, zone, mt))) \<and>
     (\<forall>k p. p \<in> set (L k) \<longrightarrow> fst k < MAX_CPUS) \<and>
     (\<forall>k k' p. p \<in> set (L k) \<longrightarrow> p \<in> set (L k') \<longrightarrow> k = k')"

definition content :: "pcp_content \<Rightarrow> nat set" where
  "content L = (\<Union>k. set (L k))"

definition lists_inv :: "pmm \<Rightarrow> pcp_content \<Rightarrow> bool" where
  "lists_inv s L \<longleftrightarrow> buddy_inv s \<and> pcp_lists s L \<and> cached s = content L \<and> pfn_max s \<le> 64 * length (pcp_bitmap s) \<and>
     free_set s \<inter> content L = {}"

definition counters_inv :: "nat set \<Rightarrow> nat set \<Rightarrow> pmm \<Rightarrow> bool" where
  "counters_inv M R s \<longleftrightarrow> avail s \<subseteq> M - R \<and> R \<subseteq> M \<and> M \<subseteq> {..<pfn_max s} \<and>
     card M = initial_free s \<and> card R = reserved s \<and> allocated s + card (free_set s) = initial_free s \<and>
     (\<forall>z. pcp_free s z = card (in_zone s z (cached s))) \<and>
     (\<forall>z. zone_free s z = card (in_zone s z (avail s)))"

definition pmm_ok :: "nat set \<Rightarrow> nat set \<Rightarrow> pmm \<Rightarrow> pcp_content \<Rightarrow> bool" where
  "pmm_ok M R s L \<longleftrightarrow> lists_inv s L \<and> counters_inv M R s"

definition pmm_inv :: "nat set \<Rightarrow> nat set \<Rightarrow> pmm \<Rightarrow> bool" where
  "pmm_inv M R s \<longleftrightarrow> (\<exists>L. pmm_ok M R s L)"


lemma buddy_inv_mem:
  assumes inv: "buddy_inv s" and eq: "\<And>q. q \<in> free_set s \<Longrightarrow> m q = mem s q"
  shows "buddy_inv (s\<lparr>mem := m\<rparr>)"
proof -
  have h: "next_of m q = next_of (mem s) q" "prev_of m q = prev_of (mem s) q" "poisoned m q = poisoned (mem s) q"
      "order_of m q = order_of (mem s) q" if "(q, k) \<in> blocks s" for q k
  proof -
    have "m q = mem s q" using span_of_mem [OF that pages_self] by (rule eq)
    from header_cong [of m q "mem s", OF this] show "next_of m q = next_of (mem s) q" "prev_of m q = prev_of (mem s) q"
      "poisoned m q = poisoned (mem s) q" "order_of m q = order_of (mem s) q" .
  qed
  have l: "list_ok (s\<lparr>mem := m\<rparr>) (zone, mt, order) xs" if xs: "list_ok s (zone, mt, order) xs" for zone mt order xs
  proof -
    have "next_of (mem s) x = next_of m x \<and> prev_of (mem s) x = prev_of m x" if "x \<in> set xs" for x
      using h(1,2) [OF list_member_pfn(1) [OF inv xs that]] by simp
    then have "dll (next_of (mem s)) (prev_of (mem s)) (free_heads s (zone, mt, order)) xs \<longleftrightarrow>
        dll (next_of m) (prev_of m) (free_heads s (zone, mt, order)) xs"
      by (intro dll_cong) simp_all
    then show ?thesis using xs by (simp add: list_ok_def)
  qed
  show ?thesis unfolding buddy_inv_def
  proof (intro conjI ballI allI impI)
    show "shape_ok (s\<lparr>mem := m\<rparr>)" using buddy_inv_shape [OF inv] by (simp add: shape_ok_def)
    fix x assume x: "x \<in> blocks (s\<lparr>mem := m\<rparr>)"
    obtain p k where pk: "x = (p, k)" by fastforce
    with x have "(p, k) \<in> blocks s" by simp
    with buddy_invD [OF inv this] h(3,4) [OF this]
    show "case x of (p, order) \<Rightarrow> block_ok (s\<lparr>mem := m\<rparr>) p order \<and> poisoned (mem (s\<lparr>mem := m\<rparr>)) p \<and> order_of (mem (s\<lparr>mem := m\<rparr>)) p = order"
      by (simp add: pk)
  next
    fix zone mt order assume "zone < NR_ZONES" "order \<le> MAX_ORDER"
    then obtain xs where "list_ok s (zone, mt, order) xs" by (rule buddy_inv_list [OF inv])
    then show "\<exists>xs. list_ok (s\<lparr>mem := m\<rparr>) (zone, mt, order) xs" using l by blast
  qed (use buddy_inv_disjoint_blocks [OF inv] in simp)
qed

section \<open>Marks\<close>

lemma bm_bits_mem: "i \<in> bm_bits bm \<longleftrightarrow> bm_get bm i = Some True"
  by (simp add: bm_bits_def)

lemma pcp_mark_ok:
  assumes "p < 64 * length (pcp_bitmap s)" and "p \<notin> cached s"
  shows "\<exists>bm. pcp_mark s p = Some (s\<lparr>pcp_bitmap := bm\<rparr>) \<and> bm_bits bm = insert p (cached s) \<and> length bm = length (pcp_bitmap s)"
proof -
  obtain b where b: "bm_get (pcp_bitmap s) p = Some b" using bm.get_defined [OF assms(1)] by blast
  have "\<not> b" using b assms(2) by (auto simp: bm_bits_mem)
  moreover obtain bm where "bm_set (pcp_bitmap s) p = Some bm" "bm_bits bm = insert p (cached s)" "length bm = length (pcp_bitmap s)"
    by (rule bm_set_ok [OF assms(1)])
  ultimately show ?thesis using b by (intro exI [of _ bm]) (simp add: pcp_mark_def)
qed

lemma pcp_unmark_ok:
  assumes "p < 64 * length (pcp_bitmap s)" and "p \<in> cached s"
  shows "\<exists>bm. pcp_unmark s p = Some (s\<lparr>pcp_bitmap := bm\<rparr>) \<and> bm_bits bm = cached s - {p} \<and> length bm = length (pcp_bitmap s)"
proof -
  have "bm_get (pcp_bitmap s) p = Some True" using assms(2) by (simp add: bm_bits_mem)
  moreover obtain bm where "bm_clear (pcp_bitmap s) p = Some bm" "bm_bits bm = cached s - {p}" "length bm = length (pcp_bitmap s)"
    by (rule bm_clear_ok [OF assms(1)])
  ultimately show ?thesis by (intro exI [of _ bm]) (simp add: pcp_unmark_def)
qed

lemma verify_pcp_node_ok:
  assumes "shape_ok s" and "pcp_page s zone mt p"
  shows "verify_pcp_node s p zone mt = Some ()"
proof -
  have "wf_layout (layout s) (pfn_max s)" "p < pfn_max s" using assms by (auto simp: shape_ok_def pcp_page_def)
  then have "index_of (layout s) p < NR_ZONES" by (simp add: index_of_less)
  then have "index_of (layout s) p = zone" using assms(2) by (simp add: pcp_page_def zi_def Let_def)
  then show ?thesis using assms(2) by (simp add: verify_pcp_node_def pcp_page_def poisoned_def)
qed

lemma verify_pcp_page_ok:
  assumes "shape_ok s" and "pcp_page s zone mt p" and "p \<in> cached s"
  shows "verify_pcp_page s p zone mt = Some ()"
  using verify_pcp_node_ok [OF assms(1,2)] assms(3) by (simp add: verify_pcp_page_def pcp_marked_def bm_bits_mem)

section \<open>Loops over a list\<close>

lemma pcp_page_update [simp]:
  "pcp_page (s\<lparr>pcp_bitmap := v\<rparr>) = pcp_page s" "pcp_page (s\<lparr>allocated := a\<rparr>) = pcp_page s"
  "pcp_page (s\<lparr>pcp := b\<rparr>) = pcp_page s" "pcp_page (s\<lparr>zone_free := c\<rparr>) = pcp_page s" "pcp_page (s\<lparr>pcp_free := d\<rparr>) = pcp_page s"
  by (simp_all add: pcp_page_def fun_eq_iff)

lemma pl_ok_update [simp]:
  "pl_ok (s\<lparr>pcp_bitmap := v\<rparr>) = pl_ok s" "pl_ok (s\<lparr>allocated := a\<rparr>) = pl_ok s"
  "pl_ok (s\<lparr>pcp := b\<rparr>) = pl_ok s" "pl_ok (s\<lparr>zone_free := c\<rparr>) = pl_ok s" "pl_ok (s\<lparr>pcp_free := d\<rparr>) = pl_ok s"
  "pl_ok (s\<lparr>pcp_bitmap := v, mem := m\<rparr>) = pl_ok (s\<lparr>mem := m\<rparr>)"
  by (simp_all add: pl_ok_def pcp_page_def fun_eq_iff)

lemma shape_ok_update [simp]:
  "shape_ok (s\<lparr>mem := m\<rparr>) = shape_ok s" "shape_ok (s\<lparr>pcp_bitmap := v\<rparr>) = shape_ok s"
  "shape_ok (s\<lparr>allocated := a\<rparr>) = shape_ok s" "shape_ok (s\<lparr>pcp := b\<rparr>) = shape_ok s"
  by (simp_all add: shape_ok_def)

lemma cache_loop_ok:
  assumes "shape_ok s" and "pl_ok s zone mt refill xs" and "pl_ok s zone mt l ys" and "set xs \<inter> set ys = {}"
    and "set xs \<inter> cached s = {}" and "pfn_max s \<le> 64 * length (pcp_bitmap s)"
  shows "\<exists>m bm l'. cache_loop s refill l = Some (s\<lparr>mem := m, pcp_bitmap := bm\<rparr>, l') \<and>
    pl_ok (s\<lparr>mem := m\<rparr>) zone mt l' (rev xs @ ys) \<and> bm_bits bm = cached s \<union> set xs \<and>
    length bm = length (pcp_bitmap s) \<and> (\<forall>q. q \<notin> set xs \<longrightarrow> m q = mem s q)"
  using assms
proof (induction xs arbitrary: s refill l ys)
  case Nil
  then show ?case using pl_pop_ok [OF Nil(1,2)] by (subst cache_loop.simps) (auto intro!: exI [of _ "mem s"] exI [of _ "pcp_bitmap s"])
next
  case (Cons p xs)
  have pp: "pcp_page s zone mt p" "p \<notin> set xs" using Cons.prems(2) by (auto simp: pl_ok_def)
  then have p: "p < pfn_max s" "zi s p = zone" "migratetype s p = Some mt" "p \<notin> set ys" "p \<notin> cached s"
    using Cons.prems(4,5) by (auto simp: pcp_page_def)
  obtain bm where bm: "pcp_mark s p = Some (s\<lparr>pcp_bitmap := bm\<rparr>)" "bm_bits bm = insert p (cached s)" "length bm = length (pcp_bitmap s)"
    using pcp_mark_ok [of p s] p Cons.prems(6) by auto
  obtain m l1 where push: "pl_push (mem s) l p = (m, l1)" by fastforce
  note l1 = pl_push_ok [OF Cons.prems(1,3) p(4,1-3) push]
  let ?r = "\<lparr>pl_head = next_of (mem s) p, pl_count = length xs\<rparr>" and ?s = "s\<lparr>pcp_bitmap := bm, mem := m\<rparr>"
  have r1: "pl_ok (s\<lparr>mem := m\<rparr>) zone mt ?r xs"
    by (rule pl_ok_keeps [OF pl_ok_tail [OF Cons.prems(2)] pl_push_keeps [OF push pp(2)] subset_refl])
  have "\<exists>m' bm' l'. cache_loop ?s ?r l1 = Some (?s\<lparr>mem := m', pcp_bitmap := bm'\<rparr>, l') \<and>
    pl_ok (?s\<lparr>mem := m'\<rparr>) zone mt l' (rev xs @ p # ys) \<and> bm_bits bm' = cached ?s \<union> set xs \<and>
    length bm' = length (pcp_bitmap ?s) \<and> (\<forall>q. q \<notin> set xs \<longrightarrow> m' q = mem ?s q)"
    using Cons.prems pp r1 l1(1) bm by (intro Cons.IH) auto
  then obtain m' bm' l' where r0: "cache_loop ?s ?r l1 = Some (?s\<lparr>mem := m', pcp_bitmap := bm'\<rparr>, l')"
    "pl_ok (?s\<lparr>mem := m'\<rparr>) zone mt l' (rev xs @ p # ys)" "bm_bits bm' = cached ?s \<union> set xs"
    "length bm' = length (pcp_bitmap ?s)" "\<forall>q. q \<notin> set xs \<longrightarrow> m' q = mem ?s q"
    by blast
  then have r: "cache_loop ?s ?r l1 = Some (s\<lparr>mem := m', pcp_bitmap := bm'\<rparr>, l')"
    "pl_ok (s\<lparr>mem := m'\<rparr>) zone mt l' (rev xs @ p # ys)" "bm_bits bm' = cached s \<union> set (p # xs)"
    "length bm' = length (pcp_bitmap s)" "\<forall>q. q \<notin> set xs \<longrightarrow> m' q = m q"
    using bm by (simp_all add: Diff_insert2 [symmetric])
  have "cache_loop s refill l = Some (s\<lparr>mem := m', pcp_bitmap := bm'\<rparr>, l')"
    using pl_pop_ok [OF Cons.prems(1,2)] bm(1) push r(1) by (subst cache_loop.simps) simp
  moreover have "\<forall>q. q \<notin> set (p # xs) \<longrightarrow> m' q = mem s q"
  proof (intro allI impI)
    fix q assume "q \<notin> set (p # xs)"
    then show "m' q = mem s q" using r(5) l1(2) [of q] by simp
  qed
  ultimately show ?case using r(2-4) by (intro exI [of _ m'] exI [of _ bm'] exI [of _ l']) simp
qed

lemma release_loop_ok:
  assumes "shape_ok s" and "pl_ok s zone mt l xs" and "pl_ok s zone mt priv ys" and "set xs \<inter> set ys = {}"
    and "set xs \<subseteq> cached s" and "pfn_max s \<le> 64 * length (pcp_bitmap s)"
  shows "\<exists>m bm l'. release_loop s zone mt l priv = Some (s\<lparr>mem := m, pcp_bitmap := bm\<rparr>, l') \<and>
    pl_ok (s\<lparr>mem := m\<rparr>) zone mt l' (rev xs @ ys) \<and> bm_bits bm = cached s - set xs \<and>
    length bm = length (pcp_bitmap s) \<and> (\<forall>q. q \<notin> set xs \<longrightarrow> m q = mem s q)"
  using assms
proof (induction xs arbitrary: s l priv ys)
  case Nil
  then show ?case using pl_pop_ok [OF Nil(1,2)] by (subst release_loop.simps) (auto intro!: exI [of _ "mem s"] exI [of _ "pcp_bitmap s"])
next
  case (Cons p xs)
  have pp: "pcp_page s zone mt p" "p \<notin> set xs" using Cons.prems(2) by (auto simp: pl_ok_def)
  then have p: "p < pfn_max s" "zi s p = zone" "migratetype s p = Some mt" "p \<notin> set ys" "p \<in> cached s"
    using Cons.prems(4,5) by (auto simp: pcp_page_def)
  obtain bm where bm: "pcp_unmark s p = Some (s\<lparr>pcp_bitmap := bm\<rparr>)" "bm_bits bm = cached s - {p}" "length bm = length (pcp_bitmap s)"
    using pcp_unmark_ok [of p s] p Cons.prems(6) by auto
  obtain m l1 where push: "pl_push (mem s) priv p = (m, l1)" by fastforce
  note l1 = pl_push_ok [OF Cons.prems(1,3) p(4,1-3) push]
  let ?r = "\<lparr>pl_head = next_of (mem s) p, pl_count = length xs\<rparr>" and ?s = "s\<lparr>pcp_bitmap := bm, mem := m\<rparr>"
  have r1: "pl_ok (s\<lparr>mem := m\<rparr>) zone mt ?r xs"
    by (rule pl_ok_keeps [OF pl_ok_tail [OF Cons.prems(2)] pl_push_keeps [OF push pp(2)] subset_refl])
  have "\<exists>m' bm' l'. release_loop ?s zone mt ?r l1 = Some (?s\<lparr>mem := m', pcp_bitmap := bm'\<rparr>, l') \<and>
    pl_ok (?s\<lparr>mem := m'\<rparr>) zone mt l' (rev xs @ p # ys) \<and> bm_bits bm' = cached ?s - set xs \<and>
    length bm' = length (pcp_bitmap ?s) \<and> (\<forall>q. q \<notin> set xs \<longrightarrow> m' q = mem ?s q)"
    using Cons.prems pp r1 l1(1) bm by (intro Cons.IH) auto
  then obtain m' bm' l' where r0: "release_loop ?s zone mt ?r l1 = Some (?s\<lparr>mem := m', pcp_bitmap := bm'\<rparr>, l')"
    "pl_ok (?s\<lparr>mem := m'\<rparr>) zone mt l' (rev xs @ p # ys)" "bm_bits bm' = cached ?s - set xs"
    "length bm' = length (pcp_bitmap ?s)" "\<forall>q. q \<notin> set xs \<longrightarrow> m' q = mem ?s q"
    by blast
  then have r: "release_loop ?s zone mt ?r l1 = Some (s\<lparr>mem := m', pcp_bitmap := bm'\<rparr>, l')"
    "pl_ok (s\<lparr>mem := m'\<rparr>) zone mt l' (rev xs @ p # ys)" "bm_bits bm' = cached s - set (p # xs)"
    "length bm' = length (pcp_bitmap s)" "\<forall>q. q \<notin> set xs \<longrightarrow> m' q = m q"
    using bm by (simp_all add: Diff_insert2 [symmetric])
  have "release_loop s zone mt l priv = Some (s\<lparr>mem := m', pcp_bitmap := bm'\<rparr>, l')"
    using pl_pop_ok [OF Cons.prems(1,2)] bm(1) push r(1) verify_pcp_page_ok [OF Cons.prems(1) pp(1) p(5)]
    by (subst release_loop.simps) simp
  moreover have "\<forall>q. q \<notin> set (p # xs) \<longrightarrow> m' q = mem s q"
  proof (intro allI impI)
    fix q assume "q \<notin> set (p # xs)"
    then show "m' q = mem s q" using r(5) l1(2) [of q] by simp
  qed
  ultimately show ?case using r(2-4) by (intro exI [of _ m'] exI [of _ bm'] exI [of _ l']) simp
qed

end
