(* ===== verification/Pagesets_Ops.thy ===== *)
theory Pagesets_Ops
  imports Pagesets_Inv
begin

text \<open>
  Every operation of \<open>buddy/pcp.rs\<close> keeps the allocator invariant: taking a page from a pageset,
  refilling one from the buddy lists, draining, and freeing one page.
\<close>

section \<open>Draining a detached list\<close>

lemma block_ok_page: "p < pfn_max s \<Longrightarrow> block_ok s p 0"
  by (simp add: block_ok_def one_class_def pages_def)

lemma pages_0 [simp]: "pages p 0 = {p}"
  by (auto simp: pages_def)

text \<open>The part of the state outside the buddy lists and the page contents.\<close>

lemma drain_loop_ok:
  assumes "buddy_inv s" and "pl_ok s zone mt l xs" and "set xs \<inter> free_set s = {}"
  shows "returns (drain_loop s zone mt l) (\<lambda>s'. buddy_inv s' \<and> buddy_frame s s' \<and> pageblocks s' = pageblocks s \<and>
    free_set s' = free_set s \<union> set xs \<and> (\<forall>q. q \<notin> free_set s' \<longrightarrow> mem s' q = mem s q))"
  using assms
proof (induction xs arbitrary: s l)
  case Nil
  then show ?case using pl_pop_ok [OF buddy_inv_shape [OF Nil(1)] Nil(2)] by (subst drain_loop.simps) simp
next
  case (Cons p xs)
  have sh: "shape_ok s" using Cons.prems(1) by (rule buddy_inv_shape)
  have pp: "pcp_page s zone mt p" "p \<notin> set xs" using Cons.prems(2) by (auto simp: pl_ok_def)
  have ok: "block_ok s p 0" using pp by (intro block_ok_page) (simp add: pcp_page_def)
  let ?l = "\<lparr>pl_head = next_of (mem s) p, pl_count = length xs\<rparr>"
  have step: "drain_loop s zone mt l = return_to_buddy s p 0 \<bind> (\<lambda>s. drain_loop s zone mt ?l)"
    using pl_pop_ok [OF sh Cons.prems(2)] verify_pcp_node_ok [OF sh pp(1)] by (subst drain_loop.simps) simp
  have dj: "pages p 0 \<inter> free_set s = {}" using Cons.prems(3) by simp
  show ?case unfolding step
  proof (rule returns_bind [OF return_to_buddy_ok [OF Cons.prems(1) ok dj]], elim conjE)
    fix t assume t: "buddy_inv t" "buddy_frame s t" "pageblocks t = pageblocks s" "free_set t = free_set s \<union> pages p 0"
      "\<forall>q. q \<notin> free_set t \<longrightarrow> mem t q = mem s q"
    have out: "set xs \<inter> free_set t = {}" using Cons.prems(3) pp(2) by (auto simp: t(4))
    have "keeps s (set xs) t" using t(5) out buddy_frameD(1,2) [OF t(2)] migratetype_cong [OF t(3)]
      by (auto simp: keeps_def)
    then have "pl_ok t zone mt ?l xs" using pl_ok_keeps [OF pl_ok_tail [OF Cons.prems(2)]] by blast
    from Cons.IH [OF t(1) this out]
    show "returns (drain_loop t zone mt ?l) (\<lambda>s'. buddy_inv s' \<and> buddy_frame s s' \<and> pageblocks s' = pageblocks s \<and>
      free_set s' = free_set s \<union> set (p # xs) \<and> (\<forall>q. q \<notin> free_set s' \<longrightarrow> mem s' q = mem s q))"
      by (rule returns_mono) (use t in \<open>auto intro: buddy_frame_trans\<close>)
  qed
qed

section \<open>Refilling\<close>

definition refill_post :: "pmm \<Rightarrow> nat \<Rightarrow> migrate_type \<Rightarrow> nat list \<Rightarrow> pmm \<times> pcp_list \<Rightarrow> bool" where
  "refill_post s zone mt xs sl \<longleftrightarrow> (case sl of (s', l) \<Rightarrow> \<exists>T. buddy_inv s' \<and> pl_ok s' zone mt l (T @ xs) \<and>
     set T \<subseteq> free_set s \<and> free_set s' = free_set s - set T \<and> (\<forall>p \<in> set T. zi s p = zone) \<and>
     outer s' = outer (s\<lparr>allocated := allocated s + length T\<rparr>) \<and> (T = [] \<longrightarrow> s' = s) \<and>
     (\<forall>q. q \<notin> free_set s \<longrightarrow> mem s' q = mem s q \<and> migratetype s' q = migratetype s q))"

lemma no_foreign_take:
  assumes "take_post s zone order mt p s'" and "no_foreign s zone mt" and "buddy_frame s s'"
  shows "no_foreign s' zone mt"
proof -
  have "migratetype s' q = Some mt" if q: "(q, k) \<in> blocks s'" "zi s' q = zone" "k < PAGEBLOCK_ORDER" for q k
  proof (cases "(q, k) \<in> blocks s")
    case True
    have "zi s q = zone" using q(2) zi_frame [OF assms(3)] by simp
    then have "migratetype s q = Some mt" using True assms(2) q(3) unfolding no_foreign_def by blast
    moreover have "migratetype s' q = migratetype s q" using True q(1) assms(1) unfolding take_post_def by blast
    ultimately show ?thesis by simp
  next
    case False
    then show ?thesis using assms(1) q unfolding take_post_def by blast
  qed
  then show ?thesis unfolding no_foreign_def by blast
qed

lemma outer_allocated: "outer (s\<lparr>allocated := a\<rparr>) = (outer s)\<lparr>allocated := a\<rparr>"
  by (simp add: outer_def)

lemma verify_poison_ok: "poisoned (mem s) p \<Longrightarrow> verify_poison s p = Some ()"
  by (simp add: verify_poison_def poisoned_def)

lemma refill_loop_ok:
  assumes "buddy_inv s" and "zone < NR_ZONES" and "no_foreign s zone mt" and "pl_ok s zone mt refill xs"
    and "set xs \<inter> free_set s = {}"
  shows "returns (refill_loop n s refill zone highest w mt) (refill_post s zone mt xs)"
  using assms
proof (induction n arbitrary: s refill xs)
  case 0
  then show ?case by (auto simp: refill_post_def outer_def intro!: exI [of _ "[]"])
next
  case (Suc n)
  have stay: "refill_post s zone mt xs (s, refill)"
    using Suc.prems by (auto simp: refill_post_def outer_def intro!: exI [of _ "[]"])
  show ?case unfolding refill_loop.simps
  proof (cases "zone_from_index zone", simp_all only: option.case returns_Some stay,
      rule returns_if, simp only: returns_Some stay, rule returns_bind [OF take_block_ok [OF Suc.prems(1,2)]], simp only: split_paired_all prod.case)
    fix s1 r assume tb: "take_block_post s zone 0 mt (s1, r)"
    show "returns (case r of None \<Rightarrow> Some (s1, refill) | Some pfn \<Rightarrow> verify_poison s1 pfn \<bind>
       (\<lambda>_. let (m, refill) = pl_push (mem s1) refill pfn
             in refill_loop n (s1\<lparr>mem := m, allocated := allocated s1 + 1\<rparr>) refill zone highest w mt))
       (refill_post s zone mt xs)"
    proof (cases r)
      case None
      then show ?thesis using tb stay by (simp add: take_block_post_def)
    next
      case (Some p)
      then have tk: "take_post s zone 0 mt p s1"
        using tb Suc.prems(3) unfolding take_block_post_def by auto
      then have t: "buddy_inv s1" "buddy_frame s s1" "block_ok s1 p 0" "zi s p = zone" "migratetype s1 p = Some mt"
        "poisoned (mem s1) p" "p \<in> free_set s" "free_set s1 = free_set s - {p}"
        "\<forall>q. q \<notin> free_set s \<longrightarrow> mem s1 q = mem s q \<and> migratetype s1 q = migratetype s q"
        unfolding take_post_def by auto
      obtain m l1 where push: "pl_push (mem s1) refill p = (m, l1)" by fastforce
      let ?s = "s1\<lparr>mem := m, allocated := allocated s1 + 1\<rparr>"
      have sh: "shape_ok s1" using t(1) by (rule buddy_inv_shape)
      have z1: "zi s1 = zi s" using t(2) by (rule zi_frame)
      have "keeps s (set xs) s1" using t(9) Suc.prems(5) buddy_frameD(1,2) [OF t(2)] by (auto simp: keeps_def)
      then have l: "pl_ok s1 zone mt refill xs" using pl_ok_keeps [OF Suc.prems(4)] by blast
      have pn: "p \<notin> set xs" using t(7) Suc.prems(5) by blast
      note l1 = pl_push_ok [OF sh l pn block_ok_less [OF t(3)] _ t(5) push]
      have l2: "pl_ok ?s zone mt l1 (p # xs)" and m: "\<And>q. q \<noteq> p \<Longrightarrow> m q = mem s1 q" using l1 t(4) by (simp_all add: z1)
      have b: "buddy_inv ?s"
      proof -
        have "buddy_inv (s1\<lparr>mem := m\<rparr>)" by (rule buddy_inv_mem [OF t(1)], rule m) (auto simp: t(8))
        then show ?thesis by simp
      qed
      have nf: "no_foreign ?s zone mt"
        using no_foreign_take [OF tk Suc.prems(3) t(2)] by (simp add: no_foreign_def)
      have "returns (refill_loop n ?s l1 zone highest w mt) (refill_post ?s zone mt (p # xs))"
        using b nf l2 Suc.prems(2,5) by (intro Suc.IH) (auto simp: t(8))
      then have "returns (refill_loop n ?s l1 zone highest w mt) (refill_post s zone mt xs)"
      proof (rule returns_mono)
        fix sl assume post: "refill_post ?s zone mt (p # xs) sl"
        obtain s2 l' where sl: "sl = (s2, l')" by fastforce
        from post [unfolded sl refill_post_def prod.case] obtain T where r: "buddy_inv s2" "pl_ok s2 zone mt l' (T @ p # xs)" "set T \<subseteq> free_set ?s"
          "free_set s2 = free_set ?s - set T" "\<forall>p\<in>set T. zi ?s p = zone"
          "outer s2 = outer (?s\<lparr>allocated := allocated ?s + length T\<rparr>)"
          "\<forall>q. q \<notin> free_set ?s \<longrightarrow> mem s2 q = mem ?s q \<and> migratetype s2 q = migratetype ?s q"
          by blast
        have o: "outer s2 = outer (s\<lparr>allocated := allocated s + length (T @ [p])\<rparr>)"
          using r(6) t(2) buddy_frameD(10) [OF t(2)] by (simp add: outer_allocated buddy_frame_def)
        have "mem s2 q = mem s q \<and> migratetype s2 q = migratetype s q" if "q \<notin> free_set s" for q
          using that r(7) t(7,8,9) m [of q] by auto
        then show "refill_post s zone mt xs sl" unfolding sl refill_post_def prod.case
          using r o t(4,7,8) z1 by (intro exI [of _ "T @ [p]"]) auto
      qed
      then show ?thesis using push verify_poison_ok [OF t(6)] Some by simp
    qed
  qed
qed

section \<open>Frames and counters\<close>

text \<open>The configuration: what allocation and freeing never change.\<close>

definition static :: "pmm \<Rightarrow> pmm" where
  "static s = (outer s)\<lparr>allocated := 0, alloc_events := 0, alloc_event_pages := 0, free_events := 0, free_event_pages := 0,
     pcp_bitmap := [], pcp := \<lambda>_. pl_empty, zone_free := \<lambda>_. 0, pcp_free := \<lambda>_. 0, pcp_alloc_events := 0,
     pcp_alloc_event_pages := 0, pcp_free_events := 0, pcp_free_event_pages := 0\<rparr>"

definition steady :: "pmm \<Rightarrow> nat set \<Rightarrow> pmm \<Rightarrow> bool" where
  "steady s A s' \<longleftrightarrow> static s' = static s \<and> (\<forall>q. q \<notin> A \<longrightarrow> mem s' q = mem s q \<and> migratetype s' q = migratetype s q)"

lemma static_update [simp]:
  "static (s\<lparr>mem := v1\<rparr>) = static s" "static (s\<lparr>bitmaps := v2\<rparr>) = static s" "static (s\<lparr>pageblocks := v3\<rparr>) = static s"
  "static (s\<lparr>free_heads := v4\<rparr>) = static s" "static (s\<lparr>free_count := v5\<rparr>) = static s" "static (s\<lparr>allocated := v6\<rparr>) = static s"
  "static (s\<lparr>alloc_events := v7\<rparr>) = static s" "static (s\<lparr>alloc_event_pages := v7\<rparr>) = static s"
  "static (s\<lparr>free_events := v7\<rparr>) = static s" "static (s\<lparr>free_event_pages := v7\<rparr>) = static s"
  "static (s\<lparr>pcp_bitmap := v3\<rparr>) = static s" "static (s\<lparr>pcp := v8\<rparr>) = static s" "static (s\<lparr>zone_free := v9\<rparr>) = static s"
  "static (s\<lparr>pcp_free := v9\<rparr>) = static s" "static (s\<lparr>pcp_alloc_events := v7\<rparr>) = static s"
  "static (s\<lparr>pcp_alloc_event_pages := v7\<rparr>) = static s" "static (s\<lparr>pcp_free_events := v7\<rparr>) = static s"
  "static (s\<lparr>pcp_free_event_pages := v7\<rparr>) = static s"
  by (simp_all add: static_def outer_def)

lemma static_outer: "outer s' = outer s \<Longrightarrow> static s' = static s"
  by (simp add: static_def)

lemma static_fields:
  assumes "static s' = static s"
  shows "pfn_max s' = pfn_max s" "layout s' = layout s" "zone_list s' = zone_list s" "managed s' = managed s"
    "reserved s' = reserved s" "initial_free s' = initial_free s" "reserve s' = reserve s" "wmark s' = wmark s"
    "pcp_zone s' = pcp_zone s" "published s' = published s" "hibernate_forbidden s' = hibernate_forbidden s"
proof -
  have "pfn_max (static t) = pfn_max t" "layout (static t) = layout t" "zone_list (static t) = zone_list t"
    "managed (static t) = managed t" "reserved (static t) = reserved t" "initial_free (static t) = initial_free t"
    "reserve (static t) = reserve t" "wmark (static t) = wmark t" "pcp_zone (static t) = pcp_zone t"
    "published (static t) = published t" "hibernate_forbidden (static t) = hibernate_forbidden t" for t
    by (simp_all add: static_def outer_def)
  with assms show "pfn_max s' = pfn_max s" "layout s' = layout s" "zone_list s' = zone_list s" "managed s' = managed s"
    "reserved s' = reserved s" "initial_free s' = initial_free s" "reserve s' = reserve s" "wmark s' = wmark s"
    "pcp_zone s' = pcp_zone s" "published s' = published s" "hibernate_forbidden s' = hibernate_forbidden s" by metis+
qed

lemma steady_refl [simp]: "steady s A s"
  by (simp add: steady_def)

lemma steady_trans:
  assumes "steady s A t" and "steady t B u" and "A \<subseteq> C" and "B \<subseteq> C"
  shows "steady s C u"
proof -
  have "mem u q = mem s q \<and> migratetype u q = migratetype s q" if "q \<notin> C" for q
  proof -
    have "q \<notin> A" "q \<notin> B" using that assms(3,4) by blast+
    then show ?thesis using assms(1,2) by (simp add: steady_def)
  qed
  then show ?thesis using assms(1,2) by (simp add: steady_def)
qed

lemma steady_zi: "steady s A s' \<Longrightarrow> zi s' = zi s"
  by (rule zi_cong, rule static_fields(2)) (simp add: steady_def)

lemma steady_keeps: "steady s A s' \<Longrightarrow> A \<inter> B = {} \<Longrightarrow> keeps s B s'"
  unfolding keeps_def steady_def using static_fields(1,2) by blast

lemma finite_bm_bits [simp]: "finite (bm_bits bm)"
  using bm.bits_bounded [of bm] finite_subset unfolding bm_bits_def by blast

lemma finite_avail [simp]: "finite (avail s)"
  by (simp add: avail_def)

lemma card_swap: "finite A \<Longrightarrow> finite B \<Longrightarrow> card A + card (B - A) = card B + card (A - B)"
  using card_Un_disjoint [of A "B - A"] card_Un_disjoint [of B "A - B"] by (simp add: Un_commute)

lemma in_zone_swap:
  assumes "finite A" and "finite B" and "\<And>p. p \<in> (A - B) \<union> (B - A) \<Longrightarrow> zi s p = zone"
  shows "card (in_zone s z B) + (if z = zone then card (A - B) else 0) = card (in_zone s z A) + (if z = zone then card (B - A) else 0)"
proof (cases "z = zone")
  case True
  have "in_zone s zone A - in_zone s zone B = A - B" "in_zone s zone B - in_zone s zone A = B - A"
    using assms(3) by (auto simp: in_zone_def)
  then show ?thesis using card_swap [of "in_zone s zone B" "in_zone s zone A"] assms(1,2) True
    by (simp add: in_zone_def)
next
  case False
  then have "in_zone s z A = in_zone s z B" using assms(3) by (auto simp: in_zone_def)
  then show ?thesis using False by simp
qed

lemma in_zone_cong: "zi s' = zi s \<Longrightarrow> in_zone s' = in_zone s"
  by (simp add: in_zone_def fun_eq_iff)

lemma counters_upd:
  assumes c: "counters_inv M R s"
    and fixed: "pfn_max s' = pfn_max s" "layout s' = layout s" "initial_free s' = initial_free s"
    and R: "R' \<subseteq> M" "reserved s' = card R'" and sub: "avail s' \<subseteq> M - R'"
    and zones: "\<And>p. p \<in> (cached s - cached s') \<union> (cached s' - cached s) \<Longrightarrow> zi s p = zone"
       "\<And>p. p \<in> (avail s - avail s') \<union> (avail s' - avail s) \<Longrightarrow> zi s p = zone"
    and pf: "pcp_free s' = (pcp_free s)(zone := x)" "x + card (cached s - cached s') = pcp_free s zone + card (cached s' - cached s)"
    and zf: "zone_free s' = (zone_free s)(zone := y)" "y + card (avail s - avail s') = zone_free s zone + card (avail s' - avail s)"
    and al: "allocated s' + card (free_set s' - free_set s) = allocated s + card (free_set s - free_set s')"
  shows "counters_inv M R' s'"
proof -
  have z: "in_zone s' = in_zone s" using in_zone_cong zi_cong fixed(2) by blast
  have "allocated s' + card (free_set s') = initial_free s'"
    using c al card_swap [of "free_set s" "free_set s'"] fixed(3) by (simp add: counters_inv_def)
  moreover have "pcp_free s' v = card (in_zone s' v (cached s'))" for v
    using in_zone_swap [of "cached s" "cached s'" s zone v] zones(1) pf c
    by (auto simp: counters_inv_def z)
  moreover have "zone_free s' v = card (in_zone s' v (avail s'))" for v
    using in_zone_swap [of "avail s" "avail s'" s zone v] zones(2) zf c
    by (auto simp: counters_inv_def z)
  ultimately show ?thesis using c fixed R sub by (simp add: counters_inv_def)
qed

lemma counters_bound:
  assumes "counters_inv M R s" and "shape_ok s"
  shows "zone_free s z \<le> pfn_max s" "pcp_free s z \<le> zone_free s z" "pfn_max s + 2 ^ MAX_ORDER \<le> U64_MAX"
proof -
  have "finite M" "card M \<le> pfn_max s"
    using assms(1) card_mono [of "{..<pfn_max s}" M] finite_subset by (auto simp: counters_inv_def)
  moreover have "card (in_zone s z (avail s)) \<le> card M"
    using assms(1) \<open>finite M\<close> by (intro card_mono) (auto simp: counters_inv_def in_zone_def)
  ultimately show "zone_free s z \<le> pfn_max s" using assms(1) by (simp add: counters_inv_def)
  have "card (in_zone s z (cached s)) \<le> card (in_zone s z (avail s))"
    by (intro card_mono) (auto simp: in_zone_def avail_def)
  then show "pcp_free s z \<le> zone_free s z" using assms(1) by (simp add: counters_inv_def)
  show "pfn_max s + 2 ^ MAX_ORDER \<le> U64_MAX" using assms(2) by (simp add: shape_ok_def)
qed

text \<open>Only \<^const>\<open>allocated\<close> changed outside the buddy lists.\<close>

lemma outer_allocatedD:
  assumes "outer s' = outer (s\<lparr>allocated := a\<rparr>)"
  shows "pfn_max s' = pfn_max s" "layout s' = layout s" "reserved s' = reserved s" "initial_free s' = initial_free s"
    "pcp_bitmap s' = pcp_bitmap s" "pcp s' = pcp s" "zone_free s' = zone_free s" "pcp_free s' = pcp_free s"
    "allocated s' = a" "zi s' = zi s" "static s' = static s"
proof -
  have f: "buddy_frame (s\<lparr>allocated := a\<rparr>) s'" using assms by (simp add: buddy_frame_def)
  note d = buddy_frameD [OF f]
  show "pfn_max s' = pfn_max s" "layout s' = layout s" "reserved s' = reserved s" "initial_free s' = initial_free s"
    "pcp_bitmap s' = pcp_bitmap s" "pcp s' = pcp s" "zone_free s' = zone_free s" "pcp_free s' = pcp_free s"
    "allocated s' = a" using d by simp_all
  show "zi s' = zi s" using d(2) by (intro zi_cong) simp
  show "static s' = static s" using static_outer [OF assms] by simp
qed

section \<open>One pageset changes\<close>

lemma content_mem: "p \<in> set (L k) \<Longrightarrow> p \<in> content L"
  unfolding content_def by blast

lemma pcp_listsD:
  assumes "pcp_lists s L"
  shows "pl_ok s zone mt (pcp s (cpu, zone, mt)) (L (cpu, zone, mt))" "p \<in> set (L k) \<Longrightarrow> fst k < MAX_CPUS"
    "p \<in> set (L k) \<Longrightarrow> p \<in> set (L k') \<Longrightarrow> k = k'"
  using assms unfolding pcp_lists_def by blast+

lemma content_upd:
  assumes "pcp_lists s L"
  shows "content (L(k := xs)) = (content L - set (L k)) \<union> set xs"
proof -
  have "p \<notin> set (L k)" if "p \<in> set (L k')" "k' \<noteq> k" for p k'
    using assms that unfolding pcp_lists_def by blast
  then show ?thesis unfolding content_def by (intro equalityI subsetI) (fastforce split: if_splits simp del: split_paired_Ex)+
qed

lemma pcp_lists_upd:
  assumes "pcp_lists s L" and k: "k = (cpu, zone, mt)" and "pcp s' = (pcp s)(k := l)" and "pl_ok s' zone mt l xs"
    and "keeps s (content L - set (L k)) s'" and "set xs \<inter> (content L - set (L k)) = {}" and "cpu < MAX_CPUS"
  shows "pcp_lists s' (L(k := xs))"
proof -
  have ok: "pl_ok s' z m (pcp s' (c, z, m)) ((L(k := xs)) (c, z, m))" for c z m
  proof (cases "(c, z, m) = k")
    case True
    then show ?thesis using assms(3,4) k by simp
  next
    case False
    have "set (L (c, z, m)) \<subseteq> content L - set (L k)"
      using assms(1) False content_mem unfolding pcp_lists_def by fast
    moreover have "pl_ok s z m (pcp s (c, z, m)) (L (c, z, m))" using assms(1) by (simp add: pcp_lists_def)
    ultimately show ?thesis using False assms(3) pl_ok_keeps [OF _ assms(5)] by simp
  qed
  have "fst k' < MAX_CPUS" if "p \<in> set ((L(k := xs)) k')" for k' p
    using that assms(7) pcp_listsD(2) [OF assms(1)] k by (cases "k' = k") simp_all
  moreover have "k1 = k2" if "p \<in> set ((L(k := xs)) k1)" "p \<in> set ((L(k := xs)) k2)" for k1 k2 p
  proof -
    have other: "p \<notin> set xs" if "k' \<noteq> k" "p \<in> set (L k')" for k'
      using that assms(6) content_mem [of p L, OF that(2)] pcp_listsD(3) [OF assms(1)] by blast
    show ?thesis using that other [of k1] other [of k2] pcp_listsD(3) [OF assms(1), of p k1 k2]
      by (cases "k1 = k"; cases "k2 = k") simp_all
  qed
  ultimately show ?thesis unfolding pcp_lists_def using ok by blast
qed

end
