(* ===== verification/Pagesets_Alloc.thy ===== *)
theory Pagesets_Alloc
  imports Pagesets_Ops
begin

text \<open>
  Allocation from a pageset, draining and freeing to one keep the allocator invariant, and say
  which page moves where.
\<close>

section \<open>Allocation\<close>

definition taken :: "pmm \<Rightarrow> nat \<Rightarrow> nat \<Rightarrow> pmm \<Rightarrow> bool" where
  "taken s order p s' \<longleftrightarrow> pages p order \<subseteq> avail s \<and> avail s' = avail s - pages p order \<and> block_ok s' p order \<and>
     steady s (avail s) s'"

definition page_post :: "nat set \<Rightarrow> nat set \<Rightarrow> pmm \<Rightarrow> nat \<Rightarrow> pmm \<times> nat option \<Rightarrow> bool" where
  "page_post M R s zone sr \<longleftrightarrow> (case sr of (s', None) \<Rightarrow> s' = s
     | (s', Some p) \<Rightarrow> pmm_inv M R s' \<and> taken s 0 p s' \<and> zi s p = zone)"

lemma pcp_key_cases: "pcp_key cpu zone mt = (min cpu (MAX_CPUS - 1), zone, mt)" "min cpu (MAX_CPUS - 1) < MAX_CPUS"
  by (simp_all add: pcp_key_def MAX_CPUS_def)

lemma lists_invD:
  assumes "lists_inv s L"
  shows "buddy_inv s" "pcp_lists s L" "cached s = content L" "pfn_max s \<le> 64 * length (pcp_bitmap s)"
    "free_set s \<inter> content L = {}" "shape_ok s"
  using assms buddy_inv_shape by (auto simp: lists_inv_def)

lemma buddy_inv_same:
  "mem s' = mem s \<Longrightarrow> bitmaps s' = bitmaps s \<Longrightarrow> pageblocks s' = pageblocks s \<Longrightarrow> free_heads s' = free_heads s \<Longrightarrow>
   free_count s' = free_count s \<Longrightarrow> pfn_max s' = pfn_max s \<Longrightarrow> layout s' = layout s \<Longrightarrow> buddy_inv s \<Longrightarrow> buddy_inv s'"
  using buddy_inv_cong by blast

lemma pageset_change:
  assumes I: "lists_inv s L" and k: "k = (cpu, zone, mt)" "cpu < MAX_CPUS" and "buddy_inv s'" and "pcp s' = (pcp s)(k := l)"
    and "pl_ok s' zone mt l xs" and "keeps s (content L - set (L k)) s'" and "set xs \<inter> (content L - set (L k)) = {}"
    and "cached s' = cached s - set (L k) \<union> set xs" and "length (pcp_bitmap s') = length (pcp_bitmap s)"
    and "free_set s' \<inter> cached s' = {}"
  shows "lists_inv s' (L(k := xs))"
proof -
  have "pcp_lists s' (L(k := xs))"
    using assms(5-8) k by (intro pcp_lists_upd [OF lists_invD(2) [OF I]]) simp_all
  moreover have "content (L(k := xs)) = cached s'"
    using content_upd [OF lists_invD(2) [OF I]] lists_invD(3) [OF I] assms(9) by simp
  moreover have "pfn_max s' = pfn_max s" using assms(7) by (simp add: keeps_def)
  ultimately show ?thesis using assms(4,10,11) lists_invD(4) [OF I] by (simp add: lists_inv_def)
qed

lemma list_cached: "lists_inv s L \<Longrightarrow> set (L k) \<subseteq> cached s"
  using content_mem [of _ L k] lists_invD(3) by blast

lemma pop_current_pcp_ok:
  assumes ok: "pmm_ok M R s L"
  shows "returns (pop_current_pcp cpu s zone mt) (page_post M R s zone)"
proof -
  define k where "k = pcp_key cpu zone mt"
  have LI: "lists_inv s L" and c: "counters_inv M R s" using ok by (simp_all add: pmm_ok_def)
  note I = lists_invD [OF LI]
  have k: "k = (min cpu (MAX_CPUS - 1), zone, mt)" by (simp add: k_def pcp_key_cases)
  have l: "pl_ok s zone mt (pcp s k) (L k)" unfolding k by (rule pcp_listsD(1) [OF I(2)])
  show ?thesis
  proof (cases "L k")
    case Nil
    then show ?thesis using pl_pop_ok [OF I(6) l] by (simp add: pop_current_pcp_def k_def page_post_def)
  next
    case (Cons p xs)
    let ?l = "\<lparr>pl_head = next_of (mem s) p, pl_count = length xs\<rparr>"
    let ?s1 = "s\<lparr>pcp := (pcp s)(k := ?l)\<rparr>"
    have pp: "pcp_page s zone mt p" "p \<notin> set xs" using l by (auto simp: pl_ok_def Cons)
    have pc: "p \<in> content L" using content_mem [of p L k] Cons by simp
    have p: "p < pfn_max s" "zi s p = zone" "p \<in> cached s" "p \<notin> free_set s" "p \<in> avail s"
      using pp pc I(3,5) by (auto simp: pcp_page_def avail_def)
    obtain bm where bm: "pcp_unmark ?s1 p = Some (?s1\<lparr>pcp_bitmap := bm\<rparr>)" "bm_bits bm = cached s - {p}"
      "length bm = length (pcp_bitmap s)"
      using pcp_unmark_ok [of p ?s1] p I(4) by auto
    define s' where "s' = count_pcp_alloc (?s1\<lparr>pcp_bitmap := bm, pcp_free := (pcp_free s)(zone := wrapping_sub (pcp_free s zone) 1),
        zone_free := (zone_free s)(zone := wrapping_sub (zone_free s zone) 1)\<rparr>)"
    have run: "pop_current_pcp cpu s zone mt = Some (s', Some p)"
      using pl_pop_ok [OF I(6) l] verify_pcp_page_ok [of ?s1 zone mt p] I(6) pp p bm(1)
      by (simp add: pop_current_pcp_def k_def [symmetric] Cons s'_def Let_def)
    have f: "mem s' = mem s" "bitmaps s' = bitmaps s" "pageblocks s' = pageblocks s" "free_heads s' = free_heads s"
      "free_count s' = free_count s" "pfn_max s' = pfn_max s" "layout s' = layout s" "pcp s' = (pcp s)(k := ?l)"
      "pcp_bitmap s' = bm" "allocated s' = allocated s" "initial_free s' = initial_free s" "reserved s' = reserved s"
      "pcp_free s' = (pcp_free s)(zone := wrapping_sub (pcp_free s zone) 1)"
      "zone_free s' = (zone_free s)(zone := wrapping_sub (zone_free s zone) 1)"
      by (simp_all add: s'_def count_pcp_alloc_def)
    have st: "steady s {} s'"
      using f migratetype_cong [OF f(3)] by (simp add: steady_def s'_def count_pcp_alloc_def)
    have keep: "keeps s UNIV s'" using steady_keeps [OF st] by simp
    have "lists_inv s' (L(k := xs))"
    proof (rule pageset_change [OF LI k pcp_key_cases(2) buddy_inv_same [OF f(1-7) I(1)] f(8) _ keeps_subset [OF keep]])
      show "pl_ok s' zone mt ?l xs" using pl_ok_keeps [OF pl_ok_tail [OF l [unfolded Cons]] keep] by simp
    qed (use bm pp(2) I list_cached [OF LI, of k] in \<open>auto simp: f Cons\<close>)
    moreover have av: "avail s' = avail s - {p}" using p(4) by (auto simp: avail_def f bm(2))
    have "counters_inv M R s'"
    proof (rule counters_upd [OF c f(6,7,11) _ _ _ _ _ f(13) _ f(14)])
      note cb = counters_bound(1,2) [OF c I(6), of zone] counters_bound(3) [OF c I(6)]
      have "0 < pcp_free s zone" using c p(2,3) by (auto simp: counters_inv_def in_zone_def card_gt_0_iff)
      then show "wrapping_sub (pcp_free s zone) 1 + card (cached s - cached s') = pcp_free s zone + card (cached s' - cached s)"
        "wrapping_sub (zone_free s zone) 1 + card (avail s - avail s') = zone_free s zone + card (avail s' - avail s)"
        using cb p(3,5) by (simp_all add: wrapping_sub_eq f bm(2) av double_diff)
    qed (use c p av bm(2) in \<open>auto simp: counters_inv_def f\<close>)
    ultimately have "pmm_inv M R s'" by (auto simp: pmm_inv_def pmm_ok_def)
    moreover have "taken s 0 p s'"
      using p(5) av st block_ok_page [of p s'] p(1) by (auto simp: taken_def f steady_def)
    ultimately show ?thesis using run p(2) by (simp add: page_post_def)
  qed
qed

lemma refill_current_pcp_ok:
  assumes ok: "pmm_ok M R s L" and zone: "zone < NR_ZONES" and nf: "no_foreign s zone mt"
  shows "returns (refill_current_pcp cpu s zone highest w mt) (page_post M R s zone)"
proof -
  define k where "k = pcp_key cpu zone mt"
  have LI: "lists_inv s L" and c: "counters_inv M R s" using ok by (simp_all add: pmm_ok_def)
  note I = lists_invD [OF LI]
  have k: "k = (min cpu (MAX_CPUS - 1), zone, mt)" by (simp add: k_def pcp_key_cases)
  define wanted where "wanted = max (cfg_batch (pcp_zone s zone)) 1"
  obtain s1 rl T where run1: "refill_loop wanted s pl_empty zone highest w mt = Some (s1, rl)"
    and r: "buddy_inv s1" "pl_ok s1 zone mt rl T" "set T \<subseteq> free_set s" "free_set s1 = free_set s - set T"
      "\<forall>p \<in> set T. zi s p = zone" "outer s1 = outer (s\<lparr>allocated := allocated s + length T\<rparr>)" "T = [] \<longrightarrow> s1 = s"
      "\<forall>q. q \<notin> free_set s \<longrightarrow> mem s1 q = mem s q \<and> migratetype s1 q = migratetype s q"
    using refill_loop_ok [OF I(1) zone nf pl_ok_empty, of wanted highest w] by (fastforce simp: returns_def refill_post_def)
  note f1 = outer_allocatedD [OF r(6)]
  have len: "pl_count rl = length T" using r(2) by (simp add: pl_ok_def)
  show ?thesis
  proof (cases T)
    case Nil
    then show ?thesis using run1 len r(7) unfolding refill_current_pcp_def Let_def wanted_def [symmetric]
      by (simp add: page_post_def)
  next
    case (Cons p T')
    have sh1: "shape_ok s1" using r(1) by (rule buddy_inv_shape)
    have keep1: "keeps s (content L) s1" using r(8) I(5) f1 by (auto simp: keeps_def)
    let ?r = "\<lparr>pl_head = next_of (mem s1) p, pl_count = length T'\<rparr>"
    have pp: "pcp_page s1 zone mt p" "p \<notin> set T'" "distinct T'" using r(2) by (auto simp: pl_ok_def Cons)
    have lk: "pl_ok s1 zone mt (pcp s k) (L k)"
      using pl_ok_keeps [OF pcp_listsD(1) [OF I(2)] keep1] content_mem [of _ L k] unfolding k by blast
    have dj: "set T \<inter> content L = {}" using r(3) I(5) by blast
    obtain m bm l' where run2: "cache_loop s1 ?r (pcp s k) = Some (s1\<lparr>mem := m, pcp_bitmap := bm\<rparr>, l')"
      and q: "pl_ok (s1\<lparr>mem := m\<rparr>) zone mt l' (rev T' @ L k)" "bm_bits bm = cached s \<union> set T'"
        "length bm = length (pcp_bitmap s)" "\<forall>q. q \<notin> set T' \<longrightarrow> m q = mem s1 q"
      using cache_loop_ok [OF sh1 pl_ok_tail [OF r(2) [unfolded Cons]] lk] dj content_mem [of _ L k] I(3,4)
      by (fastforce simp: f1 Cons)
    define s' where "s' = count_pcp_alloc (s1\<lparr>mem := m, pcp_bitmap := bm, pcp := (pcp s)(k := l'),
        pcp_free := (pcp_free s)(zone := wrapping_add (pcp_free s zone) (length T')),
        zone_free := (zone_free s)(zone := wrapping_sub (zone_free s zone) 1)\<rparr>)"
    have "pcp_page (s1\<lparr>mem := m\<rparr>) zone mt p"
      using pp q(4) header_cong(3) [of m p "mem s1"] by (simp add: pcp_page_def)
    then have "verify_pcp_node (s1\<lparr>mem := m, pcp_bitmap := bm, pcp := (pcp s)(k := l'),
        pcp_free := (pcp_free s)(zone := wrapping_add (pcp_free s zone) (length T')),
        zone_free := (zone_free s)(zone := wrapping_sub (zone_free s zone) 1)\<rparr>) p zone mt = Some ()"
      using sh1 by (intro verify_pcp_node_ok) (simp_all add: shape_ok_def)
    then have run: "refill_current_pcp cpu s zone highest w mt = Some (s', Some p)"
      using run1 run2 pl_pop_ok [OF sh1 r(2)]
      unfolding refill_current_pcp_def Let_def wanted_def [symmetric] k_def [symmetric]
      by (simp add: len Cons s'_def f1)
    have f: "mem s' = m" "bitmaps s' = bitmaps s1" "pageblocks s' = pageblocks s1" "free_heads s' = free_heads s1"
      "free_count s' = free_count s1" "pfn_max s' = pfn_max s" "layout s' = layout s" "pcp s' = (pcp s)(k := l')"
      "pcp_bitmap s' = bm" "allocated s' = allocated s + length T" "initial_free s' = initial_free s" "reserved s' = reserved s"
      "pcp_free s' = (pcp_free s)(zone := wrapping_add (pcp_free s zone) (length T'))"
      "zone_free s' = (zone_free s)(zone := wrapping_sub (zone_free s zone) 1)"
      by (simp_all add: s'_def count_pcp_alloc_def f1)
    have st: "steady s (free_set s) s'"
      using r(3,8) q(4) f1 migratetype_cong [OF f(3)] by (auto simp: steady_def f Cons) (simp add: s'_def count_pcp_alloc_def)
    have keep: "keeps s (content L) s'" using steady_keeps [OF st I(5)] .
    have bi: "buddy_inv s'"
    proof (rule buddy_inv_same [of _ "s1\<lparr>mem := m\<rparr>"])
      show "buddy_inv (s1\<lparr>mem := m\<rparr>)" by (rule buddy_inv_mem [OF r(1)]) (use q(4) in \<open>auto simp: r(4) Cons\<close>)
    qed (simp_all add: f f1)
    have li: "lists_inv s' (L(k := rev T' @ L k))"
    proof (rule pageset_change [OF LI k pcp_key_cases(2) bi f(8) _ keeps_subset [OF keep]])
      show "pl_ok s' zone mt l' (rev T' @ L k)"
        by (rule pl_ok_keeps [OF q(1), of UNIV]) (simp_all add: keeps_def f f1 migratetype_cong [OF f(3)])
    qed (use dj q(2,3) I(3,5) list_cached [OF LI, of k] in \<open>auto simp: f r(4) Cons\<close>)
    have p: "p \<in> free_set s" "zi s p = zone" "p < pfn_max s" using r(3,5) pp(1) by (auto simp: Cons pcp_page_def f1)
    have av: "avail s' = avail s - {p}" and p': "p \<in> avail s" and ca: "cached s' - cached s = set T'" "cached s - cached s' = {}"
      using dj pp(2) r(3) p(1) I(3) by (auto simp: avail_def f q(2) r(4) Cons)
    have "counters_inv M R s'"
    proof (rule counters_upd [OF c f(6,7,11) _ _ _ _ _ f(13) _ f(14)])
      have "in_zone s zone (avail s') \<subseteq> in_zone s zone (avail s)" "finite (in_zone s zone (avail s))"
        by (auto simp: in_zone_def av)
      then have ub: "card (in_zone s zone (avail s')) \<le> pfn_max s"
        using counters_bound(1) [OF c I(6), of zone] c card_mono le_trans unfolding counters_inv_def by metis
      have "pcp_free s zone + length T' = card (in_zone s zone (cached s'))"
        using in_zone_swap [of "cached s" "cached s'" s zone zone] c r(5) ca distinct_card [OF pp(3)]
        by (auto simp: counters_inv_def Cons)
      also have "\<dots> \<le> card (in_zone s zone (avail s'))" by (intro card_mono) (auto simp: in_zone_def avail_def)
      finally show "wrapping_add (pcp_free s zone) (length T') + card (cached s - cached s') = pcp_free s zone + card (cached s' - cached s)"
        using ub counters_bound(3) [OF c I(6)] distinct_card [OF pp(3)] by (simp add: wrapping_add_eq ca)
      have "0 < zone_free s zone" using c p p' by (auto simp: counters_inv_def in_zone_def card_gt_0_iff)
      then show "wrapping_sub (zone_free s zone) 1 + card (avail s - avail s') = zone_free s zone + card (avail s' - avail s)"
        using counters_bound(1) [OF c I(6), of zone] counters_bound(3) [OF c I(6)] p'
        by (simp add: wrapping_sub_eq av double_diff)
      have "free_set s' - free_set s = {}" "free_set s - free_set s' = set T" using r(3,4) by (auto simp: f)
      then show "allocated s' + card (free_set s' - free_set s) = allocated s + card (free_set s - free_set s')"
        using r(2) by (simp add: f distinct_card pl_ok_def)
    qed (use c p av ca r(5) in \<open>auto simp: counters_inv_def f Cons\<close>)
    then have "pmm_inv M R s'" using li by (auto simp: pmm_inv_def pmm_ok_def)
    moreover have "taken s 0 p s'"
      using p' av steady_trans [OF st steady_refl, of "avail s" "{}"] block_ok_page [of p s'] p(3)
      by (auto simp: taken_def f avail_def)
    ultimately show ?thesis using run p(2) by (simp add: page_post_def)
  qed
qed


lemma walk_from_le: "z \<in> set (walk_from zl highest pos) \<Longrightarrow> zone_index z \<le> highest"
proof (induction zl highest pos rule: walk_from.induct)
  case (1 zl highest pos)
  have idx: "zone_index z' \<le> highest" if "walk_next zl highest pos = (Some z', q)" for z' q
    using that
  proof (induction zl highest pos rule: walk_next.induct)
    case (1 zl highest pos)
    then show ?case
      by (subst (asm) (2) walk_next.simps) (auto simp: Let_def zone_from_index_def split: if_splits)
  qed
  show ?case using 1 idx [OF sym] by (subst (asm) (2) walk_from.simps) (auto split: prod.splits option.splits)
qed

definition pcp_post :: "nat set \<Rightarrow> nat set \<Rightarrow> pmm \<Rightarrow> nat \<Rightarrow> pmm \<times> nat option \<Rightarrow> bool" where
  "pcp_post M R s hi sr \<longleftrightarrow> (case sr of (s', None) \<Rightarrow> s' = s
     | (s', Some p) \<Rightarrow> pmm_inv M R s' \<and> taken s 0 p s' \<and> zi s p \<le> hi)"

lemma zone_index_less: "zone_index z < NR_ZONES"
  by (cases z) (simp_all add: NR_ZONES_def)

lemma alloc_from_pcp_zones_ok:
  assumes "pmm_ok M R s L" and "\<forall>z \<in> set zones. zone_index z \<le> hi" and "\<forall>z \<le> hi. no_foreign s z mt"
  shows "returns (alloc_from_pcp_zones cpu s hi w mt zones) (pcp_post M R s hi)"
  using assms(2)
proof (induction zones)
  case (Cons z zones)
  let ?z = "zone_index z"
  have z: "?z \<le> hi" and rest: "returns (alloc_from_pcp_zones cpu s hi w mt zones) (pcp_post M R s hi)"
    using Cons by simp_all
  have got: "pcp_post M R s hi (s', Some p)" if "page_post M R s ?z (s', Some p)" for s' p
    using that z by (simp add: page_post_def pcp_post_def)
  have fill: "returns (do { (s, r) \<leftarrow> refill_current_pcp cpu s ?z hi w mt;
      (case r of Some pfn \<Rightarrow> Some (s, Some pfn) | None \<Rightarrow> alloc_from_pcp_zones cpu s hi w mt zones) }) (pcp_post M R s hi)"
    by (rule returns_bind [OF refill_current_pcp_ok [OF assms(1) zone_index_less]])
      (use assms(3) z rest got in \<open>auto simp: page_post_def split: option.splits\<close>)
  show ?case unfolding alloc_from_pcp_zones.simps Let_def
    by (rule returns_if, rule rest, rule returns_bind [OF pop_current_pcp_ok [OF assms(1)]])
      (use fill got in \<open>auto simp: page_post_def split: option.splits\<close>)
qed (simp add: pcp_post_def)

lemma alloc_from_pcp_ok:
  assumes "pmm_ok M R s L" and "\<forall>z \<le> hi. no_foreign s z mt"
  shows "returns (alloc_from_pcp cpu s hi w mt) (pcp_post M R s hi)"
  unfolding alloc_from_pcp_def
  using alloc_from_pcp_zones_ok [OF assms(1) _ assms(2)] walk_from_le by (simp add: zonelist_walk_def)

end
