(* ===== verification/Pagesets_Drain.thy ===== *)
theory Pagesets_Drain
  imports Pagesets_Alloc
begin

text \<open>
  Draining pagesets into the buddy lists and freeing one page into a pageset: both keep the
  allocator invariant; a drain changes nothing a caller can observe, a free adds exactly its page.
\<close>

section \<open>Draining\<close>

lemma drain_tail:
  assumes LI: "lists_inv s L" and D: "pl_ok s zone mt l D" "set D \<inter> avail s = {}" and al: "length D \<le> allocated s"
  shows "returns (drain_pcp_list s zone mt l) (\<lambda>s'. lists_inv s' L \<and> free_set s' = free_set s \<union> set D \<and>
    outer s' = outer (s\<lparr>allocated := allocated s - length D\<rparr>) \<and> steady s (free_set s') s')"
proof -
  note I = lists_invD [OF LI]
  have n: "pl_count l = length D" using D(1) by (simp add: pl_ok_def)
  have dj: "set D \<inter> free_set s = {}" using D(2) by (auto simp: avail_def)
  show ?thesis unfolding drain_pcp_list_def Let_def n
  proof (rule returns_bind [OF drain_loop_ok [OF I(1) D(1) dj]], elim conjE, intro returns_bind [OF returns_checked_sub [where P = "\<lambda>a. a = allocated s - length D"]])
    fix t assume t: "buddy_inv t" "buddy_frame s t" "pageblocks t = pageblocks s" "free_set t = free_set s \<union> set D"
      "\<forall>q. q \<notin> free_set t \<longrightarrow> mem t q = mem s q"
    note f = buddy_frameD [OF t(2)]
    show "length D \<le> allocated t" "allocated t - length D = allocated s - length D" using al by (simp_all add: f)
    fix a assume a: "a = allocated s - length D"
    let ?t = "t\<lparr>allocated := a\<rparr>"
    have o: "outer ?t = outer (s\<lparr>allocated := allocated s - length D\<rparr>)"
      using t(2) by (simp add: outer_allocated buddy_frame_def a)
    have st: "steady s (free_set ?t) ?t"
      using t(5) static_outer [OF t(2) [unfolded buddy_frame_def]] migratetype_cong [OF t(3)] by (simp add: steady_def)
    have disj: "free_set t \<inter> content L = {}" using I(3,5) D(2) by (auto simp: t(4) avail_def)
    have "pcp_lists ?t L"
    proof -
      have "keeps s (content L) ?t" using steady_keeps [OF st] disj by simp
      then have "pl_ok ?t z m (pcp ?t (c, z, m)) (L (c, z, m))" for c z m
        using pl_ok_keeps [OF pcp_listsD(1) [OF I(2)]] content_mem [of _ L "(c, z, m)"] f(14) by fastforce
      then show ?thesis using pcp_listsD(2,3) [OF I(2)] unfolding pcp_lists_def by blast
    qed
    then have "lists_inv ?t L" using t(1) I(3,4) disj by (simp add: lists_inv_def f)
    then show "returns (Some ?t) (\<lambda>s'. lists_inv s' L \<and> free_set s' = free_set s \<union> set D \<and>
      outer s' = outer (s\<lparr>allocated := allocated s - length D\<rparr>) \<and> steady s (free_set s') s')"
      using o st t(4) by simp
  qed
qed

lemma allocated_bound:
  assumes "counters_inv M R s" and "A \<subseteq> M" and "A \<inter> free_set s = {}"
  shows "card A \<le> allocated s"
proof -
  have fin: "finite M" using assms(1) finite_subset by (auto simp: counters_inv_def)
  have "free_set s \<subseteq> M" using assms(1) by (auto simp: counters_inv_def avail_def)
  then have "card (A \<union> free_set s) \<le> card M" using assms(2) fin by (intro card_mono) auto
  moreover have "card (A \<union> free_set s) = card A + card (free_set s)"
    using assms(3) finite_subset [OF assms(2) fin] by (intro card_Un_disjoint) auto
  ultimately show ?thesis using assms(1) by (simp add: counters_inv_def)
qed

definition drain_post :: "nat set \<Rightarrow> nat set \<Rightarrow> pmm \<Rightarrow> pcp_content \<Rightarrow> pmm \<Rightarrow> bool" where
  "drain_post M R s L' s' \<longleftrightarrow> pmm_ok M R s' L' \<and> avail s' = avail s \<and> steady s (avail s) s'"

lemma drain_one_ok:
  assumes ok: "pmm_ok M R s L" and k: "k = pcp_key cpu zone mt"
  shows "returns (drain_one s zone mt cpu) (\<lambda>(s', b). drain_post M R s (L(k := [])) s' \<and> (b \<longleftrightarrow> L k \<noteq> []))"
proof -
  have LI: "lists_inv s L" and c: "counters_inv M R s" using ok by (simp_all add: pmm_ok_def)
  note I = lists_invD [OF LI]
  have k': "k = (min cpu (MAX_CPUS - 1), zone, mt)" by (simp add: k pcp_key_cases)
  define D where "D = L k"
  have l: "pl_ok s zone mt (pcp s k) D" unfolding k' D_def by (rule pcp_listsD(1) [OF I(2)])
  have Dc: "set D \<subseteq> cached s" "set D \<inter> free_set s = {}" using list_cached [OF LI, of k] I(3,5) by (auto simp: D_def)
  have "length D \<le> U64_MAX"
  proof -
    have "set D \<subseteq> {..<pfn_max s}" using l by (auto simp: pl_ok_def pcp_page_def)
    then have "card (set D) \<le> pfn_max s" using card_mono [of "{..<pfn_max s}"] by fastforce
    then show ?thesis using l counters_bound(3) [OF c I(6)] by (simp add: pl_ok_def distinct_card)
  qed
  then obtain m0 l0 tk where tk: "pl_take (mem s) (pfn_max s) (pcp s k) U64_MAX = Some (m0, l0, tk)"
      "pl_ok (s\<lparr>mem := m0\<rparr>) zone mt l0 []" "pl_ok (s\<lparr>mem := m0\<rparr>) zone mt tk (rev D)" "\<And>q. q \<notin> set D \<Longrightarrow> m0 q = mem s q"
    using pl_take_ok [OF I(6) l, of U64_MAX] by (metis take_all drop_all)
  let ?s1 = "s\<lparr>mem := m0, pcp := (pcp s)(k := l0)\<rparr>"
  have tk1: "pl_ok ?s1 zone mt tk (rev D)" using tk(3) by simp
  obtain m bm l2 where rel: "release_loop ?s1 zone mt tk pl_empty = Some (?s1\<lparr>mem := m, pcp_bitmap := bm\<rparr>, l2)"
      "pl_ok (?s1\<lparr>mem := m\<rparr>) zone mt l2 D" "bm_bits bm = cached s - set D" "length bm = length (pcp_bitmap s)"
      "\<forall>q. q \<notin> set D \<longrightarrow> m q = m0 q"
    using release_loop_ok [OF _ tk1 pl_ok_empty] I Dc by auto
  define s2 where "s2 = ?s1\<lparr>mem := m, pcp_bitmap := bm, pcp_free := (pcp_free s)(zone := wrapping_sub (pcp_free s zone) (length D))\<rparr>"
  have f2: "mem s2 = m" "bitmaps s2 = bitmaps s" "pageblocks s2 = pageblocks s" "free_heads s2 = free_heads s"
    "free_count s2 = free_count s" "pfn_max s2 = pfn_max s" "layout s2 = layout s" "pcp s2 = (pcp s)(k := l0)"
    "pcp_bitmap s2 = bm" "allocated s2 = allocated s" "initial_free s2 = initial_free s" "reserved s2 = reserved s"
    "pcp_free s2 = (pcp_free s)(zone := wrapping_sub (pcp_free s zone) (length D))" "zone_free s2 = zone_free s"
    by (simp_all add: s2_def)
  have st2: "steady s (set D) s2"
    using rel(5) tk(4) migratetype_cong [OF f2(3)] by (simp add: steady_def f2) (simp add: s2_def)
  have bi2: "buddy_inv s2"
  proof (rule buddy_inv_same [of _ "s\<lparr>mem := m\<rparr>"])
    show "buddy_inv (s\<lparr>mem := m\<rparr>)" by (rule buddy_inv_mem [OF I(1)]) (use Dc(2) rel(5) tk(4) in auto)
  qed (simp_all add: f2)
  have li2: "lists_inv s2 (L(k := []))"
    by (rule pageset_change [OF LI k' pcp_key_cases(2) bi2 f2(8) _ steady_keeps [OF st2]])
      (use tk(2) rel(3,4) I(3,5) pl_ok_Nil [OF tk(2)] in \<open>auto simp: f2 D_def\<close>)
  have l2: "pl_ok s2 zone mt l2 D"
    by (rule pl_ok_keeps [OF rel(2), of UNIV]) (simp_all add: keeps_def f2 migratetype_cong [OF f2(3)])
  have cnt: "card (set D) = length D" "pl_count l2 = length D" using l l2 by (simp_all add: pl_ok_def distinct_card)
  have DM: "set D \<subseteq> M" using Dc(1) c by (auto simp: counters_inv_def avail_def)
  have run: "drain_one s zone mt cpu = (if length D = 0 then Some (s2, False)
      else drain_pcp_list s2 zone mt l2 \<bind> (\<lambda>s. Some (s, True)))"
  proof -
    have "s2 = ?s1\<lparr>mem := m, pcp_bitmap := bm\<rparr>" if "length D = 0"
      using that counters_bound(1,2) [OF c I(6), of zone] counters_bound(3) [OF c I(6)]
      by (simp add: s2_def wrapping_sub_eq)
    then show ?thesis
      using tk(1) rel(1) by (simp add: drain_one_def k [symmetric] release_pcp_batch_def cnt s2_def)
  qed
  have tail: "returns (drain_pcp_list s2 zone mt l2) (\<lambda>s'. lists_inv s' (L(k := [])) \<and> free_set s' = free_set s2 \<union> set D \<and>
      outer s' = outer (s2\<lparr>allocated := allocated s2 - length D\<rparr>) \<and> steady s2 (free_set s') s')"
    using Dc allocated_bound [OF c DM Dc(2)] cnt
    by (intro drain_tail [OF li2 l2]) (auto simp: avail_def f2 rel(3))
  have fin: "drain_post M R s (L(k := [])) s'"
    if s': "lists_inv s' (L(k := []))" "free_set s' = free_set s2 \<union> set D"
      "outer s' = outer (s2\<lparr>allocated := allocated s2 - length D\<rparr>)" "steady s2 (free_set s') s'" for s'
  proof -
    note f' = outer_allocatedD [OF s'(3)]
    have av: "avail s' = avail s" using Dc(1) by (auto simp: avail_def s'(2) f' f2 rel(3))
    have pfz: "length D \<le> pcp_free s zone"
    proof -
      have "set D \<subseteq> in_zone s zone (cached s)" using Dc(1) l by (auto simp: in_zone_def pl_ok_def pcp_page_def)
      then have "card (set D) \<le> card (in_zone s zone (cached s))" by (intro card_mono) (simp_all add: in_zone_def)
      then show ?thesis using c cnt by (simp add: counters_inv_def)
    qed
    have "counters_inv M R s'"
    proof (rule counters_upd [OF c, of s' R zone "wrapping_sub (pcp_free s zone) (length D)" "zone_free s zone"])
      show "wrapping_sub (pcp_free s zone) (length D) + card (cached s - cached s') = pcp_free s zone + card (cached s' - cached s)"
        using pfz counters_bound(1,2) [OF c I(6), of zone] counters_bound(3) [OF c I(6)] Dc(1) cnt
        by (simp add: f' f2 rel(3) double_diff wrapping_sub_eq)
      have "free_set s - free_set s' = {}" "free_set s' - free_set s = set D" using Dc(2) by (auto simp: s'(2) f2)
      then show "allocated s' + card (free_set s' - free_set s) = allocated s + card (free_set s - free_set s')"
        using allocated_bound [OF c DM Dc(2)] cnt by (simp add: f' f2)
      show "zi s p = zone" if "p \<in> (cached s - cached s') \<union> (cached s' - cached s)" for p
        using that l Dc(1) by (auto simp: f' f2 rel(3) pl_ok_def pcp_page_def)
    qed (use c av in \<open>auto simp: f' f2 counters_inv_def\<close>)
    moreover have "steady s (avail s) s'"
      using steady_trans [OF st2 s'(4), of "avail s"] av Dc(1) by (auto simp: avail_def)
    ultimately show ?thesis using s'(1) av by (simp add: drain_post_def pmm_ok_def)
  qed
  show ?thesis unfolding run
  proof (rule returns_if)
    assume "length D = 0"
    then have "drain_post M R s (L(k := [])) s2" using li2 by (intro fin) (simp_all add: f2 outer_def)
    then show "returns (Some (s2, False)) (\<lambda>(s', b). drain_post M R s (L(k := [])) s' \<and> (b \<longleftrightarrow> L k \<noteq> []))"
      using \<open>length D = 0\<close> by (simp add: D_def)
  next
    assume "length D \<noteq> 0"
    then show "returns (drain_pcp_list s2 zone mt l2 \<bind> (\<lambda>s. Some (s, True))) (\<lambda>(s', b). drain_post M R s (L(k := [])) s' \<and> (b \<longleftrightarrow> L k \<noteq> []))"
      by (intro returns_bind [OF tail]) (use fin in \<open>auto simp: D_def\<close>)
  qed
qed


lemma drain_post_trans:
  assumes "drain_post M R s L1 t" and "drain_post M R t L2 u"
  shows "drain_post M R s L2 u"
proof -
  have "steady s (avail s) u"
    using assms steady_trans [of s "avail s" t "avail t" u "avail s"] by (simp add: drain_post_def)
  then show ?thesis using assms by (simp add: drain_post_def)
qed

lemma drain_slots_ok:
  assumes "pmm_ok M R s L"
  shows "returns (drain_slots s slots b) (\<lambda>(s', b'). drain_post M R s
      (\<lambda>k. if \<exists>(zone, mt, cpu) \<in> set slots. k = pcp_key cpu zone mt then [] else L k) s' \<and>
      (b' \<longleftrightarrow> b \<or> (\<exists>(zone, mt, cpu) \<in> set slots. L (pcp_key cpu zone mt) \<noteq> [])))"
  using assms
proof (induction slots arbitrary: s L b)
  case Nil
  then show ?case by (simp add: drain_post_def)
next
  case (Cons x slots)
  obtain zone mt cpu where x: "x = (zone, mt, cpu)" by (metis prod_cases3)
  let ?k = "pcp_key cpu zone mt"
  show ?case unfolding x drain_slots.simps
  proof (rule returns_bind [OF drain_one_ok [OF Cons.prems refl]], unfold split_paired_all prod.case, elim conjE)
    fix t d assume t: "drain_post M R s (L(?k := [])) t" and d: "d \<longleftrightarrow> L ?k \<noteq> []"
    have ok: "pmm_ok M R t (L(?k := []))" using t by (simp add: drain_post_def)
    let ?in = "\<lambda>k ss. \<exists>(zone, mt, cpu) \<in> set ss. k = pcp_key cpu zone mt"
    let ?some = "\<lambda>L ss. \<exists>(zone, mt, cpu) \<in> set ss. L (pcp_key cpu zone mt) \<noteq> []"
    have e: "(\<lambda>k. if ?in k slots then [] else (L(?k := [])) k) = (\<lambda>k. if ?in k ((zone, mt, cpu) # slots) then [] else L k)"
      by (rule ext) simp
    have i: "((b \<or> d) \<or> ?some (L(?k := [])) slots) = (b \<or> ?some L ((zone, mt, cpu) # slots))"
      unfolding d by (cases "L ?k = []") (simp_all add: fun_upd_idem)
    show "returns (drain_slots t slots (b \<or> d)) (\<lambda>(s', b'). drain_post M R s
        (\<lambda>k. if ?in k ((zone, mt, cpu) # slots) then [] else L k) s' \<and> (b' \<longleftrightarrow> b \<or> ?some L ((zone, mt, cpu) # slots)))"
      by (rule returns_mono [OF Cons.IH [OF ok, of "b \<or> d", unfolded e i]]) (use drain_post_trans [OF t] in auto)
  qed
qed

lemma drain_pcp_below_ok:
  assumes "pmm_ok M R s L"
  shows "returns (drain_pcp_below s hi) (\<lambda>(s', b). \<exists>L'. drain_post M R s L' s' \<and>
    (\<forall>cpu zone mt. cpu < MAX_CPUS \<longrightarrow> zone \<in> zone_index ` set (zonelist_walk (zone_list s) hi) \<longrightarrow> L' (cpu, zone, mt) = []) \<and>
    (\<not> b \<longrightarrow> (\<forall>cpu zone mt. cpu < MAX_CPUS \<longrightarrow> zone \<in> zone_index ` set (zonelist_walk (zone_list s) hi) \<longrightarrow> L (cpu, zone, mt) = [])))"
proof -
  have key: "pcp_key cpu zone mt = (cpu, zone, mt)" if "cpu < MAX_CPUS" for cpu zone mt
    using that by (simp add: pcp_key_def MAX_CPUS_def)
  have types: "set all_types = UNIV"
    by (simp add: all_types_def MIGRATE_TYPES_def upt_rec mt_from_index_def UNIV_migrate_type insert_commute)
  show ?thesis unfolding drain_pcp_below_def
    by (rule returns_mono [OF drain_slots_ok [OF assms]])
      (auto simp: key types intro!: exI)
qed

section \<open>Freeing one page\<close>

lemma pages_div: "p \<in> pages (p div 2 ^ k * 2 ^ k) k"
proof -
  have "p mod 2 ^ k < 2 ^ k" by simp
  then have "p < p div 2 ^ k * 2 ^ k + 2 ^ k" using div_mult_mod_eq [of p "2 ^ k"] by linarith
  then show ?thesis by (simp add: pages_def)
qed

lemma not_buddy_marked_ok:
  assumes "shape_ok s" and "p < pfn_max s" and "p \<notin> free_set s" and "\<forall>k \<in> set orders. k \<le> MAX_ORDER"
  shows "not_buddy_marked s p orders = Some ()"
  using assms(4)
proof (induction orders)
  case (Cons k orders)
  have "p div 2 ^ k < 64 * length (bitmaps s k)" using assms(1,2) Cons.prems by (simp add: shape_ok_def)
  then obtain b where b: "bm_get (bitmaps s k) (p div 2 ^ k) = Some b" using bm.get_defined by blast
  have "\<not> b"
  proof
    assume b
    then have "(p div 2 ^ k * 2 ^ k, k) \<in> blocks s" using b Cons.prems by (simp add: blocks_of_mem bm_bits_mem)
    moreover have "p \<in> pages (p div 2 ^ k * 2 ^ k) k" by (rule pages_div)
    ultimately show False using assms(3) span_of_mem by blast
  qed
  then show ?case using b Cons by (simp add: buddy_marked_def)
qed simp


lemma trim_ok:
  assumes sh: "shape_ok s" and l: "pl_ok s zone mt l xs" and xs: "set xs \<subseteq> cached s" and bm: "pfn_max s \<le> 64 * length (pcp_bitmap s)"
  shows "\<exists>m bm l' drain D rest.
    (if pl_count l > high then do {
       (m, l, taken) \<leftarrow> pl_take (mem s) (pfn_max s) l batch;
       (s, drain) \<leftarrow> release_pcp_batch (s\<lparr>mem := m\<rparr>) zone mt taken;
       Some (s, l, drain)
     } else Some (s, l, pl_empty)) = Some (s\<lparr>mem := m, pcp_bitmap := bm\<rparr>, l', drain) \<and>
    pl_ok (s\<lparr>mem := m\<rparr>) zone mt l' rest \<and> pl_ok (s\<lparr>mem := m\<rparr>) zone mt drain D \<and> xs = D @ rest \<and>
    bm_bits bm = cached s - set D \<and> length bm = length (pcp_bitmap s) \<and> (\<forall>q. q \<notin> set D \<longrightarrow> m q = mem s q)"
proof (cases "pl_count l > high")
  case False
  then show ?thesis using l
    by (intro exI [of _ "mem s"] exI [of _ "pcp_bitmap s"] exI [of _ l] exI [of _ pl_empty] exI [of _ "[]"] exI [of _ xs]) simp
next
  case True
  define D where "D = take batch xs"
  define rest where "rest = drop batch xs"
  obtain m0 l0 tk where tk: "pl_take (mem s) (pfn_max s) l batch = Some (m0, l0, tk)" "pl_ok (s\<lparr>mem := m0\<rparr>) zone mt l0 rest"
    "pl_ok (s\<lparr>mem := m0\<rparr>) zone mt tk (rev D)" "\<And>q. q \<notin> set D \<Longrightarrow> m0 q = mem s q"
    using pl_take_ok [OF sh l, of batch] unfolding D_def rest_def by blast
  have D: "set D \<subseteq> cached s" "xs = D @ rest" "set D \<inter> set rest = {}"
    using xs l set_take_subset [of batch xs] set_take_disj_set_drop_if_distinct [of xs batch batch] by (auto simp: D_def rest_def pl_ok_def)
  obtain m bm' l2 where rel: "release_loop (s\<lparr>mem := m0\<rparr>) zone mt tk pl_empty = Some (s\<lparr>mem := m, pcp_bitmap := bm'\<rparr>, l2)"
      "pl_ok (s\<lparr>mem := m\<rparr>) zone mt l2 D" "bm_bits bm' = cached s - set D" "length bm' = length (pcp_bitmap s)"
      "\<forall>q. q \<notin> set D \<longrightarrow> m q = m0 q"
    using release_loop_ok [OF _ tk(3) pl_ok_empty] sh D bm by auto
  have "keeps (s\<lparr>mem := m0\<rparr>) (set rest) (s\<lparr>mem := m\<rparr>)" using rel(5) D(3) by (auto simp: keeps_def)
  from pl_ok_keeps [OF tk(2) this] have "pl_ok (s\<lparr>mem := m\<rparr>) zone mt l0 rest" by simp
  moreover have "\<forall>q. q \<notin> set D \<longrightarrow> m q = mem s q" using rel(5) tk(4) by simp
  ultimately show ?thesis using True tk(1) rel D
    by (intro exI [of _ m] exI [of _ bm'] exI [of _ l0] exI [of _ l2] exI [of _ D] exI [of _ rest])
      (simp add: release_pcp_batch_def)
qed

definition freed :: "nat set \<Rightarrow> nat set \<Rightarrow> pmm \<Rightarrow> nat set \<Rightarrow> pmm \<Rightarrow> bool" where
  "freed M R s A s' \<longleftrightarrow> pmm_inv M R s' \<and> avail s' = avail s \<union> A \<and> steady s (avail s \<union> A) s'"

lemma index_of_zi: "shape_ok s \<Longrightarrow> p < pfn_max s \<Longrightarrow> index_of (layout s) p = zi s p"
  using index_of_less [of "layout s" "pfn_max s" p] by (simp add: shape_ok_def zi_def Let_def)

lemma freed_counters:
  assumes c: "counters_inv M R s" and sh: "shape_ok s" and p: "p \<in> M - R" "p \<notin> avail s" "zi s p = zone"
    and D: "D = [] \<or> (\<exists>D'. D = p # D' \<and> set D' \<subseteq> cached s)" "distinct D" "\<forall>q \<in> set D. zi s q = zone" "cached s \<inter> free_set s = {}"
    and fixed: "pfn_max s' = pfn_max s" "layout s' = layout s" "initial_free s' = initial_free s" "reserved s' = reserved s"
    and s': "free_set s' = free_set s \<union> set D" "cached s' = insert p (cached s) - set D" "allocated s' = allocated s - length D"
      "pcp_free s' = (pcp_free s)(zone := wrapping_sub (wrapping_add (pcp_free s zone) 1) (length D))"
      "zone_free s' = (zone_free s)(zone := wrapping_add (zone_free s zone) 1)"
  shows "counters_inv M R s'"
proof (rule counters_upd [OF c fixed(1-3) _ _ _ _ _ s'(4) _ s'(5)])
  have av: "avail s' = insert p (avail s)" using D(1) by (auto simp: avail_def s'(1,2))
  have sub: "in_zone s zone (insert p (avail s)) \<subseteq> M" using p c by (auto simp: in_zone_def counters_inv_def)
  have M: "finite M" "card M \<le> pfn_max s"
    using c card_mono [of "{..<pfn_max s}" M] finite_subset by (auto simp: counters_inv_def)
  have "card (in_zone s zone (insert p (avail s))) = Suc (zone_free s zone)"
  proof -
    have "in_zone s zone (insert p (avail s)) = insert p (in_zone s zone (avail s))" using p(3) by (auto simp: in_zone_def)
    moreover have "p \<notin> in_zone s zone (avail s)" "finite (in_zone s zone (avail s))" using p(2) by (auto simp: in_zone_def)
    ultimately show ?thesis using c by (simp add: counters_inv_def)
  qed
  then have zb: "Suc (zone_free s zone) \<le> pfn_max s" using card_mono [OF M(1) sub] M(2) by linarith
  note b = counters_bound(2) [OF c sh, of zone] counters_bound(3) [OF c sh]
  show "wrapping_add (zone_free s zone) 1 + card (avail s - avail s') = zone_free s zone + card (avail s' - avail s)"
    using zb b p(2) by (simp add: av insert_Diff_if wrapping_add_eq)
  have add: "wrapping_add (pcp_free s zone) 1 = Suc (pcp_free s zone)" using zb b by (simp add: wrapping_add_eq)
  have pc: "p \<notin> cached s" using p(2) by (simp add: avail_def)
  show "wrapping_sub (wrapping_add (pcp_free s zone) 1) (length D) + card (cached s - cached s') =
      pcp_free s zone + card (cached s' - cached s)"
  proof (cases D)
    case Nil
    then show ?thesis using pc zb b unfolding add by (simp add: s'(2) insert_Diff_if wrapping_sub_eq)
  next
    case (Cons q D')
    then have D': "D = p # D'" "set D' \<subseteq> cached s" "distinct D'" "p \<notin> set D'" using D(1,2) by auto
    have "set D' \<subseteq> in_zone s zone (cached s)" using D' D(3) by (auto simp: in_zone_def)
    then have "card (set D') \<le> pcp_free s zone" using c card_mono [of "in_zone s zone (cached s)" "set D'"]
      by (simp add: counters_inv_def in_zone_def)
    moreover have "cached s - cached s' = set D'" "cached s' - cached s = {}" using D' pc by (auto simp: s'(2))
    ultimately show ?thesis using D' zb b unfolding add by (simp add: wrapping_sub_eq distinct_card)
  qed
  have Df: "set D \<inter> free_set s = {}" "set D \<subseteq> M" using D(1,4) p c by (auto simp: avail_def counters_inv_def)
  then have "free_set s' - free_set s = set D" "free_set s - free_set s' = {}" by (auto simp: s'(1))
  then show "allocated s' + card (free_set s' - free_set s) = allocated s + card (free_set s - free_set s')"
    using allocated_bound [OF c Df(2,1)] D(2) by (simp add: s'(3) distinct_card)
  show "avail s' \<subseteq> M - R" using av p c by (auto simp: counters_inv_def)
  show "zi s q = zone" if "q \<in> (avail s - avail s') \<union> (avail s' - avail s)" for q using that av p(3) by auto
  show "zi s q = zone" if "q \<in> (cached s - cached s') \<union> (cached s' - cached s)" for q
    using that D(3) p(3) by (auto simp: s'(2))
qed (use c fixed in \<open>auto simp: counters_inv_def\<close>)


text \<open>Pushing a page on a pageset and trimming it, before anything is drained.\<close>

lemma push_trim:
  assumes LI: "lists_inv s L" and k: "k = (cpu, zone, mt)" "cpu < MAX_CPUS"
    and p: "p < pfn_max s" "p \<notin> avail s" "zi s p = zone" "migratetype s p = Some mt"
    and push: "pcp_mark s p = Some s0" "pl_push (mem s0) (pcp s0 k) p = (m0, l0)"
  shows "\<exists>m bm l drain D rest. (if pl_count l0 > high then do {
       (m, l, taken) \<leftarrow> pl_take (mem (s0\<lparr>mem := m0\<rparr>)) (pfn_max (s0\<lparr>mem := m0\<rparr>)) l0 batch;
       (s, drain) \<leftarrow> release_pcp_batch (s0\<lparr>mem := m0, mem := m\<rparr>) zone mt taken;
       Some (s, l, drain)
     } else Some (s0\<lparr>mem := m0\<rparr>, l0, pl_empty)) = Some (s\<lparr>mem := m, pcp_bitmap := bm\<rparr>, l, drain) \<and>
    p # L k = D @ rest \<and> pl_ok (s\<lparr>mem := m\<rparr>) zone mt drain D \<and>
    bm_bits bm = insert p (cached s) - set D \<and> (\<forall>q. q \<notin> insert p (set (L k)) \<longrightarrow> m q = mem s q) \<and>
    (\<forall>zf pf ev pg. lists_inv (s\<lparr>mem := m, pcp_bitmap := bm, pcp := (pcp s)(k := l), zone_free := zf, pcp_free := pf,
        pcp_free_events := ev, pcp_free_event_pages := pg\<rparr>) (L(k := rest)))"
proof -
  note I = lists_invD [OF LI]
  obtain bm0 where s0: "s0 = s\<lparr>pcp_bitmap := bm0\<rparr>" "bm_bits bm0 = insert p (cached s)" "length bm0 = length (pcp_bitmap s)"
    using pcp_mark_ok [of p s] p(1,2) I(4) push(1) by (auto simp: avail_def)
  have l: "pl_ok s zone mt (pcp s k) (L k)" unfolding k by (rule pcp_listsD(1) [OF I(2)])
  have pn: "p \<notin> set (L k)" using p(2) list_cached [OF LI, of k] by (auto simp: avail_def)
  have "pl_push (mem s) (pcp s k) p = (m0, l0)" using push(2) s0 by simp
  note l0 = pl_push_ok [OF I(6) l pn p(1,3,4) this]
  let ?t = "s0\<lparr>mem := m0\<rparr>"
  have t: "shape_ok ?t" "pl_ok ?t zone mt l0 (p # L k)" "set (p # L k) \<subseteq> cached ?t" "pfn_max ?t \<le> 64 * length (pcp_bitmap ?t)"
    using I(4,6) l0(1) list_cached [OF LI, of k] by (auto simp: s0)
  from trim_ok [OF t, of high batch] obtain m bm l drain D rest where
    run: "(if pl_count l0 > high then do {
       (m, l, taken) \<leftarrow> pl_take (mem ?t) (pfn_max ?t) l0 batch;
       (s, drain) \<leftarrow> release_pcp_batch (?t\<lparr>mem := m\<rparr>) zone mt taken;
       Some (s, l, drain)
     } else Some (?t, l0, pl_empty)) = Some (?t\<lparr>mem := m, pcp_bitmap := bm\<rparr>, l, drain)"
    and r: "pl_ok (?t\<lparr>mem := m\<rparr>) zone mt l rest" "pl_ok (?t\<lparr>mem := m\<rparr>) zone mt drain D" "p # L k = D @ rest"
    "bm_bits bm = cached ?t - set D" "length bm = length (pcp_bitmap ?t)" "\<forall>q. q \<notin> set D \<longrightarrow> m q = mem ?t q"
    by blast
  have mm: "m q = mem s q" if "q \<notin> insert p (set (L k))" for q
  proof -
    have "q \<notin> set (p # L k)" using that by simp
    then have "q \<notin> set D" unfolding r(3) by simp
    then show ?thesis using r(6) l0(2) [of q] that by simp
  qed
  have dist: "set D \<inter> set rest = {}" using l pn r(3) by (metis distinct.simps(2) distinct_append pl_ok_def)
  have all: "insert p (set (L k)) = set D \<union> set rest" using r(3) by (metis list.simps(15) set_append)
  have li: "lists_inv (s\<lparr>mem := m, pcp_bitmap := bm, pcp := (pcp s)(k := l), zone_free := zf, pcp_free := pf,
        pcp_free_events := ev, pcp_free_event_pages := pg\<rparr>) (L(k := rest))" (is "lists_inv ?s' _") for zf pf ev pg
  proof (rule pageset_change [OF LI k])
    have out: "insert p (set (L k)) \<inter> free_set s = {}" using p(2) list_cached [OF LI, of k] I(3,5) by (auto simp: avail_def)
    have "buddy_inv (s\<lparr>mem := m\<rparr>)" by (rule buddy_inv_mem [OF I(1)], rule mm) (use out in blast)
    then show "buddy_inv ?s'" by simp
    show "pl_ok ?s' zone mt l rest"
      by (rule pl_ok_keeps [OF r(1), of UNIV]) (simp_all add: keeps_def s0)
    show "keeps s (content L - set (L k)) ?s'"
    proof -
      have "q \<notin> insert p (set (L k))" if "q \<in> content L - set (L k)" for q using that p(2) I(3) by (auto simp: avail_def)
      then show ?thesis using mm by (simp add: keeps_def)
    qed
    show "set rest \<inter> (content L - set (L k)) = {}" using all p(2) I(3) by (auto simp: avail_def)
    show "cached ?s' = cached s - set (L k) \<union> set rest"
      using r(4) s0 all dist pn p(2) list_cached [OF LI, of k] by (auto simp: avail_def)
    show "free_set ?s' \<inter> cached ?s' = {}" using r(4) s0 p(2) I(3,5) by (auto simp: avail_def)
  qed (use r(5) s0 in simp_all)
  have r': "pl_ok (s\<lparr>mem := m\<rparr>) zone mt drain D" "bm_bits bm = insert p (cached s) - set D"
    using r(2,4) s0 by simp_all
  have eq: "?t\<lparr>mem := m, pcp_bitmap := bm\<rparr> = s\<lparr>mem := m, pcp_bitmap := bm\<rparr>" by (simp add: s0(1))
  have mm': "\<forall>q. q \<notin> insert p (set (L k)) \<longrightarrow> m q = mem s q" using mm by blast
  show ?thesis
    by (rule exI [of _ m], rule exI [of _ bm], rule exI [of _ l], rule exI [of _ drain], rule exI [of _ D], rule exI [of _ rest])
      (intro conjI allI run [unfolded eq] r' r(3) mm' li)
qed


lemma free_to_pcp_ok:
  assumes ok: "pmm_ok M R s L" and p: "p \<in> M - R" "p \<notin> avail s"
  shows "returns (free_to_pcp cpu online s p) (freed M R s {p})"
proof -
  have LI: "lists_inv s L" and c: "counters_inv M R s" using ok by (simp_all add: pmm_ok_def)
  note I = lists_invD [OF LI]
  have lt: "p < pfn_max s" using p c by (auto simp: counters_inv_def)
  define zone where "zone = zi s p"
  obtain mt where mt: "migratetype s p = Some mt" using migratetype_defined [OF I(6) lt] by blast
  have pre: "index_of (layout s) p = zone" "zone < NR_ZONES" "not_buddy_marked s p [0..<Suc MAX_ORDER] = Some ()"
    using index_of_zi [OF I(6) lt] not_buddy_marked_ok [OF I(6) lt, of "[0..<Suc MAX_ORDER]"] p(2)
    by (auto simp: zone_def avail_def)
  define k where "k = pcp_key cpu zone mt"
  have k: "k = (min cpu (MAX_CPUS - 1), zone, mt)" by (simp add: k_def pcp_key_cases)
  obtain s0 where mark: "pcp_mark s p = Some s0" using pcp_mark_ok [of p s] lt I(4) p(2) by (auto simp: avail_def)
  obtain m0 l0 where push: "pl_push (mem s0) (pcp s0 k) p = (m0, l0)" by fastforce
  define high where "high = cfg_high online (pcp_zone s zone)"
  define batch where "batch = max (cfg_batch (pcp_zone s zone)) 1"
  from push_trim [OF LI k pcp_key_cases(2) lt p(2) zone_def [symmetric] mt mark push, of high batch]
  obtain m bm l drain D rest where
    trim: "(if pl_count l0 > high then do {
       (m, l, taken) \<leftarrow> pl_take (mem (s0\<lparr>mem := m0\<rparr>)) (pfn_max (s0\<lparr>mem := m0\<rparr>)) l0 batch;
       (s, drain) \<leftarrow> release_pcp_batch (s0\<lparr>mem := m0, mem := m\<rparr>) zone mt taken;
       Some (s, l, drain)
     } else Some (s0\<lparr>mem := m0\<rparr>, l0, pl_empty)) = Some (s\<lparr>mem := m, pcp_bitmap := bm\<rparr>, l, drain)"
    and r: "p # L k = D @ rest" "pl_ok (s\<lparr>mem := m\<rparr>) zone mt drain D" "bm_bits bm = insert p (cached s) - set D"
      "\<forall>q. q \<notin> insert p (set (L k)) \<longrightarrow> m q = mem s q"
    and li: "\<forall>zf pf ev pg. lists_inv (s\<lparr>mem := m, pcp_bitmap := bm, pcp := (pcp s)(k := l), zone_free := zf, pcp_free := pf,
        pcp_free_events := ev, pcp_free_event_pages := pg\<rparr>) (L(k := rest))"
    by blast
  have n: "pl_count drain = length D" using r(2) by (simp add: pl_ok_def)
  define s3 where "s3 = s\<lparr>mem := m, pcp_bitmap := bm, pcp := (pcp s)(k := l),
      zone_free := (zone_free s)(zone := wrapping_add (zone_free s zone) 1),
      pcp_free := (pcp_free s)(zone := wrapping_sub (wrapping_add (pcp_free s zone) 1) (length D)),
      pcp_free_events := wrapping_add (pcp_free_events s) 1, pcp_free_event_pages := wrapping_add (pcp_free_event_pages s) 1\<rparr>"
  have run: "free_to_pcp cpu online s p = (if length D \<noteq> 0 then drain_pcp_list s3 zone mt drain else Some s3)"
    unfolding free_to_pcp_def Let_def pre(1) high_def [symmetric] batch_def [symmetric] mt Option.bind.bind_lunit
      k_def [symmetric] pre(3) mark push prod.case trim
    using pre(2) by (simp add: n s3_def)
  have D: "D = [] \<or> (\<exists>D'. D = p # D' \<and> set D' \<subseteq> cached s)" "distinct D" "\<forall>q \<in> set D. zi s q = zone"
  proof -
    show "D = [] \<or> (\<exists>D'. D = p # D' \<and> set D' \<subseteq> cached s)"
      using r(1) list_cached [OF LI, of k] by (cases D) auto
    show "distinct D" "\<forall>q \<in> set D. zi s q = zone" using r(2) by (auto simp: pl_ok_def pcp_page_def)
  qed
  have Df: "set D \<inter> free_set s = {}" "set D \<subseteq> M" using D(1) p c I(3,5) by (auto simp: avail_def counters_inv_def)
  have st3: "steady s (insert p (cached s)) s3"
    using r(4) list_cached [OF LI, of k] by (auto simp: steady_def s3_def subset_iff)
  have fin: "freed M R s {p} s'" if s': "lists_inv s' (L(k := rest))" "free_set s' = free_set s \<union> set D"
      "outer s' = outer (s3\<lparr>allocated := allocated s - length D\<rparr>)" "steady s3 (free_set s') s'" for s'
  proof -
    note f = outer_allocatedD [OF s'(3)]
    have cs: "cached s' = insert p (cached s) - set D" using r(3) f(5) by (simp add: s3_def)
    have av: "avail s' = insert p (avail s)" using D(1) by (auto simp: avail_def s'(2) cs)
    have "counters_inv M R s'"
      by (rule freed_counters [OF c I(6) p zone_def [symmetric] D _ _ _ _ _ s'(2) cs])
        (use f I(3,5) in \<open>auto simp: s3_def\<close>)
    then have "pmm_inv M R s'" using s'(1) by (auto simp: pmm_inv_def pmm_ok_def)
    moreover have "steady s (insert p (avail s)) s'"
      by (rule steady_trans [OF st3 s'(4)]) (use av in \<open>auto simp: avail_def\<close>)
    ultimately show ?thesis using av by (simp add: freed_def)
  qed
  have l3: "lists_inv s3 (L(k := rest))" unfolding s3_def using li by blast
  have f3: "bitmaps s3 = bitmaps s" "allocated s3 = allocated s" "cached s3 = insert p (cached s) - set D" by (simp_all add: s3_def r(3))
  show ?thesis unfolding run
  proof (rule returns_if)
    have "pl_ok s3 zone mt drain D" by (rule pl_ok_keeps [OF r(2), of UNIV]) (simp_all add: keeps_def s3_def)
    moreover have "length D \<le> allocated s3" using allocated_bound [OF c Df(2,1)] D(2) f3 by (simp add: distinct_card)
    ultimately have "returns (drain_pcp_list s3 zone mt drain) (\<lambda>s'. lists_inv s' (L(k := rest)) \<and> free_set s' = free_set s3 \<union> set D \<and>
        outer s' = outer (s3\<lparr>allocated := allocated s3 - length D\<rparr>) \<and> steady s3 (free_set s') s')"
      using Df(1) f3 by (intro drain_tail [OF l3]) (auto simp: avail_def)
    then show "returns (drain_pcp_list s3 zone mt drain) (freed M R s {p})"
      unfolding f3 by (rule returns_mono) (use fin in blast)
  next
    assume "\<not> length D \<noteq> 0"
    then show "returns (Some s3) (freed M R s {p})" using l3 f3 by (auto intro!: fin simp: outer_def)
  qed
qed

end
