(* ===== verification/Pmm_Inv.thy ===== *)
theory Pmm_Inv
  imports Pmm Pagesets_Drain
begin

text \<open>
  Allocation and freeing (\<open>buddy/api.rs\<close>, \<open>buddy/free.rs\<close>) keep the allocator invariant; an
  allocated block is aligned, was available, lies in a permitted zone and is returned zero-filled.
\<close>

section \<open>Allocation from the buddy lists\<close>

lemma lists_inv_frame:
  assumes LI: "lists_inv s L" and "buddy_inv s'" and "keeps s (content L) s'" and "pcp s' = pcp s"
    and "pcp_bitmap s' = pcp_bitmap s" and "free_set s' \<inter> content L = {}"
  shows "lists_inv s' L"
proof -
  note I = lists_invD [OF LI]
  have "pl_ok s' z m (pcp s' (c, z, m)) (L (c, z, m))" for c z m
    using pl_ok_keeps [OF pcp_listsD(1) [OF I(2)] assms(3)] content_mem [of _ L "(c, z, m)"] assms(4) by fastforce
  then have "pcp_lists s' L" using pcp_listsD(2,3) [OF I(2)] unfolding pcp_lists_def by blast
  moreover have "pfn_max s' = pfn_max s" using assms(3) by (simp add: keeps_def)
  ultimately show ?thesis using assms(2,5,6) I(3,4) by (simp add: lists_inv_def)
qed

definition zeroed :: "pmm \<Rightarrow> nat \<Rightarrow> nat \<Rightarrow> bool" where
  "zeroed s p order \<longleftrightarrow> (\<forall>q \<in> pages p order. \<forall>i < PAGE_SIZE_BYTES. mem s q i = 0)"

lemma zero_pages_mem:
  "q \<notin> pages p order \<Longrightarrow> zero_pages m p order q = m q" "q \<in> pages p order \<Longrightarrow> i < PAGE_SIZE_BYTES \<Longrightarrow> zero_pages m p order q i = 0"
  by (auto simp: zero_pages_def pages_def)

lemma zone_from_index_less: "zone_from_index i = Some z \<Longrightarrow> i < NR_ZONES"
  by (simp add: zone_from_index_def NR_ZONES_def split: if_splits)

definition take_zones_post :: "pmm \<Rightarrow> nat \<Rightarrow> nat \<Rightarrow> pmm \<times> (nat \<times> nat) option \<Rightarrow> bool" where
  "take_zones_post s order hi sr \<longleftrightarrow> (case snd sr of None \<Rightarrow> fst sr = s
     | Some (p, zone) \<Rightarrow> zone \<le> hi \<and> (\<exists>mt. take_post s zone order mt p (fst sr)))"

lemma take_zones_ok:
  assumes "buddy_inv s"
  shows "returns (take_zones s order hi w mt zones) (take_zones_post s order hi)"
proof (induction zones)
  case (Cons zone zones)
  show ?case
  proof (cases "zone > hi \<or> zone_from_index zone = None")
    case True
    then show ?thesis using Cons by auto
  next
    case False
    then obtain z where z: "zone \<le> hi" "zone_from_index zone = Some z" by auto
    have step: "take_zones s order hi w mt (zone # zones) =
        (if \<not> zone_watermark_ok z order (wmark_of s zone w) w (reserve s) hi (area_for s order zone)
         then take_zones s order hi w mt zones
         else do { (s, r) \<leftarrow> take_block s zone order mt;
           (case r of Some pfn \<Rightarrow> Some (s, Some (pfn, zone)) | None \<Rightarrow> take_zones s order hi w mt zones) })"
      using z by simp
    have fin: "returns (case sr of (s, r) \<Rightarrow> (case r of Some pfn \<Rightarrow> Some (s, Some (pfn, zone)) | None \<Rightarrow> take_zones s order hi w mt zones))
        (take_zones_post s order hi)" if "take_block_post s zone order mt sr" for sr
    proof (cases "snd sr")
      case None
      then show ?thesis using that Cons by (cases sr) (simp add: take_block_post_def)
    next
      case (Some p)
      then show ?thesis using that z(1) by (cases sr) (auto simp: take_block_post_def take_zones_post_def)
    qed
    show ?thesis unfolding step
      by (rule returns_if, rule Cons, rule returns_bind [OF take_block_ok [OF assms zone_from_index_less [OF z(2)]]], rule fin)
  qed
qed (simp add: take_zones_post_def)

lemma pmm_ok_taken:
  assumes ok: "pmm_ok M R s L" and tk: "take_post s zone order mt p t" and order: "order \<le> MAX_ORDER"
    and s': "s' = t\<lparr>allocated := allocated t + 2 ^ order, alloc_events := a, alloc_event_pages := b,
      zone_free := (zone_free t)(zone := wrapping_sub (zone_free t zone) (2 ^ order)), mem := m\<rparr>"
    and m: "\<And>q. q \<notin> pages p order \<Longrightarrow> m q = mem t q"
  shows "pmm_ok M R s' L \<and> taken s order p s' \<and> zi s p = zone"
proof -
  have LI: "lists_inv s L" and c: "counters_inv M R s" using ok by (simp_all add: pmm_ok_def)
  note I = lists_invD [OF LI]
  have t: "buddy_inv t" "buddy_frame s t" "block_ok t p order" "zi s p = zone" "pages p order \<subseteq> free_set s"
    "free_set t = free_set s - pages p order"
    "\<And>q. q \<notin> free_set s \<Longrightarrow> mem t q = mem s q \<and> migratetype t q = migratetype s q"
    using tk by (auto simp: take_post_def)
  note f = buddy_frameD [OF t(2)]
  have mig: "migratetype s' = migratetype t" by (rule migratetype_cong) (simp add: s')
  have st: "steady s (free_set s) s'"
  proof -
    have "mem s' q = mem s q \<and> migratetype s' q = migratetype s q" if "q \<notin> free_set s" for q
      using t(5,7) m [of q] that by (auto simp: mig) (auto simp: s')
    moreover have "static s' = static s" using static_outer [OF t(2) [unfolded buddy_frame_def]] by (simp add: s')
    ultimately show ?thesis by (simp add: steady_def)
  qed
  have bi: "buddy_inv s'"
  proof -
    have "buddy_inv (t\<lparr>mem := m\<rparr>)" by (rule buddy_inv_mem [OF t(1)], rule m) (auto simp: t(6))
    then show ?thesis by (rule buddy_inv_same [rotated 7]) (simp_all add: s')
  qed
  have fs: "free_set s' = free_set s - pages p order" "cached s' = cached s" by (simp_all add: s' t(6) f)
  have li: "lists_inv s' L"
    by (rule lists_inv_frame [OF LI bi steady_keeps [OF st I(5)]]) (use I(5) in \<open>auto simp: s' f t(6)\<close>)
  have pc: "pages p order \<inter> cached s = {}" using t(5) I(3,5) by blast
  have av: "avail s' = avail s - pages p order" "avail s - avail s' = pages p order" "avail s' - avail s = {}"
    using pc t(5) by (auto simp: avail_def fs)
  have zn: "zi s q = zone" if "q \<in> pages p order" for q
  proof -
    have "zi t q = zi t p" using t(3) one_classD that unfolding block_ok_def by blast
    then show ?thesis using t(4) zi_frame [OF t(2)] by simp
  qed
  have "counters_inv M R s'"
  proof (rule counters_upd [OF c, of s' R zone "pcp_free s zone" "wrapping_sub (zone_free s zone) (2 ^ order)"])
    have "pages p order \<subseteq> in_zone s zone (avail s)" using zn t(5) by (auto simp: in_zone_def avail_def)
    then have "2 ^ order \<le> zone_free s zone"
      using c card_mono [of "in_zone s zone (avail s)" "pages p order"] by (simp add: counters_inv_def in_zone_def)
    then show "wrapping_sub (zone_free s zone) (2 ^ order) + card (avail s - avail s') = zone_free s zone + card (avail s' - avail s)"
      using counters_bound(1) [OF c I(6), of zone] counters_bound(3) [OF c I(6)] by (simp add: av(2,3) wrapping_sub_eq)
    have "free_set s - free_set s' = pages p order" using t(5) by (auto simp: fs)
    then show "allocated s' + card (free_set s' - free_set s) = allocated s + card (free_set s - free_set s')"
      by (simp add: fs(1)) (simp add: s' f)
  qed (use c av zn in \<open>auto simp: fs(2)\<close>, (auto simp: s' f counters_inv_def)+)
  moreover have "taken s order p s'"
  proof -
    have "block_ok s' p order" using t(3) by (subst block_ok_cong [of s' t]) (simp_all add: s')
    moreover have "steady s (avail s) s'" by (rule steady_trans [OF st steady_refl, of _ "{}"]) (auto simp: avail_def)
    ultimately show ?thesis using t(5) av(1) by (auto simp: taken_def avail_def)
  qed
  ultimately show ?thesis using li t(4) by (simp add: pmm_ok_def)
qed


definition alloc_done :: "nat set \<Rightarrow> nat set \<Rightarrow> pmm \<Rightarrow> nat \<Rightarrow> nat \<Rightarrow> nat \<Rightarrow> pmm \<Rightarrow> bool" where
  "alloc_done M R s order hi p s' \<longleftrightarrow> pmm_inv M R s' \<and> taken s order p s' \<and> zi s p \<le> hi \<and> zeroed s' p order"

lemma global_attempt_ok:
  assumes ok: "pmm_ok M R s L" and order: "order \<le> MAX_ORDER"
  shows "returns (global_attempt s order hi w mt) (\<lambda>(s', r). case r of None \<Rightarrow> s' = s | Some p \<Rightarrow> alloc_done M R s order hi p s')"
  unfolding global_attempt_def
proof (rule returns_bind [OF take_zones_ok])
  show "buddy_inv s" using ok by (simp add: pmm_ok_def lists_inv_def)
  fix sr assume post: "take_zones_post s order hi sr"
  obtain t r where sr: "sr = (t, r)" by fastforce
  show "returns (case sr of (s, r) \<Rightarrow> (case r of None \<Rightarrow> Some (s, None)
      | Some (pfn, zone) \<Rightarrow> do {
          verify_poison s pfn;
          let s = s\<lparr>allocated := allocated s + 2 ^ order,
                    alloc_events := wrapping_add (alloc_events s) 1,
                    alloc_event_pages := wrapping_add (alloc_event_pages s) (2 ^ order),
                    zone_free := (zone_free s)(zone := wrapping_sub (zone_free s zone) (2 ^ order))\<rparr>;
          Some (s\<lparr>mem := zero_pages (mem s) pfn order\<rparr>, Some pfn)
        })) (\<lambda>(s', r). case r of None \<Rightarrow> s' = s | Some p \<Rightarrow> alloc_done M R s order hi p s')"
  proof (cases r)
    case None
    then show ?thesis using post by (simp add: sr take_zones_post_def)
  next
    case (Some pz)
    obtain p zone where pz: "pz = (p, zone)" by fastforce
    from post obtain mt where z: "zone \<le> hi" and tk: "take_post s zone order mt p t"
      by (auto simp: sr Some pz take_zones_post_def)
    define s' where "s' = t\<lparr>allocated := allocated t + 2 ^ order, alloc_events := wrapping_add (alloc_events t) 1,
      alloc_event_pages := wrapping_add (alloc_event_pages t) (2 ^ order),
      zone_free := (zone_free t)(zone := wrapping_sub (zone_free t zone) (2 ^ order)), mem := zero_pages (mem t) p order\<rparr>"
    have "pmm_ok M R s' L \<and> taken s order p s' \<and> zi s p = zone"
      by (rule pmm_ok_taken [OF ok tk order s'_def]) (rule zero_pages_mem)
    moreover have "zeroed s' p order" by (simp add: zeroed_def s'_def zero_pages_mem)
    moreover have "verify_poison t p = Some ()" using tk by (intro verify_poison_ok) (simp add: take_post_def)
    ultimately show ?thesis using z by (auto simp: sr Some pz s'_def alloc_done_def pmm_inv_def)
  qed
qed

definition quiet :: "nat set \<Rightarrow> nat set \<Rightarrow> pmm \<Rightarrow> pmm \<Rightarrow> bool" where
  "quiet M R s s' \<longleftrightarrow> pmm_inv M R s' \<and> avail s' = avail s \<and> steady s (avail s) s'"

definition alloc_post :: "nat set \<Rightarrow> nat set \<Rightarrow> pmm \<Rightarrow> nat \<Rightarrow> nat \<Rightarrow> pmm \<times> (pmm_error + nat) \<Rightarrow> bool" where
  "alloc_post M R s order hi sr \<longleftrightarrow> (case snd sr of
     Inl err \<Rightarrow> quiet M R s (fst sr) \<and> (err = NoMem \<or> err = InvalidOrder)
   | Inr p \<Rightarrow> alloc_done M R s order hi p (fst sr))"

lemma quiet_refl: "pmm_inv M R s \<Longrightarrow> quiet M R s s"
  by (simp add: quiet_def)

lemma alloc_done_quiet:
  assumes q: "quiet M R s t" and d: "alloc_done M R t order hi p u"
  shows "alloc_done M R s order hi p u"
proof -
  have st: "steady s (avail s) t" "avail t = avail s" using q by (simp_all add: quiet_def)
  have "steady s (avail s) u" using d st steady_trans [OF st(1), of "avail t" u "avail s"]
    by (simp add: alloc_done_def taken_def)
  then show ?thesis using d st steady_zi [OF st(1)] by (simp add: alloc_done_def taken_def)
qed

lemma quiet_trans: "quiet M R s t \<Longrightarrow> quiet M R t u \<Longrightarrow> quiet M R s u"
  using steady_trans [of s "avail s" t "avail t" u "avail s"] by (simp add: quiet_def)

lemma alloc_post_quiet: "quiet M R s t \<Longrightarrow> alloc_post M R t order hi sr \<Longrightarrow> alloc_post M R s order hi sr"
  by (auto simp: alloc_post_def split: sum.splits intro: quiet_trans alloc_done_quiet)

lemma alloc_global_ok:
  assumes ok: "pmm_inv M R s" and order: "order \<le> MAX_ORDER"
  shows "returns (alloc_global s order hi w mt) (alloc_post M R s order hi)"
proof -
  have attempt: "returns (do { (s, r) \<leftarrow> global_attempt s order hi w mt;
      (case r of Some pfn \<Rightarrow> Some (s, Inr pfn) | None \<Rightarrow> k s) }) (alloc_post M R s order hi)"
    if s: "pmm_inv M R s" and k: "returns (k s) (alloc_post M R s order hi)" for s k
  proof -
    obtain L where "pmm_ok M R s L" using s by (auto simp: pmm_inv_def)
    then show ?thesis
      by (intro returns_bind [OF global_attempt_ok [OF _ order]]) (use k in \<open>auto simp: alloc_post_def split: option.splits\<close>)
  qed
  have retry: "returns (do { (s, drained) \<leftarrow> drain_pcp_below s hi;
          (if \<not> drained then Some (s, Inl NoMem)
           else do {
             (s, r) \<leftarrow> global_attempt s order hi w mt;
             (case r of Some pfn \<Rightarrow> Some (s, Inr pfn) | None \<Rightarrow> Some (s, Inl NoMem))
           }) }) (alloc_post M R s order hi)"
  proof -
    obtain L where "pmm_ok M R s L" using ok by (auto simp: pmm_inv_def)
    then show ?thesis
    proof (rule returns_bind [OF drain_pcp_below_ok], unfold split_paired_all prod.case, elim exE conjE)
      fix t b L' assume "drain_post M R s L' t"
      then have q: "quiet M R s t" by (auto simp: drain_post_def quiet_def pmm_inv_def)
      then have inv: "pmm_inv M R t" by (simp add: quiet_def)
      have "alloc_post M R t order hi (t, Inl NoMem)" using quiet_refl [OF inv] by (simp add: alloc_post_def)
      then show "returns (if \<not> b then Some (t, Inl NoMem) else do {
             (s, r) \<leftarrow> global_attempt t order hi w mt;
             (case r of Some pfn \<Rightarrow> Some (s, Inr pfn) | None \<Rightarrow> Some (s, Inl NoMem))
           }) (alloc_post M R s order hi)"
        using attempt [OF inv, of "\<lambda>s. Some (s, Inl NoMem)"] q by (auto intro: alloc_post_quiet elim: returns_mono)
    qed
  qed
  show ?thesis unfolding alloc_global_def by (rule attempt [OF ok], rule retry)
qed

lemma alloc_inner_zoned_ok:
  assumes ok: "pmm_inv M R s" and nf: "order = 0 \<Longrightarrow> \<forall>z \<le> hi. no_foreign s z mt"
  shows "returns (alloc_inner_zoned cpu s order hi w mt) (alloc_post M R s order hi)"
proof (cases "order > MAX_ORDER")
  case True
  then show ?thesis using quiet_refl [OF ok] by (simp add: alloc_inner_zoned_def alloc_post_def)
next
  case False
  then have order: "order \<le> MAX_ORDER" by simp
  show ?thesis
  proof (cases "order = 0")
    case True
    obtain L where L: "pmm_ok M R s L" using ok by (auto simp: pmm_inv_def)
    have "returns (case r of Some pfn \<Rightarrow> Some (t\<lparr>mem := zero_pages (mem t) pfn 0\<rparr>, Inr pfn) | None \<Rightarrow> alloc_global t 0 hi w mt)
        (alloc_post M R s 0 hi)" if post: "pcp_post M R s hi (t, r)" for t r
    proof (cases r)
      case None
      then show ?thesis using post alloc_global_ok [OF ok order] True by (simp add: pcp_post_def)
    next
      case (Some p)
      then have t: "pmm_inv M R t" "taken s 0 p t" "zi s p \<le> hi" using post by (simp_all add: pcp_post_def)
      define u where "u = t\<lparr>mem := zero_pages (mem t) p 0\<rparr>"
      have out: "p \<notin> avail t" "p \<in> avail s" using t(2) by (auto simp: taken_def)
      obtain L' where L': "pmm_ok M R t L'" using t(1) by (auto simp: pmm_inv_def)
      have I: "lists_inv t L'" and c: "counters_inv M R t" using L' by (simp_all add: pmm_ok_def)
      have mu: "mem u q = mem t q" if "q \<noteq> p" for q using zero_pages_mem(1) [of q p 0] that by (simp add: u_def)
      have bi: "buddy_inv u" unfolding u_def
        by (rule buddy_inv_mem [OF lists_invD(1) [OF I]], rule zero_pages_mem(1)) (use out in \<open>auto simp: avail_def\<close>)
      have "steady t {p} u" using mu by (simp add: steady_def) (simp add: u_def)
      moreover have "p \<notin> content L'" using out lists_invD(3) [OF I] by (simp add: avail_def)
      ultimately have "keeps t (content L') u" using steady_keeps [of t "{p}" u] by simp
      then have "lists_inv u L'" using lists_inv_frame [OF I bi] lists_invD(5) [OF I] by (simp add: u_def)
      moreover have "counters_inv M R u" using c by (simp add: counters_inv_def avail_def in_zone_def u_def)
      ultimately have "pmm_inv M R u" by (auto simp: pmm_inv_def pmm_ok_def)
      moreover have "taken s 0 p u"
        using t(2) steady_trans [of s "avail s" t "{p}" u "avail s"] \<open>steady t {p} u\<close> out(2)
        by (simp add: taken_def) (simp add: u_def avail_def)
      moreover have "zeroed u p 0" by (simp add: zeroed_def u_def zero_pages_mem)
      ultimately show ?thesis using t(3) Some by (simp add: alloc_post_def alloc_done_def u_def)
    qed
    then show ?thesis using order True
      by (simp add: alloc_inner_zoned_def) (rule returns_bind [OF alloc_from_pcp_ok [OF L nf [OF True]]], auto)
  next
    case False
    then show ?thesis using order alloc_global_ok [OF ok order] by (simp add: alloc_inner_zoned_def)
  qed
qed

end
