(* ===== verification/Pmm_Api.thy ===== *)
theory Pmm_Api
  imports Pmm_Inv
begin

text \<open>
  The public entry points of the allocator: \<open>free\<close>, \<open>alloc_gfp_nowait\<close>, the reclaiming
  \<open>alloc_gfp\<close> with its slowpath, and \<open>alloc_below\<close>. Reclaim and the out-of-memory killer are the
  interface \<open>kernel_env\<close>: they may free pages of this allocator and they keep its invariant. The
  hosted build supplies the concrete environment that interprets it.
\<close>

section \<open>Freeing a block\<close>

lemma block_ok_steady:
  assumes b: "block_ok s p order" and st: "steady s A s'" and out: "pages p order \<inter> A = {}"
  shows "block_ok s' p order"
proof -
  have k: "keeps s (pages p order) s'" using steady_keeps [OF st] out by blast
  have z: "zi s' = zi s" using st by (rule steady_zi)
  have "one_class s' (pages p order) p"
    using b k pages_self [of p order] unfolding one_class_def block_ok_def keeps_def z by metis
  then show ?thesis using b k by (simp add: block_ok_def keeps_def)
qed

lemma free_block_ok:
  assumes inv: "pmm_inv M R s" and b: "block_ok s p order" and own: "pages p order \<subseteq> M - R" "pages p order \<inter> avail s = {}"
  shows "returns (free_block e s p order) (freed M R s (pages p order))"
proof -
  obtain L where ok: "pmm_ok M R s L" using inv by (auto simp: pmm_inv_def)
  have LI: "lists_inv s L" and c: "counters_inv M R s" using ok by (simp_all add: pmm_ok_def)
  note I = lists_invD [OF LI]
  have g: "order \<le> MAX_ORDER" "p < pfn_max s" "p mod 2 ^ order = 0"
    using b block_ok_less [OF b] by (auto simp: block_ok_def dvd_eq_mod_eq_0)
  show ?thesis
  proof (cases "order = 0")
    case True
    have "p \<in> M - R" "p \<notin> avail s" using own True by auto
    from free_to_pcp_ok [OF ok this, of "current_cpu e s" "online_count e"] show ?thesis
      using g True by (simp add: free_block_def)
  next
    case False
    define zone where "zone = zi s p"
    have out: "p \<notin> free_set s" "pages p order \<inter> free_set s = {}" "pages p order \<inter> cached s = {}"
      using own(2) pages_self [of p order] unfolding avail_def by blast+
    have pre: "index_of (layout s) p = zone" "zone < NR_ZONES" "not_buddy_marked s p [order..<Suc MAX_ORDER] = Some ()"
      using index_of_zi [OF I(6) g(2)] not_buddy_marked_ok [OF I(6) g(2) out(1), of "[order..<Suc MAX_ORDER]"]
      by (auto simp: zone_def)
    have step: "free_block e s p order = return_to_buddy s p order \<bind> (\<lambda>s. checked_sub (allocated s) (2 ^ order) \<bind>
        (\<lambda>a. Some (s\<lparr>allocated := a, free_events := wrapping_add (free_events s) 1,
                free_event_pages := wrapping_add (free_event_pages s) (2 ^ order),
                zone_free := (zone_free s)(zone := wrapping_add (zone_free s zone) (2 ^ order))\<rparr>)))"
      using g False pre by (simp add: free_block_def Let_def)
    have nA: "2 ^ order \<le> allocated s"
      using allocated_bound [OF c, of "pages p order"] own(1) out(2) by auto
    show ?thesis unfolding step
    proof (rule returns_bind [OF return_to_buddy_ok [OF I(1) b out(2)]], elim conjE)
      fix t assume t: "buddy_inv t" "buddy_frame s t" "pageblocks t = pageblocks s" "free_set t = free_set s \<union> pages p order"
        "\<forall>q. q \<notin> free_set t \<longrightarrow> mem t q = mem s q"
      note f = buddy_frameD [OF t(2)]
      define s' where "s' = t\<lparr>allocated := allocated s - 2 ^ order, free_events := wrapping_add (free_events t) 1,
                free_event_pages := wrapping_add (free_event_pages t) (2 ^ order),
                zone_free := (zone_free t)(zone := wrapping_add (zone_free t zone) (2 ^ order))\<rparr>"
      have fs: "free_set s' = free_set s \<union> pages p order" "cached s' = cached s" by (simp_all add: s'_def t(4) f)
      have st: "steady s (free_set s') s'"
        using t(5) static_outer [OF t(2) [unfolded buddy_frame_def]] migratetype_cong [OF t(3)]
        by (simp add: steady_def fs(1) t(4) s'_def)
      have dj: "free_set s' \<inter> content L = {}" using I(3,5) out(3) by (auto simp: fs)
      have "lists_inv s' L"
        by (rule lists_inv_frame [OF LI _ steady_keeps [OF st dj] _ _ dj]) (use t(1) in \<open>simp_all add: s'_def f\<close>)
      moreover have av: "avail s' = avail s \<union> pages p order" by (auto simp: avail_def fs)
      have "counters_inv M R s'"
      proof (rule counters_upd [OF c, of s' R zone "pcp_free s zone" "wrapping_add (zone_free s zone) (2 ^ order)"])
        have d: "avail s - avail s' = {}" "avail s' - avail s = pages p order" "free_set s - free_set s' = {}"
          "free_set s' - free_set s = pages p order" using own(2) out(2) by (auto simp: av fs)
        have "zone_free s zone + 2 ^ order \<le> U64_MAX"
          using counters_bound(1) [OF c I(6), of zone] counters_bound(3) [OF c I(6)] power_increasing [OF g(1), of "2::nat"] by linarith
        then show "wrapping_add (zone_free s zone) (2 ^ order) + card (avail s - avail s') = zone_free s zone + card (avail s' - avail s)"
          by (simp add: d wrapping_add_eq)
        show "allocated s' + card (free_set s' - free_set s) = allocated s + card (free_set s - free_set s')"
          using nA unfolding d by (simp add: s'_def)
        show "zi s q = zone" if "q \<in> (avail s - avail s') \<union> (avail s' - avail s)" for q
          using that b one_classD [of s "pages p order" p q] by (auto simp: d block_ok_def zone_def)
        show "avail s' \<subseteq> M - R" using c own(1) by (auto simp: av counters_inv_def)
      qed (use c in \<open>auto simp: fs(2)\<close>, (auto simp: s'_def f counters_inv_def)+)
      ultimately have "freed M R s (pages p order) s'"
        using av steady_trans [OF st steady_refl, of "avail s \<union> pages p order" "{}"]
        by (auto simp: freed_def pmm_inv_def pmm_ok_def fs avail_def)
      then show "returns (checked_sub (allocated t) (2 ^ order) \<bind> (\<lambda>a. Some (t\<lparr>allocated := a, free_events := wrapping_add (free_events t) 1,
                free_event_pages := wrapping_add (free_event_pages t) (2 ^ order),
                zone_free := (zone_free t)(zone := wrapping_add (zone_free t zone) (2 ^ order))\<rparr>))) (freed M R s (pages p order))"
        using nA by (simp add: checked_sub_def f s'_def)
    qed
  qed
qed

text \<open>Freeing a page that is already free is caught, whichever list holds it.\<close>

lemma not_buddy_marked_None:
  assumes "p \<in> free_set s" and "buddy_inv s"
  shows "not_buddy_marked s p [0..<Suc MAX_ORDER] = None"
proof -
  obtain q k where b: "(q, k) \<in> blocks s" "p \<in> pages q k" using assms(1) by (auto simp: span_of_def)
  have ok: "k \<le> MAX_ORDER" "2 ^ k dvd q" "q div 2 ^ k \<in> bm_bits (bitmaps s k)" using b(1) by (simp_all add: blocks_of_mem)
  have "p div 2 ^ k = q div 2 ^ k" using pages_index [OF ok(2)] b(2) by simp
  then have m: "buddy_marked s p k = Some True" using ok(3) by (simp add: buddy_marked_def bm_bits_mem)
  have "not_buddy_marked s p orders = None" if "k \<in> set orders" for orders
    using that
  proof (induction orders)
    case (Cons j js)
    then show ?case using m by (cases "buddy_marked s p j") (auto simp: kassert_def)
  qed simp
  then show ?thesis using ok(1) by (auto simp del: upt_Suc)
qed

lemma double_free_page:
  assumes inv: "pmm_inv M R s" and p: "p \<in> avail s"
  shows "free_block e s p 0 = None"
proof -
  obtain L where ok: "pmm_ok M R s L" using inv by (auto simp: pmm_inv_def)
  have LI: "lists_inv s L" and c: "counters_inv M R s" using ok by (simp_all add: pmm_ok_def)
  note I = lists_invD [OF LI]
  have lt: "p < pfn_max s" using p c by (auto simp: counters_inv_def)
  show ?thesis
  proof (cases "p \<in> free_set s")
    case True
    then show ?thesis using not_buddy_marked_None [OF True I(1)] lt
      by (auto simp: free_block_def free_to_pcp_def Let_def kassert_def bind_eq_None_conv)
  next
    case False
    then have "bm_get (pcp_bitmap s) p = Some True" using p by (simp add: avail_def bm_bits_mem)
    then have "pcp_mark s p = None" by (simp add: pcp_mark_def bind_eq_None_conv)
    then show ?thesis using lt by (auto simp: free_block_def free_to_pcp_def Let_def kassert_def bind_eq_None_conv)
  qed
qed

section \<open>The reclaiming allocation\<close>

locale kernel_env =
  fixes e :: env and M R :: "nat set"
  assumes reclaim_keeps: "pmm_inv M R s \<Longrightarrow> returns (reclaim_once e s) (\<lambda>(s', b). pmm_inv M R s' \<and> static s' = static s)"
    and oom_keeps: "pmm_inv M R s \<Longrightarrow> returns (invoke_oom e s) (\<lambda>(s', b). pmm_inv M R s' \<and> static s' = static s)"
begin

definition attempt :: "nat \<Rightarrow> nat \<Rightarrow> alloc_wmark \<Rightarrow> migrate_type \<Rightarrow> pmm \<Rightarrow> (pmm \<times> nat option) option" where
  "attempt order hi w mt s = map_option ok_of (alloc_inner_zoned (current_cpu e s) s order hi w mt)"

definition steady_state :: "pmm \<Rightarrow> pmm \<Rightarrow> bool" where
  "steady_state s0 s \<longleftrightarrow> pmm_inv M R s \<and> static s = static s0"

definition got :: "pmm \<Rightarrow> nat \<Rightarrow> nat \<Rightarrow> pmm \<Rightarrow> nat \<Rightarrow> bool" where
  "got s0 order hi s' p \<longleftrightarrow> (\<exists>t. steady_state s0 t \<and> alloc_done M R t order hi p s')"

lemma inner_ok:
  assumes "0 < order" and "steady_state s0 s"
  shows "returns (alloc_inner_zoned cpu s order hi w mt) (\<lambda>(s', r). case r of Inr p \<Rightarrow> got s0 order hi s' p
     | Inl err \<Rightarrow> steady_state s0 s' \<and> (err = NoMem \<or> err = InvalidOrder))"
proof -
  have "returns (alloc_inner_zoned cpu s order hi w mt) (alloc_post M R s order hi)"
    using assms by (intro alloc_inner_zoned_ok) (simp_all add: steady_state_def)
  then show ?thesis
    by (rule returns_mono) (use assms(2) in \<open>auto simp: alloc_post_def got_def quiet_def steady_state_def steady_def split: sum.splits\<close>)
qed

lemma actions:
  assumes "0 < order"
  shows "slowpath_actions (attempt order hi w mt) (reclaim_once e) (invoke_oom e) (steady_state s0) (got s0 order hi)"
proof
  fix s assume s: "steady_state s0 s"
  show "returns (attempt order hi w mt s) (\<lambda>(s', r). case r of Some v \<Rightarrow> got s0 order hi s' v | None \<Rightarrow> steady_state s0 s')"
    using inner_ok [OF assms s, of "current_cpu e s" hi w mt]
  proof (rule returnsE)
    fix sr assume sr: "alloc_inner_zoned (current_cpu e s) s order hi w mt = Some sr"
      and post: "case sr of (s', r) \<Rightarrow> case r of Inr p \<Rightarrow> got s0 order hi s' p
        | Inl err \<Rightarrow> steady_state s0 s' \<and> (err = NoMem \<or> err = InvalidOrder)"
    show ?thesis using sr post by (cases sr; cases "snd sr") (simp_all add: attempt_def ok_of_def)
  qed
  show "returns (reclaim_once e s) (\<lambda>(s', b). steady_state s0 s')"
    by (rule returns_mono [OF reclaim_keeps]) (use s in \<open>auto simp: steady_state_def\<close>)
  show "returns (invoke_oom e s) (\<lambda>(s', b). steady_state s0 s')"
    by (rule returns_mono [OF oom_keeps]) (use s in \<open>auto simp: steady_state_def\<close>)
qed

definition gfp_post :: "pmm \<Rightarrow> nat \<Rightarrow> nat \<Rightarrow> pmm \<times> (pmm_error + nat) \<Rightarrow> bool" where
  "gfp_post s0 order hi sr \<longleftrightarrow> (case sr of (s', r) \<Rightarrow> case r of Inr p \<Rightarrow> got s0 order hi s' p | Inl err \<Rightarrow> steady_state s0 s')"

lemma alloc_slowpath_ok:
  assumes order: "0 < order" and s: "steady_state s0 s"
    and loop: "\<And>w t. steady_state s0 t \<Longrightarrow> returns (slowpath_loop order (attempt order hi w mt) (reclaim_once e) (invoke_oom e) retry_default t)
      (\<lambda>(s', r). case r of Some v \<Rightarrow> got s0 order hi s' v | None \<Rightarrow> steady_state s0 s')"
  shows "returns (alloc_slowpath e s order hi flags mt) (gfp_post s0 order hi)"
proof -
  define allowed where "allowed = slowpath_allowed (in_atomic e)"
  define w where "w = slowpath_wmark (grants_min_reserve flags) allowed"
  have run: "returns (run_slowpath order allowed (attempt order hi w mt) (reclaim_once e) (invoke_oom e) t)
      (\<lambda>(s', r). case r of Some v \<Rightarrow> got s0 order hi s' v | None \<Rightarrow> steady_state s0 s')" if "steady_state s0 t" for t
    using loop [OF that, of w] that by (simp add: run_slowpath_def)
  have rest: "returns (run_slowpath order allowed (attempt order hi w mt) (reclaim_once e) (invoke_oom e) t \<bind>
      (\<lambda>(s, v). case v of Some pfn \<Rightarrow> Some (s, Inr pfn) | None \<Rightarrow> Some (s, Inl NoMem))) (gfp_post s0 order hi)"
    if "steady_state s0 t" for t
    by (rule returns_bind [OF run [OF that]]) (auto simp: gfp_post_def split: option.splits)
  show ?thesis unfolding alloc_slowpath_def Let_def allowed_def [symmetric] w_def [symmetric] attempt_def [symmetric, abs_def]
    by (rule returns_bind [OF inner_ok [OF order s]]) (use rest in \<open>auto simp: gfp_post_def split: sum.splits\<close>)
qed

lemma alloc_gfp_ok:
  assumes order: "0 < order" and inv: "pmm_inv M R s0"
    and loop: "\<And>hi w mt t. steady_state s0 t \<Longrightarrow> returns (slowpath_loop order (attempt order hi w mt) (reclaim_once e) (invoke_oom e) retry_default t)
      (\<lambda>(s', r). case r of Some v \<Rightarrow> got s0 order hi s' v | None \<Rightarrow> steady_state s0 s')"
  shows "returns (alloc_gfp e s0 order flags) (\<lambda>sr. \<exists>hi. (\<forall>mt. alloc_gfp_args flags \<noteq> Inr (hi, mt)) \<and> snd sr = Inl InvalidOrder \<and> fst sr = s0 \<or>
     (\<exists>mt. alloc_gfp_args flags = Inr (hi, mt)) \<and> gfp_post s0 order hi sr)"
proof (cases "alloc_gfp_args flags")
  case (Inl err)
  then have "err = InvalidOrder" by (auto simp: alloc_gfp_args_def split: sum.splits)
  then show ?thesis using Inl by (simp add: alloc_gfp_def)
next
  case (Inr hm)
  obtain hi mt where hm: "hm = (hi, mt)" by fastforce
  have s0: "steady_state s0 s0" using inv by (simp add: steady_state_def)
  have rec: "returns (do { (s, _) \<leftarrow> reclaim_once e s0; Some s }) (steady_state s0)"
    by (rule returns_bind [OF reclaim_keeps [OF inv]]) (auto simp: steady_state_def)
  have "returns (before_allocation e s0 n) (steady_state s0)" for n
    using rec s0 by (simp add: before_allocation_def split: allocation_action.splits)
  then have pre: "returns (if order \<le> MAX_ORDER then before_allocation e s0 (2 ^ order) else Some s0) (steady_state s0)"
    using s0 by simp
  have "returns (alloc_gfp e s0 order flags) (gfp_post s0 order hi)"
    unfolding alloc_gfp_def Inr hm sum.case prod.case
  proof (rule returns_bind [OF pre])
    fix s assume s: "steady_state s0 s"
    show "returns (alloc_inner_zoned (current_cpu e s) s order hi Low mt \<bind>
        (\<lambda>(s, r). if r = Inl NoMem then alloc_slowpath e s order hi flags mt else Some (s, r))) (gfp_post s0 order hi)"
      by (rule returns_bind [OF inner_ok [OF order s]])
        (use alloc_slowpath_ok [OF order _ loop] in \<open>auto simp: gfp_post_def split: sum.splits\<close>)
  qed
  then show ?thesis using Inr hm by (auto elim: returns_mono)
qed

lemma costly_loop:
  assumes "3 < order" and "steady_state s0 t"
  shows "returns (slowpath_loop order (attempt order hi w mt) (reclaim_once e) (invoke_oom e) st t)
      (\<lambda>(s', r). case r of Some v \<Rightarrow> got s0 order hi s' v | None \<Rightarrow> steady_state s0 s')"
proof -
  have a: "slowpath_actions (attempt order hi w mt) (reclaim_once e) (invoke_oom e) (steady_state s0) (got s0 order hi)"
    by (rule actions) (use assms(1) in simp)
  show ?thesis
    by (rule returns_mono [OF slowpath_actions.costly_returns [OF a assms]])
      (auto simp: slowpath_actions.post_def [OF a] split: option.splits)
qed

lemma gotD:
  assumes "got s0 order hi s' p"
  shows "steady_state s0 s'" "block_ok s' p order" "pages p order \<subseteq> M - R" "pages p order \<inter> avail s' = {}"
proof -
  obtain t where t: "pmm_inv M R t" "static t = static s0" "pmm_inv M R s'" "taken t order p s'"
    using assms by (auto simp: got_def steady_state_def alloc_done_def)
  have "static s' = static t" using t(4) by (simp add: taken_def steady_def)
  then show "steady_state s0 s'" using t by (simp add: steady_state_def)
  have "avail t \<subseteq> M - R" using t(1) by (auto simp: pmm_inv_def pmm_ok_def counters_inv_def)
  then show "block_ok s' p order" "pages p order \<subseteq> M - R" "pages p order \<inter> avail s' = {}"
    using t(4) by (auto simp: taken_def)
qed

definition below_post :: "pmm \<Rightarrow> nat \<Rightarrow> nat \<Rightarrow> pmm \<times> (pmm_error + nat) \<Rightarrow> bool" where
  "below_post s0 order limit sr \<longleftrightarrow> (case sr of (s', r) \<Rightarrow> case r of
     Inr p \<Rightarrow> p + 2 ^ order \<le> limit \<and> (\<exists>hi. got s0 order hi s' p) | Inl err \<Rightarrow> steady_state s0 s')"

lemma alloc_below_loop_ok:
  assumes order: "0 < order" and s: "steady_state s0 s"
    and loop: "\<And>s0 hi w mt t. steady_state s0 t \<Longrightarrow> returns (slowpath_loop order (attempt order hi w mt) (reclaim_once e) (invoke_oom e) retry_default t)
      (\<lambda>(s', r). case r of Some v \<Rightarrow> got s0 order hi s' v | None \<Rightarrow> steady_state s0 s')"
  shows "returns (alloc_below_loop e s order limit flags) (below_post s0 order limit)"
  using s
proof (induction "gfp_rank flags" arbitrary: s flags rule: less_induct)
  case less
  have inv: "pmm_inv M R s" and st: "static s = static s0" using less.prems by (simp_all add: steady_state_def)
  have lift: "steady_state s t \<Longrightarrow> steady_state s0 t" "got s order hi t p \<Longrightarrow> got s0 order hi t p" for t hi p
    using st by (auto simp: steady_state_def got_def)
  show ?case
  proof (subst alloc_below_loop.simps, rule returns_bind [OF alloc_gfp_ok [OF order inv]], rule loop, assumption)
    fix sr assume post: "\<exists>hi. (\<forall>mt. alloc_gfp_args flags \<noteq> Inr (hi, mt)) \<and> snd sr = Inl InvalidOrder \<and> fst sr = s \<or>
     (\<exists>mt. alloc_gfp_args flags = Inr (hi, mt)) \<and> gfp_post s order hi sr"
    obtain t r where sr: "sr = (t, r)" by fastforce
    show "returns (case sr of (s, Inl err) \<Rightarrow> Some (s, Inl err) | (s, Inr pfn) \<Rightarrow>
          (if pfn + 2 ^ order \<le> U64_MAX \<and> pfn + 2 ^ order \<le> limit then Some (s, Inr pfn)
           else do {
             s \<leftarrow> free_block e s pfn order;
             (case narrow_zone_bits flags of
                None \<Rightarrow> Some (s, Inl NoMem)
              | Some g \<Rightarrow> alloc_below_loop e s order limit g)
           })) (below_post s0 order limit)"
    proof (cases r)
      case (Inl err)
      then have "steady_state s t" using post inv by (auto simp: sr gfp_post_def steady_state_def)
      then show ?thesis using lift(1) by (simp add: sr Inl below_post_def)
    next
      case (Inr p)
      then obtain hi where g: "got s order hi t p" using post by (auto simp: sr gfp_post_def)
      note d = gotD [OF g]
      have fr: "returns (free_block e t p order) (freed M R t (pages p order))"
        using d by (intro free_block_ok) (simp_all add: steady_state_def)
      have "returns (case narrow_zone_bits flags of None \<Rightarrow> Some (u, Inl NoMem) | Some g \<Rightarrow> alloc_below_loop e u order limit g)
          (below_post s0 order limit)" if "freed M R t (pages p order) u" for u
      proof -
        have u: "steady_state s0 u" using that d(1) st by (simp add: freed_def steady_state_def steady_def)
        show ?thesis
          using less.hyps [OF narrow_zone_bits_rank u] u by (auto simp: below_post_def split: option.splits)
      qed
      then have "returns (do { s \<leftarrow> free_block e t p order; (case narrow_zone_bits flags of None \<Rightarrow> Some (s, Inl NoMem)
          | Some g \<Rightarrow> alloc_below_loop e s order limit g) }) (below_post s0 order limit)"
        by (intro returns_bind [OF fr]) blast
      then show ?thesis using lift(2) [OF g] by (auto simp: sr Inr below_post_def)
    qed
  qed
qed

end

text \<open>
  With a bound on what reclaim and the killer can still give back, the smaller orders return too.
\<close>

locale kernel_progress = kernel_env e M R for e and M R :: "nat set" +
  fixes mu :: "pmm \<Rightarrow> nat"
  assumes reclaim_mu: "pmm_inv M R s \<Longrightarrow> reclaim_once e s = Some (s', b) \<Longrightarrow> mu s' \<le> mu s \<and> (b \<longrightarrow> mu s' < mu s)"
    and oom_mu: "pmm_inv M R s \<Longrightarrow> invoke_oom e s = Some (s', out) \<Longrightarrow> out \<noteq> NoKillable \<Longrightarrow> mu s' < mu s"
    and alloc_mu: "pmm_inv M R s \<Longrightarrow> alloc_inner_zoned cpu s order hi w mt = Some (s', Inl err) \<Longrightarrow> mu s' \<le> mu s"
begin

lemma progress:
  assumes "0 < order"
  shows "slowpath_progress (attempt order hi w mt) (reclaim_once e) (invoke_oom e) (steady_state s0) (got s0 order hi) mu"
proof (intro slowpath_progress.intro actions slowpath_progress_axioms.intro)
  show "mu s' \<le> mu s" if "steady_state s0 s" "attempt order hi w mt s = Some (s', None)" for s s'
  proof -
    from that(2) obtain t r where r: "alloc_inner_zoned (current_cpu e s) s order hi w mt = Some (t, r)" "ok_of (t, r) = (s', None)"
      unfolding attempt_def map_option_eq_Some by (metis surj_pair)
    then show ?thesis using alloc_mu [of s] that(1) by (cases r) (auto simp: ok_of_def steady_state_def)
  qed
qed (use assms reclaim_mu oom_mu in \<open>auto simp: steady_state_def\<close>)

lemma any_loop:
  assumes "0 < order" and "steady_state s0 t"
  shows "returns (slowpath_loop order (attempt order hi w mt) (reclaim_once e) (invoke_oom e) st t)
      (\<lambda>(s', r). case r of Some v \<Rightarrow> got s0 order hi s' v | None \<Rightarrow> steady_state s0 s')"
proof -
  have a: "slowpath_progress (attempt order hi w mt) (reclaim_once e) (invoke_oom e) (steady_state s0) (got s0 order hi) mu"
    by (rule progress) (rule assms(1))
  show ?thesis
    by (rule returns_mono [OF slowpath_progress.loop_returns [OF a assms(2)]])
      (auto simp: slowpath_actions.post_def [OF slowpath_progress.axioms(1) [OF a]] split: option.splits)
qed

end

section \<open>The hosted environment\<close>

text \<open>
  The hosted build's actions (\<open>oom_entry.rs\<close>, \<open>buddy/pcp.rs\<close>): one CPU, a context that may not enter
  the slowpath, reclaim that frees nothing and a killer with nothing to kill.
\<close>

definition hosted_env :: "nat \<Rightarrow> env" where
  "hosted_env online = \<lparr>current_cpu = \<lambda>_. 0, online_count = online, in_atomic = True, io_flusher = False,
     reclaim_once = \<lambda>s. Some (s, False), invoke_oom = \<lambda>s. Some (s, NoKillable)\<rparr>"

interpretation hosted: kernel_progress "hosted_env online" M R "\<lambda>_. 0" for online M R
  by unfold_locales (auto simp: hosted_env_def)

interpretation hosted_slow: slowpath_progress "hosted.attempt online (Suc order) hi w mt" "reclaim_once (hosted_env online)"
  "invoke_oom (hosted_env online)" "hosted.steady_state M R s0" "hosted.got M R s0 (Suc order) hi" "\<lambda>_. 0"
  for online order hi w mt M R s0
  by (rule hosted.progress) simp

end
