(* ===== verification/Pmm_Init.thy ===== *)
theory Pmm_Init
  imports Pmm_Api
begin

text \<open>
  Construction (\<open>buddy/construct.rs\<close>): on well-formed, disjoint regions \<open>init_zoned\<close> returns an
  allocator that satisfies the invariant, with exactly the pages of the regions available.
\<close>

section \<open>The blank state\<close>

lemma bm_bits_zero [simp]: "bm_bits (replicate n 0) = {}"
  by (auto simp: bm_bits_mem bm_get_bit split: if_splits)

lemma blank_pmm_simps [simp]:
  "mem (blank_pmm m lay lim pb n) = m" "pfn_max (blank_pmm m lay lim pb n) = lim"
  "bitmaps (blank_pmm m lay lim pb n) = (\<lambda>order. replicate (order_words lim order) 0)"
  "layout (blank_pmm m lay lim pb n) = lay" "pageblocks (blank_pmm m lay lim pb n) = pb"
  "free_heads (blank_pmm m lay lim pb n) = (\<lambda>_. PFN_NULL)" "free_count (blank_pmm m lay lim pb n) = (\<lambda>_. 0)"
  "managed (blank_pmm m lay lim pb n) = (\<lambda>_. 0)" "allocated (blank_pmm m lay lim pb n) = 0"
  "reserved (blank_pmm m lay lim pb n) = 0" "initial_free (blank_pmm m lay lim pb n) = n"
  "pcp_bitmap (blank_pmm m lay lim pb n) = replicate ((lim + 63) div 64) 0"
  "pcp (blank_pmm m lay lim pb n) = (\<lambda>_. pl_empty)" "pcp_free (blank_pmm m lay lim pb n) = (\<lambda>_. 0)"
  "hibernate_forbidden (blank_pmm m lay lim pb n) = replicate ((lim + 63) div 64) 0"
  by (simp_all add: blank_pmm_def)

lemma order_words_cover: "p < lim \<Longrightarrow> p div 2 ^ order < 64 * order_words lim order"
proof -
  assume p: "p < lim"
  define b where "b = (lim + 2 ^ order - 1) div 2 ^ order"
  have "p div 2 ^ order < b"
  proof -
    have "p + 2 ^ order \<le> lim + 2 ^ order - 1" using p by simp
    then have "(p + 2 ^ order) div 2 ^ order \<le> b" unfolding b_def by (rule div_le_mono)
    then show ?thesis by (simp add: div_add_self2)
  qed
  moreover have "b \<le> 64 * ((b + 63) div 64)" by linarith
  ultimately show ?thesis unfolding order_words_def b_def [symmetric] by linarith
qed

lemma blank_buddy_inv:
  assumes "wf_layout lay lim" and "lim + 2 ^ MAX_ORDER \<le> U64_MAX" and "length pb = pb_words_for lim"
  shows "buddy_inv (blank_pmm m lay lim pb n)" "blocks (blank_pmm m lay lim pb n) = {}"
proof -
  show b: "blocks (blank_pmm m lay lim pb n) = {}" by (auto simp: blocks_of_def)
  have "shape_ok (blank_pmm m lay lim pb n)" using assms order_words_cover by (simp add: shape_ok_def)
  then show "buddy_inv (blank_pmm m lay lim pb n)"
    using b by (auto simp: buddy_inv_def disjoint_blocks_def list_ok_def intro!: exI [of _ "[]"])
qed

section \<open>Mobility of the zones\<close>

definition zone_mobility :: "nat \<Rightarrow> migrate_type" where
  "zone_mobility z = (if z = zone_index MovableZone then Movable else Unmovable)"

lemma pb_get_zero: "pb_get (replicate n 0) p = Some mt \<Longrightarrow> mt = Unmovable"
  by (auto simp: pb_get_def Let_def mt_from_index_def split: if_splits)

lemma pb_words_cover: "n + 511 \<le> U64_MAX \<Longrightarrow> n \<le> 32 * pb_words_for n * 2 ^ PAGEBLOCK_ORDER"
proof -
  assume "n + 511 \<le> U64_MAX"
  then have "pb_words_for n = ((n + 511) div 512 + 31) div 32"
    by (auto simp: pb_words_for_def PAGEBLOCK_ORDER_def TYPES_PER_WORD_def saturating_add_def Let_def U64_MAX_def)
  moreover have "(n + 511) div 512 \<le> 32 * (((n + 511) div 512 + 31) div 32)" "n \<le> 512 * ((n + 511) div 512)" by linarith+
  ultimately show ?thesis by (simp add: PAGEBLOCK_ORDER_def)
qed

lemma mobility_init:
  assumes lim: "lim + 2 ^ MAX_ORDER \<le> U64_MAX" and lay: "lay = layout_new limits lim"
  shows "returns (pb_set_range (replicate (pb_words_for lim) 0) (start_pfn (layout_span lay MovableZone))
      (end_pfn (layout_span lay MovableZone)) Movable)
    (\<lambda>pb. length pb = pb_words_for lim \<and>
      (\<forall>m n q. q < lim \<longrightarrow> migratetype (blank_pmm m lay lim pb n) q = Some (zone_mobility (zi (blank_pmm m lay lim pb n) q))))"
proof -
  have b: "lim + 511 \<le> U64_MAX" using lim by (simp add: MAX_ORDER_def)
  have sp: "layout_span lay MovableZone = \<lparr>start_pfn = movable_start limits lim, end_pfn = lim\<rparr>"
    by (simp add: layout_span_def lay layout_new_movable_aligned)
  have wf: "wf_layout lay lim" unfolding lay by (rule wf_layout_new)
  let ?ms = "movable_start limits lim"
  have dom: "\<exists>mt. pb_get (replicate (pb_words_for lim) 0) q = Some mt" if "q < lim" for q
    by (rule pb_get_defined [OF _ that b]) simp
  have "lim \<le> 32 * length (replicate (pb_words_for lim) (0 :: 64 word)) * 2 ^ PAGEBLOCK_ORDER"
    using pb_words_cover [OF b] by simp
  from pb_set_range_returns [OF this, of ?ms Movable] show ?thesis unfolding sp zone_span.simps
  proof (rule returns_mono, elim conjE, intro conjI allI impI)
    fix pb m n q
    assume len: "length pb = length (replicate (pb_words_for lim) (0 :: 64 word))" and q: "q < lim"
      and get: "\<forall>pfn. pb_get pb pfn = (if ?ms < lim \<and> ?ms div 2 ^ PAGEBLOCK_ORDER \<le> pfn div 2 ^ PAGEBLOCK_ORDER \<and>
           pfn div 2 ^ PAGEBLOCK_ORDER \<le> (lim - 1) div 2 ^ PAGEBLOCK_ORDER
        then Some Movable else pb_get (replicate (pb_words_for lim) 0) pfn)"
    let ?s = "blank_pmm m lay lim pb n"
    have sh: "shape_ok ?s" using buddy_inv_shape [OF blank_buddy_inv(1) [OF wf lim]] len by simp
    have "zi ?s q = 3 \<longleftrightarrow> ?ms \<le> q"
      using zi_span [OF sh, of 3 q] q sp by (simp add: NR_ZONES_def layout_span_def)
    moreover have "?ms \<le> q \<longleftrightarrow> ?ms < lim \<and> ?ms div 2 ^ PAGEBLOCK_ORDER \<le> q div 2 ^ PAGEBLOCK_ORDER"
    proof (cases "?ms < lim")
      case True
      obtain j where "?ms = 512 * j"
        using movable_start_aligned [OF True] by (auto simp: PAGEBLOCK_PAGES_def PAGEBLOCK_ORDER_def elim: dvdE)
      then have "?ms \<le> q \<longleftrightarrow> ?ms div 512 \<le> q div 512" by (simp add: less_eq_div_iff_mult_less_eq mult.commute)
      then show ?thesis using True by (simp add: PAGEBLOCK_ORDER_def)
    qed (use q in simp)
    moreover have "q div 2 ^ PAGEBLOCK_ORDER \<le> (lim - 1) div 2 ^ PAGEBLOCK_ORDER" using q by (intro div_le_mono) simp
    ultimately show "migratetype ?s q = Some (zone_mobility (zi ?s q))"
      using get dom [OF q] pb_get_zero [of "pb_words_for lim" q] by (auto simp: migratetype_def zone_mobility_def)
  qed simp
qed

section \<open>Seeding the regions\<close>

definition region_pages :: "region list \<Rightarrow> nat set" where
  "region_pages rs = (\<Union>(start, len) \<in> set rs. {start..<start + len})"

lemma region_pages_simps [simp]:
  "region_pages [] = {}" "region_pages ((start, len) # rs) = {start..<start + len} \<union> region_pages rs"
  by (auto simp: region_pages_def)

lemma finite_region_pages [simp]: "finite (region_pages rs)"
  by (induction rs) auto

lemma measure_regions_bounds:
  "measure_regions rs e n = Some (lim, tot) \<Longrightarrow>
    e \<le> lim \<and> region_pages rs \<subseteq> {..<lim} \<and> tot = n + sum_list (map snd rs)"
proof (induction rs arbitrary: e n)
  case (Cons r rs)
  obtain start len where r: "r = (start, len)" by fastforce
  from Cons.prems have "measure_regions rs (if start + len > e then start + len else e) (n + len) = Some (lim, tot)"
    by (auto simp: r bind_eq_Some_conv)
  from Cons.IH [OF this] show ?case by (auto simp: r split: if_splits)
qed simp

lemma regions_disjoint:
  "\<not> regions_overlap ((start, len) # rs) \<Longrightarrow> {start..<start + len} \<inter> region_pages rs = {}"
  by (fastforce simp: region_pages_def)

lemma card_region_pages: "\<not> regions_overlap rs \<Longrightarrow> card (region_pages rs) = sum_list (map snd rs)"
proof (induction rs)
  case (Cons r rs)
  obtain start len where r: "r = (start, len)" by fastforce
  have "card ({start..<start + len} \<union> region_pages rs) = len + card (region_pages rs)"
    using regions_disjoint [of start len rs] Cons.prems by (subst card_Un_disjoint) (auto simp: r)
  then show ?case using Cons by (simp add: r)
qed simp

lemma seed_regions_ok:
  assumes "buddy_inv s" and "region_pages rs \<inter> free_set s = {}" and "region_pages rs \<subseteq> {..<pfn_max s}"
    and "\<forall>q < pfn_max s. migratetype s q = Some (ty (zi s q))" and "\<not> regions_overlap rs"
    and "\<forall>(start, len) \<in> set rs. start + len \<le> pfn_max s"
  shows "returns (seed_regions s rs) (seed_post s (region_pages rs))"
  using assms
proof (induction rs arbitrary: s)
  case Nil
  then show ?case using seed_post_refl by simp
next
  case (Cons r rs)
  obtain start len where r: "r = (start, len)" by fastforce
  let ?A = "{start..<start + len}"
  have dj: "?A \<inter> region_pages rs = {}" using regions_disjoint [of start len rs] Cons.prems(5) by (simp add: r)
  have "returns (seed_range s start (start + len)) (seed_post s ?A)"
    using Cons.prems by (intro seed_range_ok) (auto simp: r)
  then show ?case unfolding r seed_regions.simps
  proof (rule returns_bind)
    fix t assume t: "seed_post s ?A t"
    note f = seed_post_frame [OF t]
    have fs: "free_set t = free_set s \<union> ?A" "buddy_inv t" using t by (auto simp: seed_post_def)
    have "returns (seed_regions t rs) (seed_post t (region_pages rs))"
      using Cons.prems dj fs f by (intro Cons.IH) (auto simp: r)
    then show "returns (seed_regions t rs) (seed_post s (region_pages ((start, len) # rs)))"
      by (rule returns_mono) (use seed_post_trans [OF t _ dj] in auto)
  qed
qed

section \<open>Construction\<close>

lemma recompute_derived_frame:
  "\<exists>res wm. fst (recompute_derived s) = s\<lparr>reserve := res, wmark := wm\<rparr>"
proof (cases "tunables s")
  case None
  then show ?thesis by (intro exI [of _ "lowmem_reserve (map (managed s) [0..<NR_ZONES]) DEFAULT_LOWMEM_RESERVE_RATIO"]
      exI [of _ "wmark s"]) (simp add: recompute_derived_def)
next
  case (Some u)
  then show ?thesis unfolding recompute_derived_def Let_def by simp blast
qed

lemma refresh_pcp_zones_frame: "\<exists>cfg. refresh_pcp_zones s = s\<lparr>pcp_zone := cfg\<rparr>"
  unfolding refresh_pcp_zones_def by blast

definition init_post :: "nat set \<Rightarrow> zone_layout \<Rightarrow> nat \<Rightarrow> pmm \<Rightarrow> bool" where
  "init_post A lay lim s \<longleftrightarrow> pmm_inv A {} s \<and> avail s = A \<and> cached s = {} \<and> pfn_max s = lim \<and> layout s = lay \<and>
     (\<forall>q < lim. migratetype s q = Some (zone_mobility (zi s q))) \<and> published s = None \<and> tunables s = None \<and>
     length (hibernate_forbidden s) = (lim + 63) div 64 \<and> (\<forall>z. managed s z = card (in_zone s z A)) \<and>
     (\<forall>z. present s z = card (in_zone s z A)) \<and> zone_list s = zonelist_build (map (\<lambda>z. 0 < managed s z) [0..<NR_ZONES]) \<and>
     reserve s = lowmem_reserve (map (managed s) [0..<NR_ZONES]) DEFAULT_LOWMEM_RESERVE_RATIO \<and>
     wmark s = (\<lambda>_. zone_watermarks_default) \<and> pcp s = (\<lambda>_. pl_empty) \<and>
     (\<forall>z < NR_ZONES. pcp_zone s z = cfg_new (wmark s z) (reserve s ! z) (managed s z))"

definition init_finish :: "pmm \<Rightarrow> pmm" where
  "init_finish s =
     (let s = s\<lparr>zone_list := zonelist_build (map (\<lambda>zone. managed s zone > 0) [0..<NR_ZONES])\<rparr>;
          s = fst (recompute_derived s);
          s = s\<lparr>zone_free := (\<lambda>zone. if zone < NR_ZONES then zone_free_pages s zone else 0)\<rparr>
      in refresh_pcp_zones s)"

lemma init_finish_fields:
  "\<exists>zl res wm cfg. init_finish s = s\<lparr>zone_list := zl, reserve := res, wmark := wm,
     zone_free := (\<lambda>zone. if zone < NR_ZONES then zone_free_pages s zone else 0), pcp_zone := cfg\<rparr>"
proof -
  define s1 where "s1 = s\<lparr>zone_list := zonelist_build (map (\<lambda>zone. managed s zone > 0) [0..<NR_ZONES])\<rparr>"
  obtain res wm where e1: "fst (recompute_derived s1) = s1\<lparr>reserve := res, wmark := wm\<rparr>"
    using recompute_derived_frame by blast
  have e2: "zone_free_pages (s1\<lparr>reserve := res, wmark := wm\<rparr>) = zone_free_pages s"
    by (simp add: fun_eq_iff zone_free_pages_def s1_def)
  obtain cfg where e3: "refresh_pcp_zones (s1\<lparr>reserve := res, wmark := wm,
      zone_free := \<lambda>zone. if zone < NR_ZONES then zone_free_pages s zone else 0\<rparr>) =
      s1\<lparr>reserve := res, wmark := wm, zone_free := \<lambda>zone. if zone < NR_ZONES then zone_free_pages s zone else 0, pcp_zone := cfg\<rparr>"
    using refresh_pcp_zones_frame by blast
  have "init_finish s = s1\<lparr>reserve := res, wmark := wm, zone_free := \<lambda>zone. if zone < NR_ZONES then zone_free_pages s zone else 0, pcp_zone := cfg\<rparr>"
    unfolding init_finish_def Let_def s1_def [symmetric] e1 e2 e3 ..
  then show ?thesis unfolding s1_def by blast
qed

lemma init_finish_derived:
  assumes "tunables s = None"
  shows "zone_list (init_finish s) = zonelist_build (map (\<lambda>z. 0 < managed s z) [0..<NR_ZONES])"
    "reserve (init_finish s) = lowmem_reserve (map (managed s) [0..<NR_ZONES]) DEFAULT_LOWMEM_RESERVE_RATIO"
    "wmark (init_finish s) = wmark s" "managed (init_finish s) = managed s"
    "z < NR_ZONES \<Longrightarrow> pcp_zone (init_finish s) z = cfg_new (wmark (init_finish s) z) (reserve (init_finish s) ! z) (managed (init_finish s) z)"
  using assms by (simp_all add: init_finish_def recompute_derived_def refresh_pcp_zones_def Let_def)

lemma init_finish_ok:
  assumes t: "seed_post (blank_pmm m lay lim pb (card A)) A t" and b: "blocks (blank_pmm m lay lim pb (card A)) = {}"
    and A: "A \<subseteq> {..<lim}"
    and mob: "\<forall>q < lim. migratetype (blank_pmm m lay lim pb (card A)) q = Some (zone_mobility (zi (blank_pmm m lay lim pb (card A)) q))"
  shows "init_post A lay lim (init_finish t)"
proof -
  let ?b = "blank_pmm m lay lim pb (card A)"
  note f = seed_post_frame [OF t]
  have inv: "buddy_inv t" and fs: "free_set t = A" and o: "outer t = outer (?b\<lparr>managed := managed t, present := present t\<rparr>)"
    using t b by (auto simp: seed_post_def)
  note g = buddy_frameD [OF o [folded buddy_frame_def]]
  have pub: "published t = None" using arg_cong [OF o, of published] by (simp add: outer_def blank_pmm_def)
  have wt: "wmark t = (\<lambda>_. zone_watermarks_default)" and tn: "tunables t = None"
    using arg_cong [OF o, of wmark] arg_cong [OF o, of tunables] by (simp_all add: outer_def blank_pmm_def)
  have hib: "length (hibernate_forbidden t) = (lim + 63) div 64"
    using arg_cong [OF o, of hibernate_forbidden] by (simp add: outer_def blank_pmm_def)
  have man: "managed t z = card (in_zone t z A)" "present t z = card (in_zone t z A)" for z
    using t f(3) by (simp_all add: seed_post_def in_zone_def blank_pmm_def)
  obtain zl res wm cfg where fin: "init_finish t = t\<lparr>zone_list := zl, reserve := res, wmark := wm,
     zone_free := (\<lambda>zone. if zone < NR_ZONES then zone_free_pages t zone else 0), pcp_zone := cfg\<rparr>"
    using init_finish_fields by blast
  define s where "s = init_finish t"
  have s: "buddy_inv s" "free_set s = A" "pcp_bitmap s = replicate ((lim + 63) div 64) 0" "pcp s = (\<lambda>_. pl_empty)"
    "pfn_max s = lim" "layout s = lay" "allocated s = 0" "reserved s = 0" "initial_free s = card A" "pcp_free s = (\<lambda>_. 0)"
    "zi s = zi ?b" "migratetype s = migratetype ?b" "published s = None" "tunables s = None"
    "zone_free s = (\<lambda>zone. if zone < NR_ZONES then zone_free_pages t zone else 0)"
    using inv fs g f pub by (simp_all add: s_def fin blank_pmm_def)
  have cs: "cached s = {}" "avail s = A" by (simp_all add: s avail_def)
  have "zi s = zi t" using s(11) f(3) by simp
  then have "in_zone s = in_zone t" by (simp add: in_zone_def fun_eq_iff)
  then have ext: "length (hibernate_forbidden s) = (lim + 63) div 64" "managed s z = card (in_zone s z A)" "present s z = card (in_zone s z A)" for z
    using hib man by (simp_all add: s_def fin)
  have "lim \<le> 64 * ((lim + 63) div 64)" by linarith
  then have "lists_inv s (\<lambda>_. [])" using s cs by (simp add: lists_inv_def pcp_lists_def content_def)
  moreover have "counters_inv A {} s"
  proof -
    have "zone_free s z = card (in_zone s z A)" for z
    proof (cases "z < NR_ZONES")
      case True
      then show ?thesis using zone_free_pages_card [OF inv True] by (simp add: s fs f in_zone_def)
    next
      case False
      have "zi s q \<noteq> z" for q using zi_less [of s q] False by auto
      then have "in_zone s z A = {}" by (auto simp: in_zone_def)
      then show ?thesis using False by (simp add: s)
    qed
    then show ?thesis using s cs A by (simp add: counters_inv_def in_zone_def)
  qed
  ultimately have "pmm_inv A {} s" by (auto simp: pmm_inv_def pmm_ok_def)
  then show ?thesis using s cs mob ext init_finish_derived [OF tn] wt by (simp add: init_post_def s_def [symmetric])
qed

lemma measure_regions_end:
  "measure_regions rs e n = Some (lim, tot) \<Longrightarrow> (start, len) \<in> set rs \<Longrightarrow> start + len \<le> lim"
proof (induction rs arbitrary: e n)
  case (Cons r rs)
  obtain a b where r: "r = (a, b)" by fastforce
  from Cons.prems have m: "measure_regions rs (if a + b > e then a + b else e) (n + b) = Some (lim, tot)"
    by (auto simp: r bind_eq_Some_conv)
  show ?case
    using Cons.prems(2) Cons.IH [OF m] measure_regions_bounds [OF m] by (auto simp: r split: if_splits)
qed simp

lemma init_zoned_ok:
  assumes ne: "rs \<noteq> []" and meas: "measure_regions rs 0 0 = Some (lim, n)" and no: "\<not> regions_overlap rs"
    and lim: "lim + 2 ^ MAX_ORDER \<le> U64_MAX"
  shows "returns (init_zoned arch_default m rs limits) (\<lambda>r. \<exists>s. r = Inr s \<and> init_post (region_pages rs)
    (layout_new (case limits of Some l \<Rightarrow> l | None \<Rightarrow> arch_default lim PAGE_SIZE_BYTES) lim) lim s)"
proof -
  define lay where "lay = layout_new (case limits of Some l \<Rightarrow> l | None \<Rightarrow> arch_default lim PAGE_SIZE_BYTES) lim"
  have mb: "region_pages rs \<subseteq> {..<lim}" "n = card (region_pages rs)"
    using measure_regions_bounds [OF meas] card_region_pages [OF no] by simp_all
  have within: "\<forall>(start, len) \<in> set rs. start + len \<le> lim" using measure_regions_end [OF meas] by auto
  have wf: "wf_layout lay lim" unfolding lay_def by (rule wf_layout_new)
  have step: "init_zoned arch_default m rs limits = pb_set_range (replicate (pb_words_for lim) 0) (start_pfn (layout_span lay MovableZone))
      (end_pfn (layout_span lay MovableZone)) Movable \<bind> (\<lambda>pb. seed_regions (blank_pmm m lay lim pb n) rs \<bind> (\<lambda>s. Some (Inr (init_finish s))))"
    using ne meas no lim by (simp add: init_zoned_def init_finish_def Let_def lay_def)
  show ?thesis unfolding step lay_def [symmetric]
  proof (rule returns_bind [OF mobility_init [OF lim lay_def]], elim conjE)
    fix pb assume pb: "length pb = pb_words_for lim"
      and mob: "\<forall>m n q. q < lim \<longrightarrow> migratetype (blank_pmm m lay lim pb n) q = Some (zone_mobility (zi (blank_pmm m lay lim pb n) q))"
    let ?b = "blank_pmm m lay lim pb n"
    note bb = blank_buddy_inv [OF wf lim pb, of m n]
    have "returns (seed_regions ?b rs) (seed_post ?b (region_pages rs))"
      using bb mb mob no within by (intro seed_regions_ok [where ty = zone_mobility]) auto
    then show "returns (seed_regions ?b rs \<bind> (\<lambda>s. Some (Inr (init_finish s))))
      (\<lambda>r. \<exists>s. r = Inr s \<and> init_post (region_pages rs) lay lim s)"
      by (rule returns_bind) (use init_finish_ok bb(2) mb mob in auto)
  qed
qed

lemma init_zoned_post:
  assumes "init_zoned arch_default m rs limits = Some (Inr s)"
  shows "\<exists>lay lim. init_post (region_pages rs) lay lim s"
proof -
  obtain lim n where "rs \<noteq> []" "measure_regions rs 0 0 = Some (lim, n)" "\<not> regions_overlap rs" "lim + 2 ^ MAX_ORDER \<le> U64_MAX"
    using assms by (auto simp: init_zoned_def bind_eq_Some_conv split: if_splits option.splits)
  from init_zoned_ok [OF this, of arch_default m limits] show ?thesis using assms by (auto simp: returns_def)
qed

end
