(* ===== verification/Pmm_Reserve.thy ===== *)
theory Pmm_Reserve
  imports Pmm_Init
begin

text \<open>
  Boot reservations (\<open>buddy/reserve.rs\<close>): each reserved page that is still on a buddy list is carved
  out of its block, leaves the managed count of its zone for good, and every other page stays where
  it was.
\<close>

section \<open>Carving one page out of a block\<close>

lemma reserve_split_ok:
  assumes "buddy_inv s" and "block_ok s blk order" and "pages blk order \<inter> free_set s = {}" and "migratetype s blk = Some mt"
    and "zone = zi s blk" and "p \<in> pages blk order"
  shows "returns (reserve_split s zone p blk order mt) (\<lambda>(s', b). b = p \<and> buddy_inv s' \<and> buddy_frame s s' \<and>
    pageblocks s' = pageblocks s \<and> free_set s' = free_set s \<union> (pages blk order - {p}) \<and>
    (\<forall>q. q \<notin> free_set s' \<longrightarrow> mem s' q = mem s q))"
  using assms
proof (induction order arbitrary: s blk)
  case 0
  then show ?case by auto
next
  case (Suc k)
  let ?buddy = "blk + 2 ^ k"
  have h: "block_ok s blk k" "block_ok s ?buddy k" by (rule block_ok_halves [OF Suc.prems(2)])+
  have cl: "zi s ?buddy = zone" "migratetype s ?buddy = Some mt"
    using block_ok_halves(3,4) [OF Suc.prems(2)] Suc.prems(4,5) by simp_all
  have halves: "pages blk (Suc k) = pages blk k \<union> pages ?buddy k" "pages blk k \<inter> pages ?buddy k = {}"
    by (rule pages_halves, rule pages_halves_disjoint)
  have go: "returns (enlist s zone a k mt \<bind> (\<lambda>s. reserve_split s zone p b k mt)) (\<lambda>(s', b'). b' = p \<and> buddy_inv s' \<and> buddy_frame s s' \<and>
      pageblocks s' = pageblocks s \<and> free_set s' = free_set s \<union> (pages blk (Suc k) - {p}) \<and>
      (\<forall>q. q \<notin> free_set s' \<longrightarrow> mem s' q = mem s q))"
    if ab: "block_ok s a k" "block_ok s b k" "pages a k \<union> pages b k = pages blk (Suc k)" "pages a k \<inter> pages b k = {}"
      "migratetype s a = Some mt" "migratetype s b = Some mt" "zi s a = zone" "zi s b = zone" "p \<in> pages b k" for a b
  proof -
    have fresh: "pages a k \<inter> free_set s = {}" "pages b k \<inter> free_set s = {}" using Suc.prems(3) ab(3) by blast+
    show ?thesis
    proof (rule returns_bind [OF enlist_ok [OF Suc.prems(1) ab(1) fresh(1) ab(5) ab(7) [symmetric]]], elim conjE)
      fix t assume t: "buddy_inv t" "blocks t = insert (a, k) (blocks s)" "buddy_frame s t" "pageblocks t = pageblocks s"
        "\<forall>q. q \<notin> free_set s \<longrightarrow> q \<noteq> a \<longrightarrow> mem t q = mem s q"
      have fs: "free_set t = pages a k \<union> free_set s" by (simp add: t(2))
      have "returns (reserve_split t zone p b k mt) (\<lambda>(s', b'). b' = p \<and> buddy_inv s' \<and> buddy_frame t s' \<and>
        pageblocks s' = pageblocks t \<and> free_set s' = free_set t \<union> (pages b k - {p}) \<and> (\<forall>q. q \<notin> free_set s' \<longrightarrow> mem s' q = mem t q))"
        using t ab fresh fs by (intro Suc.IH)
          (auto simp: block_ok_frame [OF t(3,4)] migratetype_cong [OF t(4)] zi_frame [OF t(3)])
      then show "returns (reserve_split t zone p b k mt) (\<lambda>(s', b'). b' = p \<and> buddy_inv s' \<and> buddy_frame s s' \<and>
        pageblocks s' = pageblocks s \<and> free_set s' = free_set s \<union> (pages blk (Suc k) - {p}) \<and> (\<forall>q. q \<notin> free_set s' \<longrightarrow> mem s' q = mem s q))"
      proof (rule returns_mono, unfold split_paired_all prod.case, elim conjE, intro conjI)
        fix u b' assume u: "b' = p" "buddy_frame t u" "pageblocks u = pageblocks t" "free_set u = free_set t \<union> (pages b k - {p})"
          "\<forall>q. q \<notin> free_set u \<longrightarrow> mem u q = mem t q"
        show fu: "free_set u = free_set s \<union> (pages blk (Suc k) - {p})"
          using ab(3,4,9) by (auto simp: u(4) fs)
        show "buddy_frame s u" using t(3) u(2) by (rule buddy_frame_trans)
        show "\<forall>q. q \<notin> free_set u \<longrightarrow> mem u q = mem s q"
        proof (intro allI impI)
          fix q assume q: "q \<notin> free_set u"
          then have "q \<notin> free_set s" "q \<noteq> a" using u(4) fs pages_self [of a k] by blast+
          then have "mem t q = mem s q" using t(5) by blast
          with u(5) q show "mem u q = mem s q" by metis
        qed
      qed (assumption | simp only: t(4))+
    qed
  qed
  show ?case
  proof (cases "p \<ge> ?buddy")
    case True
    then have "p \<in> pages ?buddy k" using Suc.prems(6) by (auto simp: pages_def)
    then show ?thesis using go [of blk ?buddy] h cl halves Suc.prems True by (simp add: Let_def)
  next
    case False
    then have "p \<in> pages blk k" using Suc.prems(6) by (auto simp: pages_def)
    moreover have "pages ?buddy k \<union> pages blk k = pages blk (Suc k)" "pages ?buddy k \<inter> pages blk k = {}" using halves by blast+
    ultimately show ?thesis
      using go [OF h(2,1) _ _ cl(2) Suc.prems(4) cl(1) Suc.prems(5) [symmetric]] False by (simp add: Let_def)
  qed
qed

lemma containing_order_ok:
  assumes inv: "buddy_inv s" and p: "p < pfn_max s" and "\<forall>k \<in> set orders. k \<le> MAX_ORDER"
  shows "returns (containing_order s p orders) (\<lambda>r. case r of
     None \<Rightarrow> \<forall>k \<in> set orders. (p div 2 ^ k * 2 ^ k, k) \<notin> blocks s
   | Some k \<Rightarrow> k \<in> set orders \<and> (p div 2 ^ k * 2 ^ k, k) \<in> blocks s)"
  using assms(3)
proof (induction orders)
  case (Cons k orders)
  have "p div 2 ^ k < 64 * length (bitmaps s k)" using buddy_inv_shape [OF inv] p Cons.prems by (simp add: shape_ok_def)
  then obtain b where b: "bitmap_get s k (p div 2 ^ k) = Some b" unfolding bitmap_get_def using bm.get_defined by blast
  have "b \<longleftrightarrow> (p div 2 ^ k * 2 ^ k, k) \<in> blocks s"
    using b Cons.prems by (simp add: blocks_of_mem bm_bits_mem bitmap_get_def)
  then show ?case using Cons b by (auto simp: returns_def split: option.splits)
qed simp

lemma containing_all:
  assumes inv: "buddy_inv s" and p: "p < pfn_max s"
  shows "returns (containing_order s p [0..<Suc MAX_ORDER]) (\<lambda>r. case r of None \<Rightarrow> p \<notin> free_set s
   | Some k \<Rightarrow> k \<le> MAX_ORDER \<and> (p div 2 ^ k * 2 ^ k, k) \<in> blocks s \<and> p \<in> free_set s)"
proof (rule returns_mono [OF containing_order_ok [OF inv p]])
  fix r assume r: "case r of None \<Rightarrow> \<forall>k \<in> set [0..<Suc MAX_ORDER]. (p div 2 ^ k * 2 ^ k, k) \<notin> blocks s
   | Some k \<Rightarrow> k \<in> set [0..<Suc MAX_ORDER] \<and> (p div 2 ^ k * 2 ^ k, k) \<in> blocks s"
  show "case r of None \<Rightarrow> p \<notin> free_set s | Some k \<Rightarrow> k \<le> MAX_ORDER \<and> (p div 2 ^ k * 2 ^ k, k) \<in> blocks s \<and> p \<in> free_set s"
  proof (cases r)
    case None
    have False if "(q, k) \<in> blocks s" "p \<in> pages q k" for q k
    proof -
      have k: "k \<le> MAX_ORDER" "2 ^ k dvd q" using that(1) by (simp_all add: blocks_of_mem)
      have "p div 2 ^ k * 2 ^ k = q" using pages_index [OF k(2)] that(2) k(2) by simp
      then show False using r None that(1) k(1) by auto
    qed
    then show ?thesis using None by (auto simp: span_of_def)
  next
    case (Some k)
    then show ?thesis using r span_of_mem [OF _ pages_div] by auto
  qed
qed auto

section \<open>The boot invariant\<close>

definition boot_inv :: "nat set \<Rightarrow> nat set \<Rightarrow> pmm \<Rightarrow> bool" where
  "boot_inv M R s \<longleftrightarrow> pmm_inv M R s \<and> pfn_max s \<le> 64 * length (hibernate_forbidden s) \<and>
     (\<forall>z < NR_ZONES. managed s z = card (in_zone s z (M - R)))"

lemma pmm_inv_config:
  assumes "mem s' = mem s" "bitmaps s' = bitmaps s" "pageblocks s' = pageblocks s" "free_heads s' = free_heads s"
    "free_count s' = free_count s" "pfn_max s' = pfn_max s" "layout s' = layout s" "pcp s' = pcp s" "pcp_bitmap s' = pcp_bitmap s"
    "allocated s' = allocated s" "reserved s' = reserved s" "initial_free s' = initial_free s" "pcp_free s' = pcp_free s"
    "zone_free s' = zone_free s"
  shows "pmm_inv M R s' \<longleftrightarrow> pmm_inv M R s"
proof -
  have z: "zi s' = zi s" "migratetype s' = migratetype s" using assms zi_cong migratetype_cong by blast+
  have "pl_ok s' = pl_ok s" by (simp add: fun_eq_iff pl_ok_def pcp_page_def assms z)
  then have "lists_inv s' L \<longleftrightarrow> lists_inv s L" for L
    using buddy_inv_cong [of s' s] by (simp add: lists_inv_def pcp_lists_def assms)
  moreover have "counters_inv M R s' \<longleftrightarrow> counters_inv M R s" by (simp add: counters_inv_def avail_def in_zone_def assms z)
  ultimately show ?thesis by (simp add: pmm_inv_def pmm_ok_def)
qed

lemma hibernate_forbid_ok:
  assumes "pfn_max s \<le> 64 * length (hibernate_forbidden s)"
  shows "\<exists>bm. hibernate_forbid s p = Some (s\<lparr>hibernate_forbidden := bm\<rparr>) \<and> length bm = length (hibernate_forbidden s) \<and>
    bm_bits bm = bm_bits (hibernate_forbidden s) \<union> ({p} \<inter> {..<pfn_max s})"
proof (cases "p < pfn_max s")
  case True
  then have "p < 64 * length (hibernate_forbidden s)" using assms by simp
  from bm_set_ok [OF this] obtain bm where "bm_set (hibernate_forbidden s) p = Some bm"
    "bm_bits bm = insert p (bm_bits (hibernate_forbidden s))" "length bm = length (hibernate_forbidden s)" .
  then show ?thesis using True by (intro exI [of _ bm]) (simp add: hibernate_forbid_def)
next
  case False
  then show ?thesis by (intro exI [of _ "hibernate_forbidden s"]) (simp add: hibernate_forbid_def)
qed

definition reserved_post :: "nat set \<Rightarrow> nat set \<Rightarrow> pmm \<Rightarrow> nat set \<Rightarrow> pmm \<Rightarrow> bool" where
  "reserved_post M R s A s' \<longleftrightarrow> boot_inv M (R \<union> A) s' \<and> avail s' = avail s - A \<and> free_set s' = free_set s - A \<and>
     cached s' = cached s \<and> pfn_max s' = pfn_max s \<and> layout s' = layout s \<and> zone_list s' = zone_list s \<and>
     pageblocks s' = pageblocks s"

text \<open>Taking page \<open>p\<close> of the free block \<open>(blk, order)\<close> out of circulation.\<close>

lemma carve_ok:
  assumes inv: "boot_inv M R s" and b: "(blk, order) \<in> blocks s" and p: "p \<in> pages blk order" and mt: "migratetype s blk = Some mt"
    and zone: "zone = zi s blk"
  shows "returns (do { s \<leftarrow> delist s zone blk order mt; reserve_split s zone p blk order mt })
    (\<lambda>(t, b). b = p \<and> buddy_inv t \<and> buddy_frame s t \<and> pageblocks t = pageblocks s \<and> free_set t = free_set s - {p} \<and>
      (\<forall>q. q \<notin> free_set s \<longrightarrow> mem t q = mem s q))"
proof -
  obtain L where ok: "pmm_ok M R s L" using inv by (auto simp: boot_inv_def pmm_inv_def)
  have bi: "buddy_inv s" using ok by (simp add: pmm_ok_def lists_inv_def)
  have sub: "pages blk order \<subseteq> free_set s" using span_of_mem [OF b] by blast
  show ?thesis
  proof (rule returns_bind [OF delist_ok [OF bi b mt zone]])
    fix t assume t: "removed s blk order mt t"
    then have r: "buddy_inv t" "blocks t = blocks s - {(blk, order)}" "buddy_frame s t" "pageblocks t = pageblocks s"
      "\<forall>q. q \<notin> free_set s \<longrightarrow> mem t q = mem s q" by (auto simp: removed_def)
    have ft: "free_set t = free_set s - pages blk order"
      unfolding r(2) by (rule span_of_remove [OF buddy_inv_disjoint_blocks [OF bi] b])
    have "returns (reserve_split t zone p blk order mt) (\<lambda>(s', b). b = p \<and> buddy_inv s' \<and> buddy_frame t s' \<and>
      pageblocks s' = pageblocks t \<and> free_set s' = free_set t \<union> (pages blk order - {p}) \<and> (\<forall>q. q \<notin> free_set s' \<longrightarrow> mem s' q = mem t q))"
      using r(1) buddy_invD(1) [OF bi b] ft p mt zone
      by (intro reserve_split_ok) (auto simp: block_ok_frame [OF r(3,4)] migratetype_cong [OF r(4)] zi_frame [OF r(3)])
    then show "returns (reserve_split t zone p blk order mt) (\<lambda>(u, b). b = p \<and> buddy_inv u \<and> buddy_frame s u \<and>
      pageblocks u = pageblocks s \<and> free_set u = free_set s - {p} \<and> (\<forall>q. q \<notin> free_set s \<longrightarrow> mem u q = mem s q))"
    proof (rule returns_mono, unfold split_paired_all prod.case, elim conjE, intro conjI)
      fix u b' assume u: "buddy_frame t u" "free_set u = free_set t \<union> (pages blk order - {p})"
        "\<forall>q. q \<notin> free_set u \<longrightarrow> mem u q = mem t q"
      show "buddy_frame s u" using r(3) u(1) by (rule buddy_frame_trans)
      show fu: "free_set u = free_set s - {p}" using sub p by (auto simp: u(2) ft)
      show "\<forall>q. q \<notin> free_set s \<longrightarrow> mem u q = mem s q"
      proof (intro allI impI)
        fix q assume "q \<notin> free_set s"
        moreover have "q \<notin> free_set u" using calculation fu by blast
        ultimately show "mem u q = mem s q" using u(3) r(5) by metis
      qed
    qed (assumption | simp only: r(4))+
  qed
qed

lemma counters_finite: "counters_inv M R s \<Longrightarrow> finite M \<and> finite R"
  unfolding counters_inv_def by (meson finite_lessThan finite_subset)

lemma reserve_finish:
  assumes inv: "boot_inv M R s" and p: "p \<in> free_set s" "zi s p = zone"
    and t: "buddy_inv t" "buddy_frame s t" "pageblocks t = pageblocks s" "free_set t = free_set s - {p}"
      "\<forall>q. q \<notin> free_set s \<longrightarrow> mem t q = mem s q"
    and bm: "length bm = length (hibernate_forbidden s)"
  shows "reserved_post M R s {p} (t\<lparr>allocated := allocated t + 1, reserved := reserved t + 1, managed := (managed t)(zone := managed s zone - 1),
    hibernate_forbidden := bm, zone_free := (zone_free s)(zone := wrapping_sub (zone_free s zone) 1)\<rparr>)" (is "reserved_post M R s {p} ?s'")
proof -
  obtain L where ok: "pmm_ok M R s L" using inv by (auto simp: boot_inv_def pmm_inv_def)
  have LI: "lists_inv s L" and c: "counters_inv M R s" using ok by (simp_all add: pmm_ok_def)
  note I = lists_invD [OF LI] and f = buddy_frameD [OF t(2)]
  have z: "zi t = zi s" "migratetype t = migratetype s" using zi_frame [OF t(2)] migratetype_cong [OF t(3)] by simp_all
  have pc: "p \<notin> cached s" "p \<in> M - R" using p I(3,5) c by (auto simp: counters_inv_def avail_def)
  have fs: "free_set ?s' = free_set s - {p}" "cached ?s' = cached s" "avail ?s' = avail s - {p}"
    using pc t(4) by (auto simp: avail_def f)
  have "keeps s (content L) ?s'"
  proof -
    have "mem t q = mem s q" if "q \<in> content L" for q using that t(5) I(5) by blast
    then show ?thesis by (simp add: keeps_def f z)
  qed
  then have li: "lists_inv ?s' L"
    by (rule lists_inv_frame [OF LI, rotated]) (use t(1) I(5) in \<open>auto simp: f t(4)\<close>)
  have fin: "finite M" "finite R" using counters_finite [OF c] by simp_all
  have zi': "zi ?s' = zi s" by (rule zi_cong) (simp add: f)
  have "counters_inv M (R \<union> {p}) ?s'"
  proof (rule counters_upd [OF c, of ?s' "R \<union> {p}" zone "pcp_free s zone" "wrapping_sub (zone_free s zone) 1"])
    have d: "avail s - avail ?s' = {p}" "avail ?s' - avail s = {}" "free_set s - free_set ?s' = {p}" "free_set ?s' - free_set s = {}"
      unfolding fs using p by (auto simp: avail_def)
    have "0 < zone_free s zone" using c p by (auto simp: counters_inv_def in_zone_def card_gt_0_iff avail_def)
    then show "wrapping_sub (zone_free s zone) 1 + card (avail s - avail ?s') = zone_free s zone + card (avail ?s' - avail s)"
      using counters_bound(1) [OF c I(6), of zone] counters_bound(3) [OF c I(6)] unfolding d by (simp add: wrapping_sub_eq)
    show "allocated ?s' + card (free_set ?s' - free_set s) = allocated s + card (free_set s - free_set ?s')"
      unfolding d by (simp add: f)
    show "avail ?s' \<subseteq> M - (R \<union> {p})" "R \<union> {p} \<subseteq> M" using c pc unfolding fs by (auto simp: counters_inv_def)
    show "reserved ?s' = card (R \<union> {p})" using c pc fin by (simp add: f counters_inv_def)
    show "zi s q = zone" if "q \<in> (avail s - avail ?s') \<union> (avail ?s' - avail s)" for q using that p(2) unfolding d by auto
    show "zi s q = zone" if "q \<in> (cached s - cached ?s') \<union> (cached ?s' - cached s)" for q using that unfolding fs by auto
    show "pcp_free s zone + card (cached s - cached ?s') = pcp_free s zone + card (cached ?s' - cached s)" unfolding fs by simp
  qed (simp_all add: f)
  moreover have "managed ?s' v = card (in_zone ?s' v (M - (R \<union> {p})))" if v: "v < NR_ZONES" for v
  proof -
    have iz: "in_zone ?s' v (M - (R \<union> {p})) = in_zone s v (M - R) - {p}" unfolding in_zone_def zi' by blast
    have "managed s v = card (in_zone s v (M - R))" using inv v by (simp add: boot_inv_def)
    moreover have "p \<in> in_zone s v (M - R) \<longleftrightarrow> v = zone" using pc(2) p(2) by (auto simp: in_zone_def)
    moreover have "finite (in_zone s v (M - R))" using fin by (simp add: in_zone_def)
    ultimately show ?thesis unfolding iz by (cases "v = zone") (simp_all add: f)
  qed
  ultimately have "boot_inv M (R \<union> {p}) ?s'"
    using li inv bm by (auto simp: boot_inv_def pmm_inv_def pmm_ok_def f)
  then show ?thesis unfolding reserved_post_def fs using f t(3) by simp
qed

lemma reserve_page_ok:
  assumes inv: "boot_inv M R s" and p: "p < pfn_max s"
  shows "returns (reserve_page s nosave p) (reserved_post M R s ({p} \<inter> free_set s))"
proof -
  obtain L where ok: "pmm_ok M R s L" using inv by (auto simp: boot_inv_def pmm_inv_def)
  have LI: "lists_inv s L" and c: "counters_inv M R s" using ok by (simp_all add: pmm_ok_def)
  note I = lists_invD [OF LI]
  have hb: "pfn_max s \<le> 64 * length (hibernate_forbidden s)" and mg: "\<forall>z < NR_ZONES. managed s z = card (in_zone s z (M - R))"
    using inv by (simp_all add: boot_inv_def)
  have forbid: "returns (if nosave then hibernate_forbid t p else Some t) (\<lambda>t'. \<exists>bm. t' = t\<lparr>hibernate_forbidden := bm\<rparr> \<and>
      length bm = length (hibernate_forbidden t))" if "hibernate_forbidden t = hibernate_forbidden s" "pfn_max t = pfn_max s" for t
  proof (cases nosave)
    case True
    then show ?thesis using hibernate_forbid_ok [of t p] hb that by auto
  next
    case False
    then show ?thesis by (auto intro!: exI [of _ "hibernate_forbidden t"])
  qed
  show ?thesis unfolding reserve_page_def
  proof (rule returns_bind [OF containing_all [OF I(1) p]])
    fix k assume k: "case k of None \<Rightarrow> p \<notin> free_set s | Some k \<Rightarrow> k \<le> MAX_ORDER \<and> (p div 2 ^ k * 2 ^ k, k) \<in> blocks s \<and> p \<in> free_set s"
    show "returns (case k of None \<Rightarrow> (if nosave then hibernate_forbid s p else Some s)
      | Some order \<Rightarrow> do {
          let blk = p div 2 ^ order * 2 ^ order;
          let zone = zi s blk;
          mt \<leftarrow> migratetype s blk;
          s \<leftarrow> delist s zone blk order mt;
          (s, blk) \<leftarrow> reserve_split s zone p blk order mt;
          kassert (blk = p);
          n \<leftarrow> checked_sub (managed s zone) 1;
          let s = s\<lparr>allocated := allocated s + 1, reserved := reserved s + 1, managed := (managed s)(zone := n)\<rparr>;
          s \<leftarrow> (if nosave then hibernate_forbid s p else Some s);
          Some (s\<lparr>zone_free := (zone_free s)(zone := wrapping_sub (zone_free s zone) 1)\<rparr>)
        }) (reserved_post M R s ({p} \<inter> free_set s))"
    proof (cases k)
      case None
      then have e: "{p} \<inter> free_set s = {}" using k by simp
      have skip: "reserved_post M R s {} (s\<lparr>hibernate_forbidden := bm\<rparr>)" if "length bm = length (hibernate_forbidden s)" for bm
        using inv that pmm_inv_config [of "s\<lparr>hibernate_forbidden := bm\<rparr>" s M R]
        by (simp add: reserved_post_def boot_inv_def in_zone_def avail_def)
      show ?thesis unfolding None option.case e
        by (rule returns_mono [OF forbid [OF refl refl]], elim exE conjE) (simp only: skip)
    next
      case (Some order)
      define blk where "blk = p div 2 ^ order * 2 ^ order"
      define zone where "zone = zi s blk"
      have b: "(blk, order) \<in> blocks s" "p \<in> free_set s" "p \<in> pages blk order" using k Some pages_div by (auto simp: blk_def)
      obtain mt where mt: "migratetype s blk = Some mt"
        using migratetype_defined [OF I(6) block_ok_less [OF buddy_invD(1) [OF I(1) b(1)]]] by blast
      have zp: "zi s p = zone"
        using buddy_invD(1) [OF I(1) b(1)] one_classD [of s "pages blk order" blk p] b(3) by (simp add: block_ok_def zone_def)
      let ?rest = "\<lambda>(s, blk). do {
          kassert (blk = p);
          n \<leftarrow> checked_sub (managed s zone) 1;
          let s = s\<lparr>allocated := allocated s + 1, reserved := reserved s + 1, managed := (managed s)(zone := n)\<rparr>;
          s \<leftarrow> (if nosave then hibernate_forbid s p else Some s);
          Some (s\<lparr>zone_free := (zone_free s)(zone := wrapping_sub (zone_free s zone) 1)\<rparr>)
        }"
      have "returns (do { s \<leftarrow> delist s zone blk order mt; reserve_split s zone p blk order mt } \<bind> ?rest) (reserved_post M R s {p})"
      proof (rule returns_bind [OF carve_ok [OF inv b(1,3) mt zone_def]], unfold split_paired_all prod.case, elim conjE)
        fix t b' assume t: "b' = p" "buddy_inv t" "buddy_frame s t" "pageblocks t = pageblocks s" "free_set t = free_set s - {p}"
          "\<forall>q. q \<notin> free_set s \<longrightarrow> mem t q = mem s q"
        note f = buddy_frameD [OF t(3)]
        have pM: "p \<in> M - R" using b(2) c by (auto simp: counters_inv_def avail_def)
        have "p \<in> in_zone s zone (M - R)" "finite (in_zone s zone (M - R))"
          using pM zp counters_finite [OF c] by (simp_all add: in_zone_def)
        then have m1: "1 \<le> managed s zone" using mg by (auto simp: zone_def Suc_le_eq card_gt_0_iff)
        let ?t = "t\<lparr>allocated := allocated t + 1, reserved := reserved t + 1, managed := (managed t)(zone := managed s zone - 1)\<rparr>"
        have fin: "reserved_post M R s {p} (?t\<lparr>hibernate_forbidden := bm, zone_free := (zone_free s)(zone := wrapping_sub (zone_free s zone) 1)\<rparr>)"
          if "length bm = length (hibernate_forbidden s)" for bm
          by (rule reserve_finish [OF inv b(2) zp t(2-6) that])
        have "returns (if nosave then hibernate_forbid ?t p else Some ?t) (\<lambda>t'. \<exists>bm. t' = ?t\<lparr>hibernate_forbidden := bm\<rparr> \<and>
            length bm = length (hibernate_forbidden ?t))" by (rule forbid) (simp_all add: f)
        then have step: "returns ((if nosave then hibernate_forbid ?t p else Some ?t) \<bind>
            (\<lambda>s. Some (s\<lparr>zone_free := (zone_free s)(zone := wrapping_sub (zone_free s zone) 1)\<rparr>))) (reserved_post M R s {p})"
          by (rule returns_bind, elim exE conjE) (use fin in \<open>simp add: f\<close>)
        have c1: "kassert (b' = p) = Some ()" "checked_sub (managed t zone) 1 = Some (managed s zone - 1)"
          using t(1) m1 by (simp_all add: f)
        show "returns (do {
          kassert (b' = p);
          n \<leftarrow> checked_sub (managed t zone) 1;
          let s = t\<lparr>allocated := allocated t + 1, reserved := reserved t + 1, managed := (managed t)(zone := n)\<rparr>;
          s \<leftarrow> (if nosave then hibernate_forbid s p else Some s);
          Some (s\<lparr>zone_free := (zone_free s)(zone := wrapping_sub (zone_free s zone) 1)\<rparr>)
        }) (reserved_post M R s {p})"
          unfolding c1 Option.bind.bind_lunit Let_def by (rule step)
      qed
      then show ?thesis using Some mt b(2) by (simp add: blk_def zone_def Let_def)
    qed
  qed
qed

section \<open>Reserving a range\<close>

lemma reserved_post_trans:
  assumes "reserved_post M R s A t" and "reserved_post M (R \<union> A) t B u"
  shows "reserved_post M R s (A \<union> B) u"
  using assms unfolding reserved_post_def by (auto simp: Un_assoc)

lemma reserve_pages_ok:
  assumes "boot_inv M R s" and "\<forall>p \<in> set ps. p < pfn_max s"
  shows "returns (reserve_pages s nosave ps) (reserved_post M R s (set ps \<inter> free_set s))"
  using assms
proof (induction ps arbitrary: s R)
  case Nil
  then show ?case by (simp add: reserved_post_def)
next
  case (Cons p ps)
  show ?case unfolding reserve_pages.simps
  proof (rule returns_bind [OF reserve_page_ok [OF Cons.prems(1)]])
    show "p < pfn_max s" using Cons.prems(2) by simp
    fix t assume t: "reserved_post M R s ({p} \<inter> free_set s) t"
    have "returns (reserve_pages t nosave ps) (reserved_post M (R \<union> ({p} \<inter> free_set s)) t (set ps \<inter> free_set t))"
      using t Cons.prems(2) by (intro Cons.IH) (auto simp: reserved_post_def)
    then show "returns (reserve_pages t nosave ps) (reserved_post M R s (set (p # ps) \<inter> free_set s))"
    proof (rule returns_mono)
      fix u assume "reserved_post M (R \<union> ({p} \<inter> free_set s)) t (set ps \<inter> free_set t) u"
      from reserved_post_trans [OF t this]
      have "reserved_post M R s (({p} \<inter> free_set s) \<union> (set ps \<inter> free_set t)) u" .
      moreover have "free_set t = free_set s - ({p} \<inter> free_set s)" using t by (simp add: reserved_post_def)
      then have "({p} \<inter> free_set s) \<union> (set ps \<inter> free_set t) = set (p # ps) \<inter> free_set s" by auto
      ultimately show "reserved_post M R s (set (p # ps) \<inter> free_set s) u" by simp
    qed
  qed
qed

lemma all_free_ok:
  assumes inv: "buddy_inv s" and "\<forall>p \<in> set ps. p < pfn_max s"
  shows "all_free s ps = Some (set ps \<subseteq> free_set s)"
  using assms(2)
proof (induction ps)
  case (Cons p ps)
  obtain r where r: "containing_order s p [0..<Suc MAX_ORDER] = Some r" "r = None \<longleftrightarrow> p \<notin> free_set s"
    using containing_all [OF inv, of p] Cons.prems by (auto simp: returns_def split: option.splits simp del: upt_Suc)
  then show ?case using Cons by (simp del: upt_Suc)
qed simp

lemma publish_frame: "\<exists>pub. publish s d = s\<lparr>published := pub\<rparr>"
  by (cases d) (auto simp: publish_def intro: exI [of _ "published s"])

lemma reserved_post_config:
  assumes "reserved_post M R s A t"
  shows "reserved_post M R s A (t\<lparr>reserve := a, wmark := b, pcp_zone := c, published := d\<rparr>)"
proof -
  let ?u = "t\<lparr>reserve := a, wmark := b, pcp_zone := c, published := d\<rparr>"
  have "pmm_inv M (R \<union> A) ?u = pmm_inv M (R \<union> A) t" by (rule pmm_inv_config) simp_all
  moreover have "in_zone ?u = in_zone t" by (intro in_zone_cong zi_cong) simp
  moreover have "avail ?u = avail t" by (simp add: avail_def)
  ultimately show ?thesis using assms by (simp add: reserved_post_def boot_inv_def)
qed

lemma reserved_post_publish:
  assumes post: "reserved_post M R s A t" and rec: "recompute_derived t = (t', derived)"
  shows "reserved_post M R s A (publish (refresh_pcp_zones t') derived)"
proof -
  obtain a b where "t' = t\<lparr>reserve := a, wmark := b\<rparr>" using recompute_derived_frame [of t] rec by auto
  moreover obtain c where "refresh_pcp_zones t' = t'\<lparr>pcp_zone := c\<rparr>" using refresh_pcp_zones_frame by blast
  moreover obtain d where "publish (refresh_pcp_zones t') derived = (refresh_pcp_zones t')\<lparr>published := d\<rparr>"
    using publish_frame by blast
  ultimately show ?thesis using reserved_post_config [OF post] by simp
qed

lemma reserve_early_inner_ok:
  assumes inv: "boot_inv M R s"
  shows "returns (reserve_early_inner s start len nosave exact) (\<lambda>(s', r).
    if pfn_max s < start + len then s' = s \<and> r = Inl OutOfRange
    else if exact \<and> \<not> {start..<start + len} \<subseteq> free_set s then s' = s \<and> r = Inl Overlap
    else r = Inr () \<and> reserved_post M R s ({start..<start + len} \<inter> free_set s) s')"
proof -
  have bi: "buddy_inv s" using inv by (auto simp: boot_inv_def pmm_inv_def pmm_ok_def dest: lists_invD)
  then have sh: "shape_ok s" by (rule buddy_inv_shape)
  show ?thesis
  proof (cases "pfn_max s < start + len")
    case True
    then show ?thesis by (cases "start + len \<le> U64_MAX") (simp_all add: reserve_early_inner_def checked_add_def)
  next
    case False
    then have ca: "checked_add start len = Some (start + len)" using sh by (simp add: shape_ok_def)
    have in_range: "\<forall>p \<in> set [start..<start + len]. p < pfn_max s" using False by auto
    have pre: "(if exact then all_free s [start..<start + len] else Some True) =
        Some (exact \<longrightarrow> {start..<start + len} \<subseteq> free_set s)"
      using all_free_ok [OF bi in_range] by simp
    have step: "reserve_early_inner s start len nosave exact = (if \<not> (exact \<longrightarrow> {start..<start + len} \<subseteq> free_set s) then Some (s, Inl Overlap)
        else do { s \<leftarrow> reserve_pages s nosave [start..<start + len];
               let (s, derived) = recompute_derived s;
               Some (publish (refresh_pcp_zones s) derived, Inr ()) })"
      by (simp only: reserve_early_inner_def ca option.case if_not_P [OF False] pre Option.bind.bind_lunit)
    show ?thesis
    proof (cases "exact \<and> \<not> {start..<start + len} \<subseteq> free_set s")
      case True
      then show ?thesis using False unfolding step by simp
    next
      case ok: False
      have "returns (do { s \<leftarrow> reserve_pages s nosave [start..<start + len];
               let (s, derived) = recompute_derived s;
               Some (publish (refresh_pcp_zones s) derived, Inr ()) })
           (\<lambda>(s', r). r = Inr () \<and> reserved_post M R s ({start..<start + len} \<inter> free_set s) s')"
        by (rule returns_bind [OF reserve_pages_ok [OF inv in_range]]) (auto simp: reserved_post_publish split: prod.splits)
      then show ?thesis using False ok unfolding step by (cases exact) simp_all
    qed
  qed
qed

lemma boot_inv_init: "init_post A lay lim s \<Longrightarrow> boot_inv A {} s"
proof -
  assume post: "init_post A lay lim s"
  have "lim \<le> 64 * ((lim + 63) div 64)" by linarith
  then show "boot_inv A {} s" using post by (simp add: boot_inv_def init_post_def)
qed

end
