(* ===== verification/Pmm_Audit.thy ===== *)
theory Pmm_Audit
  imports Pmm_Reserve
begin

text \<open>
  The invariant walk of \<open>buddy/audit.rs\<close> succeeds on every state that satisfies the allocator's
  invariant: each list walk ends, each recount agrees, and the three page classes add up.
\<close>

section \<open>The buddy lists\<close>

lemma audit_list_run:
  assumes "sll (next_of (mem s)) cur xs"
    and "\<And>p. p \<in> set xs \<Longrightarrow> bitmap_get s order (p div 2 ^ order) = Some True \<and> p mod 2 ^ order = 0 \<and>
      span_contains (layout s ! zone) p \<and> p + 2 ^ order \<le> end_pfn (layout s ! zone) \<and> migratetype s p = Some mt \<and>
      read_u64 (mem s) p OFF_POISON = POISON_MAGIC"
  shows "audit_list s zone mt order cur n = Some (n + length xs)"
  using assms
proof (induction xs arbitrary: cur n)
  case Nil
  then show ?case by (subst audit_list.simps) simp
next
  case (Cons x xs)
  then show ?case by (subst audit_list.simps) simp
qed

lemma block_span:
  assumes inv: "buddy_inv s" and b: "(p, order) \<in> blocks s"
  shows "span_contains (layout s ! zi s p) p" "p + 2 ^ order \<le> end_pfn (layout s ! zi s p)"
proof -
  have sh: "shape_ok s" and ok: "block_ok s p order" using inv b buddy_inv_shape buddy_invD by blast+
  then have wf: "wf_layout (layout s) (pfn_max s)" by (simp add: shape_ok_def)
  have span: "span_contains (layout s ! zi s q) q" if "q < pfn_max s" for q
    using index_of_eq_iff [OF wf zi_less] index_of_zi [OF sh that] by blast
  show "span_contains (layout s ! zi s p) p" using span block_ok_less [OF ok] by blast
  define q where "q = p + 2 ^ order - 1"
  have eq: "q + 1 = p + 2 ^ order" by (simp add: q_def)
  then have q: "q \<in> pages p order" "q < pfn_max s" "q + 1 = p + 2 ^ order"
    using ok zero_less_power [of "2 :: nat" order] unfolding block_ok_def pages_def atLeastLessThan_iff by linarith+
  then have "zi s q = zi s p" using ok one_classD unfolding block_ok_def by blast
  then show "p + 2 ^ order \<le> end_pfn (layout s ! zi s p)" using span [OF q(2)] q(3) by (simp add: span_contains_def)
qed

lemma audit_list_ok:
  assumes inv: "buddy_inv s" and z: "zone < NR_ZONES" and o: "order \<le> MAX_ORDER"
  shows "audit_list s zone mt order (free_heads s (zone, mt, order)) 0 = Some (free_count s (zone, mt, order))"
proof -
  obtain xs where xs: "list_ok s (zone, mt, order) xs" using buddy_inv_list [OF inv z o] by metis
  have "audit_list s zone mt order (free_heads s (zone, mt, order)) 0 = Some (0 + length xs)"
  proof (rule audit_list_run)
    show "sll (next_of (mem s)) (free_heads s (zone, mt, order)) xs" using xs dll_sll by (auto simp: list_ok_def)
    fix p assume "p \<in> set xs"
    then have p: "(p, order) \<in> blocks s" "zi s p = zone" "migratetype s p = Some mt" using xs by (auto simp: list_ok_def)
    then show "bitmap_get s order (p div 2 ^ order) = Some True \<and> p mod 2 ^ order = 0 \<and>
      span_contains (layout s ! zone) p \<and> p + 2 ^ order \<le> end_pfn (layout s ! zone) \<and> migratetype s p = Some mt \<and>
      read_u64 (mem s) p OFF_POISON = POISON_MAGIC"
      using block_span [OF inv p(1)] buddy_invD(2) [OF inv p(1)]
      by (auto simp: blocks_of_mem bm_bits_def bitmap_get_def poisoned_def)
  qed
  then show ?thesis using xs by (simp add: list_ok_def)
qed

lemma audit_lists_ok:
  assumes inv: "buddy_inv s" and o: "order \<le> MAX_ORDER" and ks: "\<forall>(zone, mt) \<in> set ks. zone < NR_ZONES"
  shows "audit_lists s order ks c b = Some (c + (\<Sum>(zone, mt) \<leftarrow> ks. free_count s (zone, mt, order)),
     \<lambda>z. b z + (\<Sum>(zone, mt) \<leftarrow> ks. if zone = z then free_count s (zone, mt, order) * 2 ^ order else 0))"
  using ks
proof (induction ks arbitrary: c b)
  case (Cons k ks)
  obtain zone mt where k: "k = (zone, mt)" by fastforce
  show ?case using Cons audit_list_ok [OF inv _ o, of zone mt] by (simp add: k fun_eq_iff add.assoc)
qed (simp add: fun_eq_iff)

lemma sum_zone_types: "(\<Sum>(zone, mt) \<leftarrow> zone_types. f zone mt) = (\<Sum>zone<NR_ZONES. \<Sum>mt \<in> UNIV. f zone mt :: nat)"
proof -
  have "(\<Sum>(zone, mt) \<leftarrow> concat (map (\<lambda>zone. map (Pair zone) ts) zs). f zone mt) = (\<Sum>zone \<leftarrow> zs. \<Sum>mt \<leftarrow> ts. f zone mt)"
    for ts :: "migrate_type list" and zs
    by (induction zs) (simp_all add: o_def)
  from this [of all_types "[0..<NR_ZONES]"] show ?thesis
    by (simp add: zone_types_def sum_list_all_types sum_list_upt)
qed

lemma popcount_blocks:
  assumes inv: "buddy_inv s" and o: "order \<le> MAX_ORDER"
  shows "bm_popcount (bitmaps s order) = (\<Sum>(zone, mt) \<leftarrow> zone_types. free_count s (zone, mt, order))"
proof -
  define P where "P = {p. (p, order) \<in> blocks s}"
  define cls where "cls = (\<lambda>p. (zi s p, the (migratetype s p)))"
  have bits: "bm_bits (bitmaps s order) = (\<lambda>p. p div 2 ^ order) ` P" and inj: "inj_on (\<lambda>p. p div 2 ^ order) P"
    using o by (auto simp: P_def blocks_of_mem image_iff inj_on_def intro!: exI [of _ "_ * 2 ^ order"])
  have fin: "finite P" using finite_bm_bits [of "bitmaps s order"] inj unfolding bits by (rule finite_imageD)
  have mt: "\<exists>t. migratetype s p = Some t" if "p \<in> P" for p
    using migratetype_defined [OF buddy_inv_shape [OF inv] block_ok_less [OF buddy_invD(1) [OF inv]]] that by (auto simp: P_def)
  have cnt: "card {p \<in> P. cls p = (zone, t)} = free_count s (zone, t, order)" if z: "zone < NR_ZONES" for zone t
  proof -
    obtain xs where xs: "list_ok s (zone, t, order) xs" using buddy_inv_list [OF inv z o] by metis
    have "{p \<in> P. cls p = (zone, t)} = set xs" using xs mt by (fastforce simp: list_ok_def P_def cls_def)
    then show ?thesis using xs distinct_card [of xs] by (simp add: list_ok_def dll_def)
  qed
  have "card P = (\<Sum>k \<in> {..<NR_ZONES} \<times> UNIV. card {p \<in> P. cls p = k})"
  proof -
    have "finite ({..<NR_ZONES} \<times> (UNIV :: migrate_type set))" by (simp add: UNIV_migrate_type)
    moreover have "cls ` P \<subseteq> {..<NR_ZONES} \<times> UNIV" by (auto simp: cls_def)
    ultimately show ?thesis using fin sum.group [of P "{..<NR_ZONES} \<times> UNIV" cls "\<lambda>_. 1 :: nat"] by simp
  qed
  also have "\<dots> = (\<Sum>zone<NR_ZONES. \<Sum>t \<in> UNIV. free_count s (zone, t, order))"
    unfolding sum.cartesian_product' by (intro sum.cong refl) (auto simp: cnt)
  finally show ?thesis unfolding bm_popcount_card bits card_image [OF inj] sum_zone_types .
qed

lemma audit_orders_ok:
  assumes inv: "buddy_inv s" and os: "\<forall>order \<in> set orders. order \<le> MAX_ORDER"
  shows "audit_orders s orders n b =
    Some (n + (\<Sum>order \<leftarrow> orders. (\<Sum>(zone, mt) \<leftarrow> zone_types. free_count s (zone, mt, order)) * 2 ^ order),
      \<lambda>z. b z + (\<Sum>order \<leftarrow> orders. \<Sum>(zone, mt) \<leftarrow> zone_types. if zone = z then free_count s (zone, mt, order) * 2 ^ order else 0))"
  using os
proof (induction orders arbitrary: n b)
  case (Cons order orders)
  have "\<forall>(zone, mt) \<in> set zone_types. zone < NR_ZONES" by (auto simp: zone_types_def)
  then show ?case
    using Cons popcount_blocks [OF inv, of order] audit_lists_ok [OF inv, of order zone_types 0 b] by (simp add: fun_eq_iff add.assoc)
qed (simp add: fun_eq_iff)

lemma audit_orders_all:
  assumes inv: "buddy_inv s"
  shows "\<exists>b. audit_orders s [0..<ORDERS] 0 (\<lambda>_. 0) = Some (card (free_set s), b) \<and>
    (\<forall>z < NR_ZONES. b z = card (in_zone s z (free_set s)))"
proof -
  define f where "f = (\<lambda>zone mt order. free_count s (zone, mt, order) * 2 ^ order)"
  have zf: "(\<Sum>mt \<in> UNIV. \<Sum>order<ORDERS. f z mt order) = card (in_zone s z (free_set s))" if "z < NR_ZONES" for z
    using zone_free_pages_card [OF inv that]
    by (simp add: zone_free_pages_def sum_list_all_types sum_list_upt f_def in_zone_def)
  have each: "(\<Sum>order \<leftarrow> [0..<ORDERS]. \<Sum>(zone, mt) \<leftarrow> zone_types. if zone = z then free_count s (zone, mt, order) * 2 ^ order else 0) =
      card (in_zone s z (free_set s))" if z: "z < NR_ZONES" for z
  proof -
    have "(\<Sum>zone<NR_ZONES. \<Sum>mt \<in> UNIV. if zone = z then f zone mt order else 0) = (\<Sum>mt \<in> UNIV. f z mt order)" for order
    proof -
      have "(\<Sum>mt \<in> UNIV. if zone = z then f zone mt order else 0) = (if zone = z then (\<Sum>mt \<in> UNIV. f z mt order) else 0)" for zone
        by simp
      then show ?thesis using z by simp
    qed
    from this [unfolded f_def] show ?thesis unfolding sum_zone_types sum_list_upt
      using zf [OF z] sum.swap [of "\<lambda>order mt. f z mt order" UNIV "{..<ORDERS}"] by (simp add: f_def)
  qed
  have "card (free_set s) = (\<Sum>z<NR_ZONES. card (in_zone s z (free_set s)))"
    using finite_free_set sum.group [of "free_set s" "{..<NR_ZONES}" "zi s" "\<lambda>_. 1 :: nat"] by (simp add: in_zone_def image_subset_iff)
  also have "\<dots> = (\<Sum>z<NR_ZONES. \<Sum>mt \<in> UNIV. \<Sum>order<ORDERS. f z mt order)" using zf by simp
  also have "\<dots> = (\<Sum>z<NR_ZONES. \<Sum>order<ORDERS. \<Sum>mt \<in> UNIV. f z mt order)" by (intro sum.cong refl sum.swap)
  also have "\<dots> = (\<Sum>order<ORDERS. \<Sum>z<NR_ZONES. \<Sum>mt \<in> UNIV. f z mt order)" by (rule sum.swap)
  finally have all: "(\<Sum>order \<leftarrow> [0..<ORDERS]. (\<Sum>(zone, mt) \<leftarrow> zone_types. free_count s (zone, mt, order)) * 2 ^ order) = card (free_set s)"
    unfolding sum_zone_types sum_list_upt by (simp add: f_def sum_distrib_right)
  show ?thesis using each all audit_orders_ok [OF inv, of "[0..<ORDERS]" 0 "\<lambda>_. 0"] by (simp add: ORDERS_def less_Suc_eq_le)
qed

section \<open>The pagesets\<close>

lemma audit_pcp_list_run:
  assumes sh: "shape_ok s" and cap: "pfn_max s \<le> 64 * length (pcp_bitmap s)"
    and "sll (next_of (mem s)) cur xs" "distinct xs" "n + length xs \<le> count"
    and "\<And>p. p \<in> set xs \<Longrightarrow> pcp_page s zone mt p \<and> p \<in> cached s \<and> p \<notin> free_set s"
  shows "audit_pcp_list s zone mt count cur n = Some (n + length xs)"
  using assms(3-)
proof (induction xs arbitrary: cur n)
  case Nil
  then show ?case by (subst audit_pcp_list.simps) simp
next
  case (Cons x xs)
  have x: "cur = x" "x \<noteq> PFN_NULL" "sll (next_of (mem s)) (next_of (mem s) x) xs" "distinct xs" "x \<notin> set xs" using Cons.prems by auto
  have p: "x < pfn_max s" "zi s x = zone" "migratetype s x = Some mt" "poisoned (mem s) x" "mem s x OFF_ORDER = 0"
    "x \<in> cached s" "x \<notin> free_set s"
    using Cons.prems(4) by (auto simp: pcp_page_def)
  have "not_buddy_marked s x [0..<ORDERS] = Some ()"
    using p by (intro not_buddy_marked_ok [OF sh]) (auto simp: ORDERS_def)
  moreover have "next_of (mem s) x = PFN_NULL \<or> next_of (mem s) x < pfn_max s \<and> next_of (mem s) x \<noteq> x"
  proof (cases xs)
    case (Cons y ys)
    then show ?thesis using x Cons.prems(4) by (auto simp: pcp_page_def)
  qed (use x in simp)
  moreover have "pcp_marked s x = Some True" using p by (simp add: pcp_marked_def bm_bits_def)
  ultimately show ?case
    using Cons.IH [OF x(3,4), of "Suc n"] Cons.prems(3,4) p x index_of_zi [OF sh p(1)]
    by (subst audit_pcp_list.simps) (auto simp: poisoned_def)
qed

lemma audit_pcps_ok:
  assumes L: "lists_inv s L" and slots: "\<forall>(zone, mt, cpu) \<in> set slots. cpu < MAX_CPUS"
  shows "audit_pcps s slots b =
    Some (\<lambda>z. b z + (\<Sum>(zone, mt, cpu) \<leftarrow> slots. if zone = z then length (L (cpu, zone, mt)) else 0))"
  using slots
proof (induction slots arbitrary: b)
  case (Cons k slots)
  obtain zone mt cpu where k: "k = (zone, mt, cpu)" by (metis surj_pair)
  define q where "q = (cpu, zone, mt)"
  have key: "pcp_key cpu zone mt = q" using Cons.prems by (auto simp: k pcp_key_def q_def min_def)
  have pl: "pl_ok s zone mt (pcp s q) (L q)" using lists_invD(2) [OF L] by (simp add: pcp_lists_def q_def)
  have "audit_pcp_list s zone mt (pl_count (pcp s q)) (pl_head (pcp s q)) 0 = Some (0 + length (L q))"
    using pl list_cached [OF L, of q] lists_invD(3,5) [OF L]
    by (intro audit_pcp_list_run [OF lists_invD(6,4) [OF L]]) (auto simp: pl_ok_def)
  moreover have "pl_count (pcp s q) = length (L q)" using pl by (simp add: pl_ok_def)
  ultimately show ?case using Cons by (simp add: k key fun_eq_iff add.assoc q_def [symmetric])
qed (simp add: fun_eq_iff)

lemma sum_pcp_slots:
  "(\<Sum>(zone, mt, cpu) \<leftarrow> pcp_slots. f zone mt cpu) = (\<Sum>zone<NR_ZONES. \<Sum>mt \<in> UNIV. \<Sum>cpu<MAX_CPUS. f zone mt cpu :: nat)"
proof -
  have 1: "(\<Sum>(mt, cpu) \<leftarrow> concat (map (\<lambda>mt. map (Pair mt) cs) ts). g mt cpu) = (\<Sum>mt \<leftarrow> ts. \<Sum>cpu \<leftarrow> cs. g mt cpu :: nat)"
    for ts :: "migrate_type list" and cs :: "nat list" and g
    by (induction ts) (simp_all add: o_def)
  have 2: "concat (map (\<lambda>mt. map (\<lambda>cpu. (zone, mt, cpu)) cs) ts) = map (Pair zone) (concat (map (\<lambda>mt. map (Pair mt) cs) ts))"
    for zone :: nat and ts :: "migrate_type list" and cs :: "nat list"
    by (induction ts) simp_all
  have "(\<Sum>(zone, mt, cpu) \<leftarrow> concat (map (\<lambda>zone. concat (map (\<lambda>mt. map (\<lambda>cpu. (zone, mt, cpu)) cs) ts)) zs). f zone mt cpu) =
      (\<Sum>zone \<leftarrow> zs. \<Sum>mt \<leftarrow> ts. \<Sum>cpu \<leftarrow> cs. f zone mt cpu)" for ts cs zs
    using 1 [of "f _"] unfolding 2 by (induction zs) (simp_all add: o_def)
  then show ?thesis by (simp only: pcp_slots_def sum_list_all_types sum_list_upt)
qed

lemma pcp_zone_total:
  assumes L: "lists_inv s L" and z: "z < NR_ZONES"
  shows "(\<Sum>(zone, mt, cpu) \<leftarrow> pcp_slots. if zone = z then length (L (cpu, zone, mt)) else 0) = card (in_zone s z (cached s))"
proof -
  note P = lists_invD(2) [OF L]
  define K where "K = (UNIV :: migrate_type set) \<times> {..<MAX_CPUS}"
  define at where "at = (\<lambda>(mt, cpu). L (cpu, z, mt))"
  have d: "distinct (at k)" "\<And>p. p \<in> set (at k) \<Longrightarrow> zi s p = z" for k
    using P by (auto simp: pcp_lists_def at_def pl_ok_def pcp_page_def split: prod.splits)
  have zl: "zi s p = zone" if "p \<in> set (L (cpu, zone, mt))" for p cpu zone mt
    using P that by (auto simp: pcp_lists_def pl_ok_def pcp_page_def)
  have K: "finite K" by (simp add: K_def UNIV_migrate_type)
  have un: "in_zone s z (cached s) = (\<Union>k \<in> K. set (at k))"
  proof
    show "in_zone s z (cached s) \<subseteq> (\<Union>k \<in> K. set (at k))"
    proof
      fix p assume "p \<in> in_zone s z (cached s)"
      then obtain k where "p \<in> set (L k)" "zi s p = z" unfolding in_zone_def lists_invD(3) [OF L] content_def by blast
      then obtain cpu zone mt where p: "p \<in> set (L (cpu, zone, mt))" "zi s p = z" by (metis surj_pair)
      have "zone = z" using zl [OF p(1)] p(2) by simp
      moreover have "cpu < MAX_CPUS" using pcp_listsD(2) [OF P p(1)] by simp
      ultimately show "p \<in> (\<Union>k \<in> K. set (at k))" using p by (auto simp: K_def at_def)
    qed
    show "(\<Union>k \<in> K. set (at k)) \<subseteq> in_zone s z (cached s)"
      using d(2) list_cached [OF L] by (fastforce simp: in_zone_def at_def)
  qed
  have "card (in_zone s z (cached s)) = (\<Sum>k \<in> K. card (set (at k)))"
    unfolding un
  proof (rule card_UN_disjoint [OF K])
    show "\<forall>i \<in> K. \<forall>j \<in> K. i \<noteq> j \<longrightarrow> set (at i) \<inter> set (at j) = {}"
      using P unfolding pcp_lists_def at_def by (auto split: prod.splits)
  qed simp
  also have "\<dots> = (\<Sum>mt \<in> UNIV. \<Sum>cpu<MAX_CPUS. length (L (cpu, z, mt)))"
    using d(1) by (simp add: distinct_card K_def sum.cartesian_product at_def split_def)
  also have "\<dots> = (\<Sum>zone<NR_ZONES. if zone = z then (\<Sum>mt \<in> UNIV. \<Sum>cpu<MAX_CPUS. length (L (cpu, zone, mt))) else 0)"
    using z by simp
  also have "\<dots> = (\<Sum>zone<NR_ZONES. \<Sum>mt \<in> UNIV. \<Sum>cpu<MAX_CPUS. if zone = z then length (L (cpu, zone, mt)) else 0)"
    by (intro sum.cong refl) simp
  finally show ?thesis unfolding sum_pcp_slots by simp
qed

section \<open>The whole walk\<close>

lemma zone_split: "finite A \<Longrightarrow> (\<Sum>zone<NR_ZONES. card (in_zone s zone A)) = card A"
  using sum.group [of A "{..<NR_ZONES}" "zi s" "\<lambda>_. 1 :: nat"] by (simp add: in_zone_def image_subset_iff)

lemma audit_ok:
  assumes "pmm_inv M R s"
  shows "audit s = Some ()"
proof -
  obtain L where L: "lists_inv s L" and c: "counters_inv M R s" using assms by (auto simp: pmm_inv_def pmm_ok_def)
  obtain b where b: "audit_orders s [0..<ORDERS] 0 (\<lambda>_. 0) = Some (card (free_set s), b)"
    "\<And>z. z < NR_ZONES \<Longrightarrow> b z = card (in_zone s z (free_set s))"
    using audit_orders_all [OF lists_invD(1) [OF L]] by auto
  define pz where "pz = (\<lambda>z. \<Sum>(zone, mt, cpu) \<leftarrow> pcp_slots. if zone = z then length (L (cpu, zone, mt)) else 0)"
  have a: "audit_pcps s pcp_slots (\<lambda>_. 0) = Some pz"
    by (subst audit_pcps_ok [OF L]) (auto simp: pz_def pcp_slots_def)
  have pz: "pz z = card (in_zone s z (cached s))" if "z < NR_ZONES" for z
    unfolding pz_def by (rule pcp_zone_total [OF L that])
  have tot: "sum_list (map pz [0..<NR_ZONES]) = card (cached s)"
    unfolding sum_list_upt using zone_split [OF finite_bm_bits] by (simp add: pz)
  have dis: "free_set s \<inter> cached s = {}" using lists_invD(3,5) [OF L] by simp
  have zf: "zone_free s z = card (in_zone s z (free_set s)) + card (in_zone s z (cached s))" for z
  proof -
    have "in_zone s z (avail s) = in_zone s z (free_set s) \<union> in_zone s z (cached s)" by (auto simp: in_zone_def avail_def)
    then show ?thesis using c dis finite_bm_bits [of "pcp_bitmap s"]
      by (simp add: counters_inv_def, subst card_Un_disjoint) (auto simp: in_zone_def)
  qed
  have "finite M" using c finite_subset by (auto simp: counters_inv_def)
  then have "card (free_set s) + card (cached s) \<le> card M"
    using c dis finite_bm_bits [of "pcp_bitmap s"] card_mono [of M "avail s"]
    by (simp add: counters_inv_def avail_def card_Un_disjoint) blast
  then have sub: "card (cached s) \<le> allocated s" "card (free_set s) + allocated s = initial_free s"
    using c by (auto simp: counters_inv_def)
  show ?thesis using b a pz tot zf sub c
    by (simp add: audit_def bm_popcount_card list_all_iff counters_inv_def checked_sub_def)
qed

end
