(* ===== verification/Pmm_Run.thy ===== *)
theory Pmm_Run
  imports Pmm_Audit
begin

text \<open>
  The allocator over time. A run starts from the state \<open>init_zoned\<close> builds and interleaves, in any
  order and with any executing CPU, allocations, frees of blocks that were handed out and have not
  been freed, and boot reservations. The configuration of a run is the allocator, the set of pages
  reserved so far and the set of blocks in the hands of callers.
\<close>

section \<open>Runs\<close>

record config =
  st :: pmm
  res :: "nat set"
  own :: "(nat \<times> nat) set"

text \<open>
  An allocation of a single page is served from the pagesets, which hold pages of one migration type
  only. The premise of the rule excludes the request whose refill would have to steal a page of
  another type (see \<open>foreign_refill_panics\<close>).
\<close>

inductive pmm_step :: "config \<Rightarrow> config \<Rightarrow> bool" where
  step_alloc: "alloc_gfp_args flags = Inr (hi, mt) \<Longrightarrow> order = 0 \<Longrightarrow> \<forall>z \<le> hi. no_foreign (st c) z mt \<Longrightarrow>
     alloc_gfp_nowait e (st c) order flags = Some (s', Inr p) \<Longrightarrow>
     pmm_step c (c\<lparr>st := s', own := insert (p, order) (own c)\<rparr>)"
| step_alloc_block: "0 < order \<Longrightarrow> alloc_gfp_nowait e (st c) order flags = Some (s', Inr p) \<Longrightarrow>
     pmm_step c (c\<lparr>st := s', own := insert (p, order) (own c)\<rparr>)"
| step_alloc_fail: "0 < order \<Longrightarrow> alloc_gfp_nowait e (st c) order flags = Some (s', Inl err) \<Longrightarrow> pmm_step c (c\<lparr>st := s'\<rparr>)"
| step_free: "(p, order) \<in> own c \<Longrightarrow> free_block e (st c) p order = Some s' \<Longrightarrow>
     pmm_step c (c\<lparr>st := s', own := own c - {(p, order)}\<rparr>)"
| step_reserve: "reserve_early_inner (st c) start len nosave exact = Some (s', Inr ()) \<Longrightarrow>
     pmm_step c (c\<lparr>st := s', res := res c \<union> ({start..<start + len} \<inter> free_set (st c))\<rparr>)"

inductive pmm_reach :: "nat set \<Rightarrow> config \<Rightarrow> bool" for M where
  reach_init: "init_zoned arch_default m rs limits = Some (Inr s) \<Longrightarrow> M = region_pages rs \<Longrightarrow> pmm_reach M \<lparr>st = s, res = {}, own = {}\<rparr>"
| reach_step: "pmm_reach M c \<Longrightarrow> pmm_step c c' \<Longrightarrow> pmm_reach M c'"

inductive_cases pmm_stepE: "pmm_step c c'"

definition owned_pages :: "config \<Rightarrow> nat set" where
  "owned_pages c = span_of (own c)"

definition config_inv :: "nat set \<Rightarrow> config \<Rightarrow> bool" where
  "config_inv M c \<longleftrightarrow> boot_inv M (res c) (st c) \<and> finite (own c) \<and> disjoint_blocks (own c) \<and>
     (\<forall>(p, order) \<in> own c. block_ok (st c) p order) \<and>
     avail (st c) \<union> res c \<union> owned_pages c = M \<and> avail (st c) \<inter> res c = {} \<and>
     (avail (st c) \<union> res c) \<inter> owned_pages c = {}"

section \<open>The invariant of runs\<close>

lemma boot_inv_steady: "boot_inv M R s \<Longrightarrow> steady s A s' \<Longrightarrow> pmm_inv M R s' \<Longrightarrow> boot_inv M R s'"
  using static_fields [of s' s] in_zone_cong [of s' s] zi_cong [of s' s] unfolding steady_def boot_inv_def by metis

lemma own_steady:
  assumes "\<forall>(p, order) \<in> B. block_ok s p order" and "steady s A s'" and "span_of B \<inter> A = {}"
  shows "\<forall>(p, order) \<in> B. block_ok s' p order"
  using assms block_ok_steady [OF _ assms(2)] unfolding span_of_def by fastforce

lemma config_alloc:
  assumes inv: "config_inv M c" and a: "alloc_done M (res c) (st c) order hi p s'"
  shows "config_inv M (c\<lparr>st := s', own := insert (p, order) (own c)\<rparr>)" "pages p order \<inter> owned_pages c = {}"
proof -
  have t: "pages p order \<subseteq> avail (st c)" "avail s' = avail (st c) - pages p order" "block_ok s' p order" "steady (st c) (avail (st c)) s'"
    "pmm_inv M (res c) s'" using a by (auto simp: alloc_done_def taken_def)
  note I = inv [unfolded config_inv_def]
  show dis: "pages p order \<inter> owned_pages c = {}" using I t(1) by blast
  have "\<forall>(q, o') \<in> own c. block_ok s' q o'" using I t(4) own_steady [of "own c"] unfolding owned_pages_def by blast
  moreover have "disjoint_blocks (insert (p, order) (own c))"
    using I dis disjoint_blocks_insert [of "own c" p order] by (simp add: owned_pages_def)
  moreover have "span_of (insert (p, order) (own c)) = pages p order \<union> owned_pages c" by (auto simp: owned_pages_def)
  ultimately show "config_inv M (c\<lparr>st := s', own := insert (p, order) (own c)\<rparr>)"
    using I t boot_inv_steady [of M "res c" "st c" _ s'] unfolding config_inv_def owned_pages_def by auto
qed

lemma config_free:
  assumes inv: "config_inv M c" and b: "(p, order) \<in> own c" and f: "freed M (res c) (st c) (pages p order) s'"
  shows "config_inv M (c\<lparr>st := s', own := own c - {(p, order)}\<rparr>)"
proof -
  note I = inv [unfolded config_inv_def]
  have f': "pmm_inv M (res c) s'" "avail s' = avail (st c) \<union> pages p order" "steady (st c) (avail (st c) \<union> pages p order) s'"
    using f by (auto simp: freed_def)
  have sp: "span_of (own c - {(p, order)}) = owned_pages c - pages p order"
    unfolding owned_pages_def using span_of_remove I b by metis
  have sub: "pages p order \<subseteq> owned_pages c" using b by (auto simp: owned_pages_def span_of_def)
  have "\<forall>(q, o') \<in> own c - {(p, order)}. block_ok s' q o'"
    by (rule own_steady [OF _ f'(3)]) (use I sp in auto)
  moreover have "disjoint_blocks (own c - {(p, order)})" using I disjoint_blocks_subset by blast
  ultimately show ?thesis
    using I f' sp sub boot_inv_steady [of M "res c" "st c" _ s'] unfolding config_inv_def owned_pages_def by auto
qed

lemma config_reserve:
  assumes inv: "config_inv M c" and r: "reserved_post M (res c) (st c) A s'" and A: "A \<subseteq> avail (st c)"
  shows "config_inv M (c\<lparr>st := s', res := res c \<union> A\<rparr>)"
proof -
  note I = inv [unfolded config_inv_def]
  have r': "boot_inv M (res c \<union> A) s'" "avail s' = avail (st c) - A" "pfn_max s' = pfn_max (st c)" "layout s' = layout (st c)"
    "pageblocks s' = pageblocks (st c)" using r by (auto simp: reserved_post_def)
  have "block_ok s' q o' = block_ok (st c) q o'" for q o' using r' by (simp add: block_ok_cong [of s' "st c"])
  then have "\<forall>(q, o') \<in> own c. block_ok s' q o'" using I by auto
  then show ?thesis using I r' A unfolding config_inv_def owned_pages_def by auto
qed

lemma config_pmm_inv: "config_inv M c \<Longrightarrow> pmm_inv M (res c) (st c)"
  by (simp add: config_inv_def boot_inv_def)

lemma alloc_nowait_ok:
  assumes inv: "pmm_inv M R s" and ty: "\<And>hi mt. order = 0 \<Longrightarrow> alloc_gfp_args flags = Inr (hi, mt) \<Longrightarrow> \<forall>z \<le> hi. no_foreign s z mt"
  shows "returns (alloc_gfp_nowait e s order flags) (\<lambda>(s', r). case r of
     Inl err \<Rightarrow> quiet M R s s' | Inr p \<Rightarrow> \<exists>hi mt. alloc_gfp_args flags = Inr (hi, mt) \<and> alloc_done M R s order hi p s')"
proof (cases "alloc_gfp_args flags")
  case (Inl err)
  then show ?thesis using quiet_refl [OF inv] by (simp add: alloc_gfp_nowait_def)
next
  case (Inr a)
  obtain hi mt where a: "a = (hi, mt)" by fastforce
  have "returns (alloc_inner_zoned (current_cpu e s) s order hi Low mt) (alloc_post M R s order hi)"
    using ty Inr a by (intro alloc_inner_zoned_ok [OF inv]) blast
  then show ?thesis unfolding alloc_gfp_nowait_def Inr a sum.case prod.case
    by (rule returns_mono) (auto simp: alloc_post_def split: sum.splits)
qed

lemma config_quiet:
  assumes inv: "config_inv M c" and q: "quiet M (res c) (st c) s'"
  shows "config_inv M (c\<lparr>st := s'\<rparr>)"
proof -
  note I = inv [unfolded config_inv_def]
  have q': "pmm_inv M (res c) s'" "avail s' = avail (st c)" "steady (st c) (avail (st c)) s'" using q by (auto simp: quiet_def)
  have "\<forall>(x, o') \<in> own c. block_ok s' x o'" by (rule own_steady [OF _ q'(3)]) (use I in \<open>auto simp: owned_pages_def\<close>)
  then show ?thesis using I q' boot_inv_steady [of M "res c" "st c" _ s'] unfolding config_inv_def owned_pages_def by auto
qed

lemma own_free:
  assumes inv: "config_inv M c" and b: "(p, order) \<in> own c"
  shows "returns (free_block e (st c) p order) (freed M (res c) (st c) (pages p order))"
proof -
  note I = inv [unfolded config_inv_def]
  have "pages p order \<subseteq> owned_pages c" using b by (auto simp: owned_pages_def span_of_def)
  then have "pages p order \<subseteq> M - res c" "pages p order \<inter> avail (st c) = {}" "block_ok (st c) p order" using I b by auto
  then show ?thesis by (intro free_block_ok [OF config_pmm_inv [OF inv]])
qed

lemma config_step:
  assumes "pmm_step c c'" and inv: "config_inv M c"
  shows "config_inv M c'"
  using assms(1)
proof cases
  case (step_alloc flags hi mt order e s' p)
  then show ?thesis using alloc_nowait_ok [OF config_pmm_inv [OF inv], of order flags e] config_alloc(1) [OF inv]
    by (fastforce simp: returns_def)
next
  case (step_alloc_block order e flags s' p)
  then show ?thesis using alloc_nowait_ok [OF config_pmm_inv [OF inv], of order flags e] config_alloc(1) [OF inv]
    by (fastforce simp: returns_def)
next
  case (step_alloc_fail order e flags s' err)
  then show ?thesis using alloc_nowait_ok [OF config_pmm_inv [OF inv], of order flags e] config_quiet [OF inv]
    by (fastforce simp: returns_def)
next
  case (step_free p order e s')
  then show ?thesis using own_free [OF inv step_free(2), of e] config_free [OF inv] by (simp add: returns_def)
next
  case (step_reserve start len nosave exact s')
  let ?A = "{start..<start + len} \<inter> free_set (st c)"
  have "boot_inv M (res c) (st c)" using inv by (simp add: config_inv_def)
  then have "reserved_post M (res c) (st c) ?A s'"
    using reserve_early_inner_ok [of M "res c" "st c" start len nosave exact] step_reserve(2)
    by (auto simp: returns_def split: if_splits)
  then show ?thesis using config_reserve [OF inv, of ?A s'] step_reserve(1) by (auto simp: avail_def)
qed

lemma config_init: "init_post M lay lim s \<Longrightarrow> config_inv M \<lparr>st = s, res = {}, own = {}\<rparr>"
  using boot_inv_init [of M lay lim s] by (auto simp: config_inv_def owned_pages_def disjoint_blocks_def init_post_def)

lemma reach_inv: "pmm_reach M c \<Longrightarrow> config_inv M c"
  by (induction rule: pmm_reach.induct) (use init_zoned_post config_init config_step in blast)+

end
