(* ===== verification/Pmm_Live.thy ===== *)
theory Pmm_Live
  imports Pmm_Run
begin

text \<open>
  When an allocation succeeds. The watermark gate of a single-page request counts exactly the available
  pages of the zone, and a request is served as soon as one zone of the fallback list that its flags allow
  passes the gate and has a block of the requested order or more.
\<close>

section \<open>The free pages the watermark gate sees\<close>

lemma area_pages_from_sum:
  "acc + (\<Sum>i<length ns. ns ! i * 2 ^ (o' + i)) \<le> U64_MAX \<Longrightarrow>
   area_pages_from o' acc ns = acc + (\<Sum>i<length ns. ns ! i * 2 ^ (o' + i))"
proof (induction ns arbitrary: o' acc)
  case (Cons n ns)
  have sum: "(\<Sum>i<length (n # ns). (n # ns) ! i * 2 ^ (o' + i)) = n * 2 ^ o' + (\<Sum>i<length ns. ns ! i * 2 ^ (Suc o' + i))"
    by (simp add: sum.lessThan_Suc_shift del: sum.lessThan_Suc)
  then have le: "acc + n * 2 ^ o' + (\<Sum>i<length ns. ns ! i * 2 ^ (Suc o' + i)) \<le> U64_MAX" using Cons.prems by simp
  then have b: "n * 2 ^ o' \<le> U64_MAX" "acc + n * 2 ^ o' \<le> U64_MAX" by linarith+
  then have "(n * 2 ^ o') mod 2 ^ 64 = n * 2 ^ o'" by (intro mod_less) (simp add: U64_MAX_def)
  then have "area_pages_from o' acc (n # ns) = area_pages_from (Suc o') (acc + n * 2 ^ o') ns"
    using b(2) by (simp add: saturating_add_def)
  also have "\<dots> = acc + n * 2 ^ o' + (\<Sum>i<length ns. ns ! i * 2 ^ (Suc o' + i))" by (rule Cons.IH [OF le])
  finally show ?case unfolding sum by simp
qed simp

lemma free_area_pages: "(\<Sum>i<length (free_area s zone). free_area s zone ! i * 2 ^ i) = zone_free_pages s zone"
proof -
  have "(\<Sum>i<ORDERS. (\<Sum>mt\<in>UNIV. free_count s (zone, mt, i)) * 2 ^ i) = (\<Sum>mt\<in>UNIV. \<Sum>i<ORDERS. free_count s (zone, mt, i) * 2 ^ i)"
    unfolding sum_distrib_right by (rule sum.swap)
  then show ?thesis by (simp add: free_area_def zone_free_pages_def sum_list_all_types sum_list_upt)
qed

lemma area_free_pages_order0:
  assumes inv: "pmm_inv M R s" and z: "zone < NR_ZONES"
  shows "area_free_pages (area_for s 0 zone) = card (in_zone s zone (avail s))"
proof -
  obtain L where L: "lists_inv s L" and c: "counters_inv M R s" using inv by (auto simp: pmm_inv_def pmm_ok_def)
  define a where "a = free_area s zone"
  have len: "0 < length a" by (simp add: a_def free_area_def ORDERS_def)
  have fs: "(\<Sum>i<length a. a ! i * 2 ^ i) = card (in_zone s zone (free_set s))"
    using free_area_pages [of s zone] zone_free_pages_card [OF lists_invD(1) [OF L] z] by (simp add: a_def in_zone_def)
  have dis: "free_set s \<inter> cached s = {}" using lists_invD(3,5) [OF L] by simp
  have fin: "finite (free_set s)" "finite (cached s)" using c by (auto simp: counters_inv_def avail_def intro: finite_subset)
  have "in_zone s zone (avail s) = in_zone s zone (free_set s) \<union> in_zone s zone (cached s)" by (auto simp: in_zone_def avail_def)
  moreover have "card (in_zone s zone (free_set s) \<union> in_zone s zone (cached s)) =
      card (in_zone s zone (free_set s)) + card (in_zone s zone (cached s))"
    using fin dis by (intro card_Un_disjoint) (auto simp: in_zone_def)
  ultimately have av: "card (in_zone s zone (avail s)) = card (in_zone s zone (free_set s)) + pcp_free s zone"
    using c by (simp add: counters_inv_def)
  have bound: "card (in_zone s zone (avail s)) \<le> U64_MAX" 
    using counters_bound(1) [OF c lists_invD(6) [OF L], of zone] counters_bound(3) [OF c lists_invD(6) [OF L]] c
    by (simp add: counters_inv_def)
  define b where "b = a[0 := a ! 0 + pcp_free s zone]"
  have split: "(\<Sum>i<length a. f i) = f 0 + (\<Sum>i\<in>{0<..<length a}. f i)" for f :: "nat \<Rightarrow> nat"
  proof -
    have "{..<length a} = insert 0 {0<..<length a}" using len by auto
    then show ?thesis by simp
  qed
  have "(\<Sum>i<length b. b ! i * 2 ^ (0 + i)) = card (in_zone s zone (avail s))"
    using fs av len split [of "\<lambda>i. a ! i * 2 ^ i"] split [of "\<lambda>i. b ! i * 2 ^ i"] by (simp add: b_def)
  moreover from this have "area_pages_from 0 0 b = card (in_zone s zone (avail s))" using bound area_pages_from_sum [of 0 b 0] by simp
  moreover have "area_for s 0 zone = b"
  proof -
    have "a ! 0 \<le> card (in_zone s zone (free_set s))" using fs split [of "\<lambda>i. a ! i * 2 ^ i"] by simp
    then show ?thesis using av bound by (simp add: area_for_def area_with_cached_def Let_def b_def saturating_add_def flip: a_def)
  qed
  ultimately show ?thesis by (simp add: area_free_pages_def)
qed

section \<open>When an allocation succeeds\<close>

definition servable :: "pmm \<Rightarrow> nat \<Rightarrow> nat \<Rightarrow> alloc_wmark \<Rightarrow> nat \<Rightarrow> bool" where
  "servable s order hi w zone \<longleftrightarrow> zone \<in> set (zonelist_entries (zone_list s)) \<and> zone \<le> hi \<and>
     (\<exists>z. zone_from_index zone = Some z \<and> zone_watermark_ok z order (wmark_of s zone w) w (reserve s) hi (area_for s order zone)) \<and>
     (\<exists>(q, k) \<in> blocks s. zi s q = zone \<and> order \<le> k)"

lemma take_zones_live:
  assumes inv: "buddy_inv s" and z: "zone \<in> set zones" "zone \<le> hi" "zone_from_index zone = Some z"
    and wm: "zone_watermark_ok z order (wmark_of s zone w) w (reserve s) hi (area_for s order zone)"
    and b: "(q, k) \<in> blocks s" "zi s q = zone" "order \<le> k"
  shows "\<exists>s' x. take_zones s order hi w mt zones = Some (s', Some x)"
  using z(1)
proof (induction zones)
  case (Cons y zones)
  have next_zone: "\<exists>s' x. take_zones s order hi w mt (y # zones) = Some (s', Some x)" if "zone \<in> set zones"
  proof (cases "zone_from_index y")
    case (Some u)
    obtain t r where t: "take_block s y order mt = Some (t, r)" "take_block_post s y order mt (t, r)"
      using take_block_ok [OF inv zone_from_index_less [OF Some], of order mt] by (auto simp: returns_def)
    then show ?thesis using Cons.IH [OF that] Some by (cases r) (auto simp: take_block_post_def)
  qed (use Cons.IH [OF that] in simp)
  show ?case
  proof (cases "y = zone")
    case True
    obtain t r where t: "take_block s zone order mt = Some (t, r)" "take_block_post s zone order mt (t, r)"
      using take_block_ok [OF inv zone_from_index_less [OF z(3)], of order mt] by (auto simp: returns_def)
    have "\<exists>(q, k) \<in> blocks s. zi s q = zone \<and> \<not> k < order" using b by (intro bexI [OF _ b(1)]) simp
    then have "r \<noteq> None" using t(2) unfolding take_block_post_def by (cases r) auto
    then show ?thesis using True t(1) z wm by auto
  qed (use Cons.prems next_zone in auto)
qed simp

lemma global_attempt_live:
  assumes ok: "pmm_inv M R s" and order: "order \<le> MAX_ORDER" and sv: "servable s order hi w zone"
  shows "\<exists>s' p. global_attempt s order hi w mt = Some (s', Some p)"
proof -
  obtain L where L: "pmm_ok M R s L" using ok by (auto simp: pmm_inv_def)
  then have inv: "buddy_inv s" by (simp add: pmm_ok_def lists_inv_def)
  obtain t x where t: "take_zones s order hi w mt (zonelist_entries (zone_list s)) = Some (t, Some x)"
    using sv take_zones_live [OF inv] by (fastforce simp: servable_def)
  obtain s' r where g: "global_attempt s order hi w mt = Some (s', r)"
    using global_attempt_ok [OF L order, of hi w mt] by (auto simp: returns_def)
  then have "r \<noteq> None" using t by (auto simp: global_attempt_def bind_eq_Some_conv Let_def split: prod.splits)
  then show ?thesis using g by auto
qed

lemma alloc_nowait_live:
  assumes ok: "pmm_inv M R s" and order: "order \<le> MAX_ORDER" and a: "alloc_gfp_args flags = Inr (hi, mt)"
    and nf: "order = 0 \<Longrightarrow> \<forall>z \<le> hi. no_foreign s z mt" and sv: "servable s order hi Low zone"
  shows "\<exists>s' p. alloc_gfp_nowait e s order flags = Some (s', Inr p)"
proof -
  obtain L where L: "pmm_ok M R s L" using ok by (auto simp: pmm_inv_def)
  obtain s' p where g: "global_attempt s order hi Low mt = Some (s', Some p)" using global_attempt_live [OF ok order sv] by blast
  show ?thesis
  proof (cases "order = 0")
    case True
    obtain t r where t: "alloc_from_pcp (current_cpu e s) s hi Low mt = Some (t, r)" "pcp_post M R s hi (t, r)"
      using alloc_from_pcp_ok [OF L nf [OF True], of "current_cpu e s" Low] by (auto simp: returns_def)
    then show ?thesis using True a g
      by (cases r) (auto simp: alloc_gfp_nowait_def alloc_inner_zoned_def alloc_global_def pcp_post_def)
  next
    case False
    then show ?thesis using a g order by (simp add: alloc_gfp_nowait_def alloc_inner_zoned_def alloc_global_def)
  qed
qed

lemma free_pages_card:
  assumes "pmm_inv M R s"
  shows "free_pages s = card (avail s)"
proof -
  have c: "counters_inv M R s" using assms by (auto simp: pmm_inv_def pmm_ok_def)
  then have "finite (avail s)" using finite_subset by (auto simp: counters_inv_def)
  then have "(\<Sum>z<NR_ZONES. zone_free s z) = card (avail s)" using c zone_split by (simp add: counters_inv_def)
  then show ?thesis by (simp add: free_pages_def sum_list_upt)
qed

end
