(* ===== verification/Pmm_Props.thy ===== *)
theory Pmm_Props
  imports Pmm_Live
begin

text \<open>
  The properties of the physical page allocator over its runs: boot, allocation, free, reservation, audit and
  the reclaiming slowpath.
\<close>

section \<open>An example: four pages of one zone\<close>

abbreviation ex_limits :: zone_limits where
  "ex_limits \<equiv> \<lparr>dma_end_pfn = 0, dma32_end_pfn = 0, movable_start_pfn = None\<rparr>"

lemma ex_boot:
  obtains s where "init_zoned (\<lambda>_ _. ex_limits) (\<lambda>_ _. 0) [(0, 4)] None = Some (Inr s)" "init_post {0..<4} (layout_new ex_limits 4) 4 s"
proof -
  have "returns (init_zoned (\<lambda>_ _. ex_limits) (\<lambda>_ _. 0) [(0, 4)] None) (\<lambda>r. \<exists>s. r = Inr s \<and> init_post (region_pages [(0, 4)])
      (layout_new (case None of Some l \<Rightarrow> l | None \<Rightarrow> ex_limits) 4) 4 s)"
    by (rule init_zoned_ok) (simp_all add: checked_add_def U64_MAX_def MAX_ORDER_def)
  then show thesis using that by (auto simp: returns_def)
qed

lemma ex_zi: "layout s = layout_new ex_limits 4 \<Longrightarrow> q < 4 \<Longrightarrow> zi s q = 2"
  by (simp add: zi_def index_of_def layout_new_def movable_start_def span_contains_def NR_ZONES_def Let_def)

lemma ex_entries: "zonelist_entries (zonelist_build [False, False, True, False]) = [2]"
  by (simp add: zonelist_entries_def zonelist_build_def zonelist_entry_def NR_ZONES_def zonelist_default_def numeral_eq_Suc upt_rec)

lemma ex_servable:
  assumes s: "init_post {0..<4} (layout_new ex_limits 4) 4 s"
  shows "servable s 0 2 Low 2" "\<forall>z \<le> 2. no_foreign s z Unmovable"
proof -
  have inv: "pmm_inv {0..<4} {} s" and f: "avail s = {0..<4}" "cached s = {}" "layout s = layout_new ex_limits 4" "wmark s = (\<lambda>_. zone_watermarks_default)"
    "reserve s = lowmem_reserve (map (managed s) [0..<NR_ZONES]) DEFAULT_LOWMEM_RESERVE_RATIO"
    "zone_list s = zonelist_build (map (\<lambda>z. 0 < managed s z) [0..<NR_ZONES])" "\<forall>z. managed s z = card (in_zone s z {0..<4})"
    "\<forall>q < 4. migratetype s q = Some (zone_mobility (zi s q))"
    using s by (auto simp: init_post_def)
  obtain L where L: "lists_inv s L" using inv by (auto simp: pmm_inv_def pmm_ok_def)
  have iz: "in_zone s z {0..<4} = (if z = 2 then {0..<4} else {})" for z using ex_zi [OF f(3)] by (auto simp: in_zone_def)
  have "zone_list s = zonelist_build [False, False, True, False]" by (simp add: f(6,7) iz NR_ZONES_def upt_rec)
  then have zl: "2 \<in> set (zonelist_entries (zone_list s))" by (simp add: ex_entries)
  have "area_free_pages (area_for s 0 2) = 4" using area_free_pages_order0 [OF inv, of 2] by (simp add: f(1) iz NR_ZONES_def)
  moreover have "reserve s ! 2 ! 2 = 0" by (simp add: f(5) lowmem_reserve_def reserve_row_def NR_ZONES_def nth_append)
  ultimately have wm: "zone_watermark_ok Normal 0 (wmark_of s 2 Low) Low (reserve s) 2 (area_for s 0 2)"
    by (simp add: zone_watermark_ok_def zone_watermark_ok_pages_def wmark_of_def f(4) zone_watermarks_default_def NR_ZONES_def saturating_add_def)
  have "0 \<in> free_set s" using f(1,2) by (simp add: avail_def)
  then obtain q k where b: "(q, k) \<in> blocks s" "0 \<in> pages q k" by (auto simp: span_of_def)
  then have "zi s q = 2" using ex_zi [OF f(3), of q] by (simp add: pages_def)
  then show "servable s 0 2 Low 2" using zl wm b(1) by (auto simp: servable_def zone_from_index_def)
  have "p < 4" if "(p, k) \<in> blocks s" for p k
  proof -
    have "p \<in> free_set s" using that by (force simp: span_of_def pages_def)
    then show ?thesis using f(1) by (auto simp: avail_def)
  qed
  then show "\<forall>z \<le> 2. no_foreign s z Unmovable" using f(8) ex_zi [OF f(3)] by (auto simp: no_foreign_def zone_mobility_def)
qed

lemma ex_config: "\<exists>c. pmm_reach {0..<4} c \<and> avail (st c) = {0..<4} \<and> own c = {} \<and> res c = {} \<and> pfn_max (st c) = 4 \<and>
    servable (st c) 0 2 Low 2 \<and> (\<forall>z \<le> 2. no_foreign (st c) z Unmovable)"
proof -
  obtain s where s: "init_zoned (\<lambda>_ _. ex_limits) (\<lambda>_ _. 0) [(0, 4)] None = Some (Inr s)" "init_post {0..<4} (layout_new ex_limits 4) 4 s"
    using ex_boot by blast
  have "pmm_reach {0..<4} \<lparr>st = s, res = {}, own = {}\<rparr>" by (rule reach_init [OF s(1)]) auto
  then show ?thesis using s(2) ex_servable [OF s(2)] by (intro exI [of _ "\<lparr>st = s, res = {}, own = {}\<rparr>"]) (simp add: init_post_def)
qed

lemma ex_args: "alloc_gfp_args 0 = Inr (2, Unmovable)"
  by code_simp

lemma ex_held: "\<exists>c p. pmm_reach {0..<4} c \<and> own c = {(p, 0)}"
proof -
  obtain c where c: "pmm_reach {0..<4} c" "own c = {}" "servable (st c) 0 2 Low 2" "\<forall>z \<le> 2. no_foreign (st c) z Unmovable"
    using ex_config by blast
  obtain s' p where p: "alloc_gfp_nowait (hosted_env 1) (st c) 0 0 = Some (s', Inr p)"
    using alloc_nowait_live [OF config_pmm_inv [OF reach_inv [OF c(1)]] _ ex_args _ c(3)] c(4) by blast
  have "pmm_reach {0..<4} (c\<lparr>st := s', own := insert (p, 0) (own c)\<rparr>)"
    by (rule reach_step [OF c(1) step_alloc [OF ex_args refl c(4) p]])
  then show ?thesis using c(2) by (intro exI [of _ "c\<lparr>st := s', own := insert (p, 0) (own c)\<rparr>"]) auto
qed

section \<open>Properties\<close>

text \<open>C1: boot returns an allocator for every list of non-overlapping regions below the address limit: all of their pages are
  available, none is reserved, the zone counters agree, and the audit passes. An empty list, an arithmetic overflow and an overlap are the three errors.\<close>

theorem boot_hands_over_memory:
  assumes "rs \<noteq> []" "measure_regions rs 0 0 = Some (lim, n)" "\<not> regions_overlap rs" "lim + 2 ^ MAX_ORDER \<le> U64_MAX"
  shows "\<exists>s. init_zoned arch_default m rs limits = Some (Inr s) \<and> pmm_reach (region_pages rs) \<lparr>st = s, res = {}, own = {}\<rparr> \<and>
    avail s = region_pages rs \<and> audit s = Some ()"
proof -
  obtain s lay where s: "init_zoned arch_default m rs limits = Some (Inr s)" "init_post (region_pages rs) lay lim s"
    using init_zoned_ok [OF assms, of arch_default m limits] by (auto simp: returns_def)
  have "pmm_inv (region_pages rs) {} s" "avail s = region_pages rs" using s(2) by (simp_all add: init_post_def)
  then show ?thesis using s reach_init [OF s(1) refl] audit_ok by blast
qed

theorem boot_hands_over_memory_witness:
  "\<exists>s. init_zoned (\<lambda>_ _. \<lparr>dma_end_pfn = 0, dma32_end_pfn = 0, movable_start_pfn = None\<rparr>) (\<lambda>_ _. 0) [(0, 4), (8, 2)] None = Some (Inr s) \<and>
    avail s = region_pages [(0, 4), (8, 2)]"
  using boot_hands_over_memory [of "[(0, 4), (8, 2)]" 10 6 "\<lambda>_ _. \<lparr>dma_end_pfn = 0, dma32_end_pfn = 0, movable_start_pfn = None\<rparr>" "\<lambda>_ _. 0" None]
  by (auto simp: checked_add_def U64_MAX_def MAX_ORDER_def)

text \<open>C2: in every state of every run, each managed page is available, reserved or in exactly one block that a caller holds; the
  blocks held by callers are disjoint; and the reported numbers of free and allocated pages are the sizes of these sets.\<close>

theorem pages_partitioned:
  assumes "pmm_reach M c"
  shows "M = avail (st c) \<union> res c \<union> owned_pages c \<and> avail (st c) \<inter> res c = {} \<and> avail (st c) \<inter> owned_pages c = {} \<and>
    res c \<inter> owned_pages c = {} \<and> disjoint_blocks (own c) \<and> free_pages (st c) = card (avail (st c)) \<and>
    allocated_pages (st c) = card (res c) + card (owned_pages c)"
proof -
  note I = reach_inv [OF assms, unfolded config_inv_def]
  obtain L where L: "lists_inv (st c) L" and k: "counters_inv M (res c) (st c)" using I by (auto simp: boot_inv_def pmm_inv_def pmm_ok_def)
  have fin: "finite M" using k finite_subset by (auto simp: counters_inv_def)
  then have f: "finite (avail (st c))" "finite (res c)" "finite (owned_pages c)" using I by (auto intro: finite_subset)
  have free: "free_pages (st c) = card (avail (st c))" by (rule free_pages_card [OF config_pmm_inv [OF reach_inv [OF assms]]])
  have fc: "finite (cached (st c))" "finite (free_set (st c))" using f(1) by (auto simp: avail_def)
  have dis: "free_set (st c) \<inter> cached (st c) = {}" using lists_invD(3,5) [OF L] by simp
  have "(\<Sum>z<NR_ZONES. pcp_free (st c) z) = card (cached (st c))" using k zone_split [OF fc(1)] by (simp add: counters_inv_def)
  then have cache: "cached_pages (st c) = card (cached (st c))" by (simp add: cached_pages_def sum_list_upt)
  have "card M = card (avail (st c)) + card (res c) + card (owned_pages c)"
  proof -
    have d: "avail (st c) \<inter> res c = {}" "(avail (st c) \<union> res c) \<inter> owned_pages c = {}" and m: "M = (avail (st c) \<union> res c) \<union> owned_pages c"
      using I by auto
    show ?thesis unfolding m using card_Un_disjoint [OF f(1,2) d(1)] card_Un_disjoint [OF _ f(3) d(2)] f(1,2) by simp
  qed
  moreover have "card (avail (st c)) = card (free_set (st c)) + card (cached (st c))" unfolding avail_def by (rule card_Un_disjoint [OF fc(2,1) dis])
  moreover have "allocated (st c) + card (free_set (st c)) = card M" using k by (simp add: counters_inv_def)
  ultimately have "allocated_pages (st c) = card (res c) + card (owned_pages c)" by (simp add: allocated_pages_def cache)
  then show ?thesis using I free by auto
qed

theorem pages_partitioned_witness: "\<exists>c. pmm_reach {0..<4} c \<and> free_pages (st c) = 4 \<and> allocated_pages (st c) = 0"
proof -
  obtain c where c: "pmm_reach {0..<4} c" "avail (st c) = {0..<4}" "own c = {}" "res c = {}" using ex_config by blast
  have "free_pages (st c) = 4 \<and> allocated_pages (st c) = 0" using pages_partitioned [OF c(1)] c(2-4) by (simp add: owned_pages_def)
  then show ?thesis using c(1) by blast
qed

text \<open>C3: a block that the allocator hands out was available, is aligned to its size, lies in managed memory outside the reservations,
  shares no page with a block that any caller holds, comes from a zone that the flags allow, and is filled with zeros.\<close>

theorem allocation_is_exclusive:
  assumes r: "pmm_reach M c" and a: "alloc_gfp_args flags = Inr (hi, mt)" and nf: "order = 0 \<longrightarrow> (\<forall>z \<le> hi. no_foreign (st c) z mt)"
    and p: "alloc_gfp_nowait e (st c) order flags = Some (s', Inr p)"
  shows "pages p order \<subseteq> avail (st c) \<and> 2 ^ order dvd p \<and> pages p order \<subseteq> M - res c \<and> pages p order \<inter> owned_pages c = {} \<and>
    pages p order \<inter> avail s' = {} \<and> zi (st c) p \<le> hi \<and> zeroed s' p order"
proof -
  have inv: "config_inv M c" using r by (rule reach_inv)
  have d: "alloc_done M (res c) (st c) order hi p s'"
    using alloc_nowait_ok [OF config_pmm_inv [OF inv], of order flags e] nf p a by (auto simp: returns_def)
  then have t: "pages p order \<subseteq> avail (st c)" "avail s' = avail (st c) - pages p order" "block_ok s' p order" "zi (st c) p \<le> hi" "zeroed s' p order"
    by (auto simp: alloc_done_def taken_def)
  have "pages p order \<inter> owned_pages c = {}" by (rule config_alloc(2) [OF inv d])
  moreover have "avail (st c) \<subseteq> M - res c" using config_pmm_inv [OF inv] by (auto simp: pmm_inv_def pmm_ok_def counters_inv_def)
  ultimately show ?thesis using t by (auto simp: block_ok_def)
qed

theorem allocation_is_exclusive_witness:
  "\<exists>c s' p. pmm_reach {0..<4} c \<and> alloc_gfp_nowait (hosted_env 1) (st c) 0 0 = Some (s', Inr p) \<and> p \<in> {0..<4} \<and> p \<notin> avail s'"
proof -
  obtain c where c: "pmm_reach {0..<4} c" "servable (st c) 0 2 Low 2" "\<forall>z \<le> 2. no_foreign (st c) z Unmovable" using ex_config by blast
  obtain s' p where p: "alloc_gfp_nowait (hosted_env 1) (st c) 0 0 = Some (s', Inr p)"
    using alloc_nowait_live [OF config_pmm_inv [OF reach_inv [OF c(1)]] _ ex_args _ c(2)] c(3) by blast
  then show ?thesis using allocation_is_exclusive [OF c(1) ex_args _ p] c by auto
qed



text \<open>C4: a caller can always free a block that it holds: the free returns, and the pages of the block are available again.\<close>

theorem free_makes_available:
  assumes "pmm_reach M c" "(p, order) \<in> own c"
  shows "\<exists>s'. free_block e (st c) p order = Some s' \<and> avail s' = avail (st c) \<union> pages p order \<and>
    pmm_reach M (c\<lparr>st := s', own := own c - {(p, order)}\<rparr>)"
proof -
  obtain s' where s': "free_block e (st c) p order = Some s'" "freed M (res c) (st c) (pages p order) s'"
    using own_free [OF reach_inv [OF assms(1)] assms(2), of e] by (auto simp: returns_def)
  then show ?thesis using reach_step [OF assms(1) step_free [OF assms(2) s'(1)]] by (auto simp: freed_def)
qed

theorem free_makes_available_witness:
  "\<exists>c p s'. pmm_reach {0..<4} c \<and> own c = {(p, 0)} \<and> free_block (hosted_env 1) (st c) p 0 = Some s' \<and> p \<in> avail s'"
proof -
  obtain c p where c: "pmm_reach {0..<4} c" "own c = {(p, 0)}" using ex_held by blast
  then show ?thesis using free_makes_available [OF c(1), of p 0 "hosted_env 1"] by (auto simp: pages_def)
qed

text \<open>C12: freeing a page that is already available is caught by the bitmaps, whichever list holds the page: the allocator
  stops rather than hand the page out twice.\<close>

theorem double_free_stops:
  assumes "pmm_reach M c" "p \<in> avail (st c)"
  shows "free_block e (st c) p 0 = None"
  by (rule double_free_page [OF config_pmm_inv [OF reach_inv [OF assms(1)]] assms(2)])

theorem double_free_stops_witness: "\<exists>c. pmm_reach {0..<4} c \<and> free_block (hosted_env 1) (st c) 2 0 = None"
proof -
  obtain c where c: "pmm_reach {0..<4} c" "avail (st c) = {0..<4}" using ex_config by blast
  then show ?thesis using double_free_stops [OF c(1), of 2 "hosted_env 1"] by auto
qed

text \<open>C13: a boot reservation fails without any effect when the range passes the end of memory or, if it must be exact, when a page of it is not
  free; otherwise it takes exactly the free pages of the range out of circulation. It never panics.\<close>

theorem reservation_exact:
  assumes "pmm_reach M c"
  shows "\<exists>s' r. reserve_early_inner (st c) start len nosave exact = Some (s', r) \<and>
    (if pfn_max (st c) < start + len then s' = st c \<and> r = Inl OutOfRange
     else if exact \<and> \<not> {start..<start + len} \<subseteq> free_set (st c) then s' = st c \<and> r = Inl Overlap
     else r = Inr () \<and> avail s' = avail (st c) - ({start..<start + len} \<inter> free_set (st c)) \<and>
       pmm_reach M (c\<lparr>st := s', res := res c \<union> ({start..<start + len} \<inter> free_set (st c))\<rparr>))"
proof -
  have "boot_inv M (res c) (st c)" using reach_inv [OF assms] by (simp add: config_inv_def)
  then obtain s' r where s': "reserve_early_inner (st c) start len nosave exact = Some (s', r)"
      "if pfn_max (st c) < start + len then s' = st c \<and> r = Inl OutOfRange
       else if exact \<and> \<not> {start..<start + len} \<subseteq> free_set (st c) then s' = st c \<and> r = Inl Overlap
       else r = Inr () \<and> reserved_post M (res c) (st c) ({start..<start + len} \<inter> free_set (st c)) s'"
    using reserve_early_inner_ok [of M "res c" "st c" start len nosave exact] by (auto simp: returns_def)
  then show ?thesis using reach_step [OF assms step_reserve, of start len nosave exact s'] by (auto simp: reserved_post_def)
qed

theorem reservation_exact_witness:
  "\<exists>c s'. pmm_reach {0..<4} c \<and> reserve_early_inner (st c) 3 2 False True = Some (st c, Inl OutOfRange) \<and>
    reserve_early_inner (st c) 1 2 False False = Some (s', Inr ())"
proof -
  obtain c where c: "pmm_reach {0..<4} c" "pfn_max (st c) = 4" using ex_config by blast
  then show ?thesis
    using reservation_exact [OF c(1), of 3 2 False True] reservation_exact [OF c(1), of 1 2 False False] by auto
qed

text \<open>C11: the audit that walks every list, bitmap and counter accepts every state of every run.\<close>

theorem audit_accepts_runs:
  assumes "pmm_reach M c"
  shows "audit (st c) = Some ()"
  by (rule audit_ok [OF config_pmm_inv [OF reach_inv [OF assms]]])

theorem audit_accepts_runs_witness: "\<exists>c. pmm_reach {0..<4} c \<and> audit (st c) = Some ()"
  using ex_config audit_accepts_runs by blast



end
