(* ===== verification/Pmm_Foreign.thy ===== *)
theory Pmm_Foreign
  imports Pmm_Props
begin

text \<open>
  The premise \<^const>\<open>no_foreign\<close> of the single-page theorems is needed. The last resort of \<open>take_block\<close> hands out
  a block of another migration type without retyping its pageblock; \<open>refill_current_pcp\<close> puts the page on the
  pageset of the requested type, and the check of that pageset then stops the kernel.
\<close>

section \<open>The last resort does not retype\<close>

lemma enlist_pageblocks: "enlist s zone p order mt = Some t \<Longrightarrow> pageblocks t = pageblocks s"
  by (auto simp: enlist_def push_free_def bitmap_set_def count_inc_def Let_def bind_eq_Some_conv)

lemma split_block_pageblocks: "split_block s zone p order c mt = Some t \<Longrightarrow> pageblocks t = pageblocks s"
  by (induction s zone p order c mt rule: split_block.induct)
    (auto simp: bind_eq_Some_conv enlist_pageblocks split: if_splits)

lemma take_from_order_pageblocks: "take_from_order s zone order c mt = Some (t, p) \<Longrightarrow> pageblocks t = pageblocks s"
  by (auto simp: take_from_order_def delist_head_def pop_free_def bitmap_clear_def count_dec_def Let_def bind_eq_Some_conv
      dest!: split_block_pageblocks split: if_splits)

lemma steal_loop_pageblocks: "steal_loop s zone order fbs = Some (t, r) \<Longrightarrow> pageblocks t = pageblocks s"
  by (induction fbs) (auto simp: bind_eq_Some_conv dest: take_from_order_pageblocks split: option.splits)

lemma claim_orders_none:
  "\<forall>c \<in> set orders. free_heads s (zone, fb, c) = PFN_NULL \<Longrightarrow> claim_orders s zone order requested fb orders = Some (s, None)"
  by (induction orders) auto

lemma claim_loop_none:
  "\<forall>fb c. PAGEBLOCK_ORDER \<le> c \<longrightarrow> c \<le> MAX_ORDER \<longrightarrow> free_heads s (zone, fb, c) = PFN_NULL \<Longrightarrow>
   claim_loop s zone order requested fbs = Some (s, None)"
  by (induction fbs) (auto simp: claim_fallback_def claim_orders_none)

lemma take_block_pageblocks:
  assumes inv: "buddy_inv s" "zone < NR_ZONES" and small: "\<forall>(p, k) \<in> blocks s. k < PAGEBLOCK_ORDER"
    and t: "take_block s zone order requested = Some (t, r)"
  shows "pageblocks t = pageblocks s"
proof -
  have "\<forall>fb c. PAGEBLOCK_ORDER \<le> c \<longrightarrow> c \<le> MAX_ORDER \<longrightarrow> free_heads s (zone, fb, c) = PFN_NULL"
    using head_block [OF inv] small by fastforce
  then show ?thesis using t
    by (auto simp: take_block_def claim_loop_none bind_eq_Some_conv dest: take_from_order_pageblocks steal_loop_pageblocks split: option.splits)
qed

section \<open>A refill with a page of another type\<close>

lemma cache_loop_pageblocks: "cache_loop s refill l = Some (t, l') \<Longrightarrow> pageblocks t = pageblocks s"
proof (induction "pl_count refill" arbitrary: s refill l rule: less_induct)
  case less
  note eq = less.prems [unfolded cache_loop.simps [of s refill l]]
  show ?case
  proof (cases "\<exists>refill' p. pl_pop (mem s) (pfn_max s) refill = Some (refill', Some p)")
    case True
    then obtain refill' p where pop: "pl_pop (mem s) (pfn_max s) refill = Some (refill', Some p)" by blast
    obtain u where u: "pcp_mark s p = Some u" "cache_loop (u\<lparr>mem := fst (pl_push (mem u) l p)\<rparr>) refill' (snd (pl_push (mem u) l p)) = Some (t, l')"
      using eq pop by (auto simp: bind_eq_Some_conv split_def Let_def)
    from less.hyps [OF pl_pop_count [OF pop] u(2)] show ?thesis using u(1) by (auto simp: pcp_mark_def bind_eq_Some_conv)
  next
    case False
    then show ?thesis using eq by (auto split: option.splits)
  qed
qed

lemma refill_foreign:
  assumes inv: "buddy_inv s" "zone < NR_ZONES" and small: "\<forall>(p, k) \<in> blocks s. k < PAGEBLOCK_ORDER"
    and ty: "\<forall>q < pfn_max s. migratetype s q = Some ty" "ty \<noteq> mt"
    and one: "cfg_batch (pcp_zone s zone) \<le> 1" and z: "zone_from_index zone = Some z"
    and wm: "zone_watermark_ok z 0 (wmark_of s zone w) w (reserve s) highest (area_with_cached s zone)"
    and b: "(q, k) \<in> blocks s" "zi s q = zone"
  shows "refill_current_pcp cpu s zone highest w mt = None"
proof -
  obtain t r where t: "take_block s zone 0 mt = Some (t, r)" "take_block_post s zone 0 mt (t, r)"
    using take_block_ok [OF inv, of 0 mt] by (auto simp: returns_def)
  have "\<exists>(q, k) \<in> blocks s. zi s q = zone \<and> \<not> k < 0" by (intro bexI [OF _ b(1)]) (simp add: b(2))
  then obtain p where p: "r = Some p" using t(2) unfolding take_block_post_def by (cases r) auto
  have pb: "pageblocks t = pageblocks s" by (rule take_block_pageblocks [OF inv small t(1)])
  have "p < pfn_max s"
    using t(2) p block_ok_less [of t p 0] buddy_frameD(1) [of s t] by (auto simp: take_block_post_def take_post_def)
  then have mp: "migratetype t p = Some ty" using ty(1) pb by (simp add: migratetype_def)
  define l where "l = \<lparr>pl_head = p, pl_count = 1\<rparr>"
  have "verify_poison t p = Some ()" using t(2) p by (auto simp: take_block_post_def take_post_def intro: verify_poison_ok)
  then have loop: "refill_loop (max (cfg_batch (pcp_zone s zone)) 1) s pl_empty zone highest w mt =
      Some (t\<lparr>mem := stamp_block (mem t) p 0 PFN_NULL PFN_NULL, allocated := allocated t + 1\<rparr>, l)"
    using one z wm t(1) p by (simp add: max_def pl_push_def pl_empty_def l_def)
  have check: "verify_pcp_node u p zone mt \<noteq> Some ()" if "pageblocks u = pageblocks t" for u
    using mp ty(2) that by (auto simp: verify_pcp_node_def migratetype_def kassert_def bind_eq_Some_conv)
  show ?thesis
  proof (rule ccontr)
    assume "refill_current_pcp cpu s zone highest w mt \<noteq> None"
    then obtain v x where "refill_current_pcp cpu s zone highest w mt = Some (v, x)" by auto
    then obtain t' l' where c: "cache_loop (t\<lparr>mem := stamp_block (mem t) p 0 PFN_NULL PFN_NULL, allocated := allocated t + 1\<rparr>)
        \<lparr>pl_head = next_of (stamp_block (mem t) p 0 PFN_NULL PFN_NULL) p, pl_count = 0\<rparr> (pcp t (pcp_key cpu zone mt)) = Some (t', l')"
      and v: "verify_pcp_node (t'\<lparr>pcp := (pcp t')(pcp_key cpu zone mt := l'), pcp_free := (pcp_free t')(zone := wrapping_add (pcp_free t' zone) 0),
        zone_free := (zone_free t')(zone := wrapping_sub (zone_free t' zone) 1)\<rparr>) p zone mt = Some ()"
      by (auto simp: refill_current_pcp_def loop [unfolded One_nat_def] l_def pl_pop_def bind_eq_Some_conv Let_def)
    show False using v check cache_loop_pageblocks [OF c] by simp
  qed
qed

section \<open>The smallest machine\<close>

lemma ex_movable_args: "alloc_gfp_args GFP_MOVABLE = Inr (2, Movable)"
  by code_simp

lemma ex_walk: "zonelist_walk (zonelist_build [False, False, True, False]) 2 = [Normal]"
  by code_simp

lemma ex_small:
  assumes "buddy_inv s" "pfn_max s = 4" "(p, k) \<in> blocks s"
  shows "k < PAGEBLOCK_ORDER"
proof -
  have "p + 2 ^ k \<le> 4" using buddy_invD(1) [OF assms(1,3)] assms(2) by (simp add: block_ok_def)
  then have "(2::nat) ^ k < 2 ^ 3" by simp
  then have "k < 3" by (simp only: power_strict_increasing_iff)
  then show ?thesis by (simp add: PAGEBLOCK_ORDER_def)
qed

lemma ex_foreign:
  assumes s: "init_post {0..<4} (layout_new ex_limits 4) 4 s"
  shows "alloc_from_pcp cpu s 2 Low Movable = None"
proof -
  have inv: "pmm_inv {0..<4} {} s" and f: "avail s = {0..<4}" "layout s = layout_new ex_limits 4" "wmark s = (\<lambda>_. zone_watermarks_default)"
    "reserve s = lowmem_reserve (map (managed s) [0..<NR_ZONES]) DEFAULT_LOWMEM_RESERVE_RATIO"
    "zone_list s = zonelist_build (map (\<lambda>z. 0 < managed s z) [0..<NR_ZONES])" "\<forall>z. managed s z = card (in_zone s z {0..<4})"
    "\<forall>q < 4. migratetype s q = Some (zone_mobility (zi s q))" "pcp s = (\<lambda>_. pl_empty)" "pfn_max s = 4"
    "\<forall>z < NR_ZONES. pcp_zone s z = cfg_new (wmark s z) (reserve s ! z) (managed s z)"
    using s by (auto simp: init_post_def)
  obtain L where L: "lists_inv s L" and c: "counters_inv {0..<4} {} s" using inv by (auto simp: pmm_inv_def pmm_ok_def)
  note bi = lists_invD(1) [OF L]
  have iz: "in_zone s z {0..<4} = (if z = 2 then {0..<4} else {})" for z using ex_zi [OF f(2)] by (auto simp: in_zone_def)
  have zl: "zone_list s = zonelist_build [False, False, True, False]" by (simp add: f(5,6) iz NR_ZONES_def upt_rec)
  have res: "reserve s ! 2 ! 2 = 0" by (simp add: f(4) lowmem_reserve_def reserve_row_def NR_ZONES_def nth_append)
  have cfg: "pcp_zone s 2 = cfg_new zone_watermarks_default (reserve s ! 2) 4" using f(3,6,10) iz [of 2] by (simp add: NR_ZONES_def)
  have zf: "zone_free s 2 = 4" using c by (simp add: counters_inv_def f(1) iz)
  have gate: "pcp_watermark_ok s 2 2 Low"
    by (simp add: pcp_watermark_ok_def zone_watermark_ok_pages_def cfg cfg_new_def cfg_mark_def cfg_reserve_for_def res zf
        zone_watermarks_default_def saturating_add_def NR_ZONES_def)
  have sv: "servable s 0 2 Low 2" by (rule ex_servable(1) [OF s])
  then obtain q k where b: "(q, k) \<in> blocks s" "zi s q = 2"
    and wm: "zone_watermark_ok Normal 0 (wmark_of s 2 Low) Low (reserve s) 2 (area_with_cached s 2)"
    by (auto simp: servable_def zone_from_index_def area_for_def)
  have "refill_current_pcp cpu s 2 2 Low Movable = None"
  proof (rule refill_foreign [OF bi _ _ _ _ _ _ wm b, where ty = Unmovable])
    show "\<forall>(p, k) \<in> blocks s. k < PAGEBLOCK_ORDER" using ex_small [OF bi f(9)] by auto
    show "\<forall>q < pfn_max s. migratetype s q = Some Unmovable" using f(7,9) ex_zi [OF f(2)] by (simp add: zone_mobility_def)
  qed (simp_all add: NR_ZONES_def cfg cfg_new_def batch_pages_def Let_def zone_from_index_def)
  then show ?thesis
    by (simp add: alloc_from_pcp_def zl ex_walk gate pop_current_pcp_def f(8) pl_pop_def pl_empty_def Let_def)
qed

text \<open>C14: a movable request for one page stops the kernel on a machine with four pages and no movable zone, although all four pages are
  free and the watermarks allow it: the refill takes an unmovable page, leaves its pageblock unmovable, and the check of the pageset it is
  put on fails. The unmovable request succeeds in the same state.\<close>

theorem foreign_refill_panics:
  "\<exists>c. pmm_reach {0..<4} c \<and> free_pages (st c) = 4 \<and> alloc_gfp_nowait e (st c) 0 GFP_MOVABLE = None \<and>
     (\<exists>s' p. alloc_gfp_nowait e (st c) 0 0 = Some (s', Inr p))"
proof -
  obtain s where s: "init_zoned (\<lambda>_ _. ex_limits) (\<lambda>_ _. 0) [(0, 4)] None = Some (Inr s)" "init_post {0..<4} (layout_new ex_limits 4) 4 s"
    using ex_boot by blast
  define c where "c = \<lparr>st = s, res = {}, own = {}\<rparr>"
  have r: "pmm_reach {0..<4} c" unfolding c_def by (rule reach_init [OF s(1)]) auto
  have av: "pmm_inv {0..<4} {} s" "avail s = {0..<4}" using s(2) by (simp_all add: init_post_def)
  have "free_pages s = 4" using free_pages_card [OF av(1)] av(2) by simp
  moreover have "alloc_gfp_nowait e s 0 GFP_MOVABLE = None"
    by (simp add: alloc_gfp_nowait_def ex_movable_args alloc_inner_zoned_def ex_foreign [OF s(2)])
  moreover have "\<exists>s' p. alloc_gfp_nowait e s 0 0 = Some (s', Inr p)"
    using alloc_nowait_live [OF av(1) _ ex_args _ ex_servable(1) [OF s(2)]] ex_servable(2) [OF s(2)] by blast
  ultimately show ?thesis using r by (intro exI [of _ c]) (simp add: c_def)
qed

end
