(* ===== verification/Idmap.thy ===== *)
theory Idmap
  imports Prelude
begin

text \<open>
  User-namespace id maps (\<open>user-namespace/src/uapi.rs\<close>, \<open>extent.rs\<close>, \<open>translate.rs\<close>): the extents
  of a \<open>uid_map\<close>, \<open>gid_map\<close> or \<open>projid_map\<close>, their validation, and the translation of ids in both
  directions. Ids are 32-bit words, and the additions of the translation wrap as the release build
  does; that they never do so on a validated map is part of the theorems.
\<close>

section \<open>32-bit arithmetic\<close>

type_synonym u32 = "32 word"

definition checked_sub32 :: "u32 \<Rightarrow> u32 \<Rightarrow> u32 option" where
  "checked_sub32 a b = (if b \<le> a then Some (a - b) else None)"

definition checked_add32 :: "u32 \<Rightarrow> u32 \<Rightarrow> u32 option" where
  "checked_add32 a b = (if unat a + unat b < 2 ^ 32 then Some (a + b) else None)"

section \<open>Extents\<close>

definition UID_GID_MAP_MAX_EXTENTS :: nat where "UID_GID_MAP_MAX_EXTENTS = 340"
definition INVALID_ID :: u32 where "INVALID_ID = - 1"
definition OVERFLOW_UID :: u32 where "OVERFLOW_UID = 65534"
definition OVERFLOW_GID :: u32 where "OVERFLOW_GID = 65534"
definition OVERFLOW_PROJID :: u32 where "OVERFLOW_PROJID = 65534"
definition INITIAL_NS_ID :: u32 where "INITIAL_NS_ID = 0"
definition INITIAL_HOST_ID :: u32 where "INITIAL_HOST_ID = 0"
definition INITIAL_COUNT :: u32 where "INITIAL_COUNT = - 1"

record extent =
  ext_ns_id :: u32
  ext_host_id :: u32
  ext_count :: u32

definition ns_last :: "extent \<Rightarrow> u32 option" where
  "ns_last e = do { c \<leftarrow> checked_sub32 (ext_count e) 1; checked_add32 (ext_ns_id e) c }"

definition host_last :: "extent \<Rightarrow> u32 option" where
  "host_last e = do { c \<leftarrow> checked_sub32 (ext_count e) 1; checked_add32 (ext_host_id e) c }"

datatype extent_error = ExtEmpty | ExtTooMany | ExtZeroCount | ExtRangeOverflow | ExtOverlap

definition ranges_intersect :: "u32 \<Rightarrow> u32 \<Rightarrow> u32 \<Rightarrow> u32 \<Rightarrow> bool" where
  "ranges_intersect a_first a_last b_first b_last \<longleftrightarrow> a_first \<le> b_last \<and> b_first \<le> a_last"

definition overlaps_committed :: "extent \<Rightarrow> u32 \<Rightarrow> u32 \<Rightarrow> (u32 \<times> u32 \<times> u32 \<times> u32) list \<Rightarrow> bool" where
  "overlaps_committed e nl hl committed \<longleftrightarrow>
     list_ex (\<lambda>(nf, nl', hf, hl').
       ranges_intersect (ext_ns_id e) nl nf nl' \<or> ranges_intersect (ext_host_id e) hl hf hl') committed"

fun validate_loop :: "(u32 \<times> u32 \<times> u32 \<times> u32) list \<Rightarrow> extent list \<Rightarrow> extent_error + unit" where
  "validate_loop committed [] = Inr ()"
| "validate_loop committed (e # es) =
     (if ext_count e = 0 then Inl ExtZeroCount
      else case ns_last e of
        None \<Rightarrow> Inl ExtRangeOverflow
      | Some nl \<Rightarrow>
          (case host_last e of
             None \<Rightarrow> Inl ExtRangeOverflow
           | Some hl \<Rightarrow>
               if overlaps_committed e nl hl committed then Inl ExtOverlap
               else validate_loop (committed @ [(ext_ns_id e, nl, ext_host_id e, hl)]) es))"

definition validate_extents :: "extent list \<Rightarrow> extent_error + unit" where
  "validate_extents es =
     (if es = [] then Inl ExtEmpty
      else if length es > UID_GID_MAP_MAX_EXTENTS then Inl ExtTooMany
      else validate_loop [] es)"

section \<open>Translation\<close>

datatype overflow_id = OverflowUid | OverflowGid | OverflowProjid

fun overflow_value :: "overflow_id \<Rightarrow> u32" where
  "overflow_value OverflowUid = OVERFLOW_UID"
| "overflow_value OverflowGid = OVERFLOW_GID"
| "overflow_value OverflowProjid = OVERFLOW_PROJID"

fun to_host :: "extent list \<Rightarrow> u32 \<Rightarrow> overflow_id \<Rightarrow> u32" where
  "to_host [] x ov = overflow_value ov"
| "to_host (e # es) x ov =
     (case checked_sub32 x (ext_ns_id e) of
        None \<Rightarrow> to_host es x ov
      | Some off \<Rightarrow> if off < ext_count e then ext_host_id e + off else to_host es x ov)"

fun to_ns :: "extent list \<Rightarrow> u32 \<Rightarrow> overflow_id \<Rightarrow> u32" where
  "to_ns [] x ov = overflow_value ov"
| "to_ns (e # es) x ov =
     (case checked_sub32 x (ext_host_id e) of
        None \<Rightarrow> to_ns es x ov
      | Some off \<Rightarrow> if off < ext_count e then ext_ns_id e + off else to_ns es x ov)"

definition has_mapping :: "extent list \<Rightarrow> u32 \<Rightarrow> bool" where
  "has_mapping es x \<longleftrightarrow>
     list_ex (\<lambda>e. case checked_sub32 x (ext_host_id e) of None \<Rightarrow> False | Some off \<Rightarrow> off < ext_count e) es"

fun to_ns_checked :: "extent list \<Rightarrow> u32 \<Rightarrow> u32 option" where
  "to_ns_checked [] x = None"
| "to_ns_checked (e # es) x =
     (case do { off \<leftarrow> checked_sub32 x (ext_host_id e); if off < ext_count e then Some (ext_ns_id e + off) else None } of
        Some y \<Rightarrow> Some y
      | None \<Rightarrow> to_ns_checked es x)"

fun to_host_checked :: "extent list \<Rightarrow> u32 \<Rightarrow> u32 option" where
  "to_host_checked [] x = None"
| "to_host_checked (e # es) x =
     (case do { off \<leftarrow> checked_sub32 x (ext_ns_id e); if off < ext_count e then Some (ext_host_id e + off) else None } of
        Some y \<Rightarrow> Some y
      | None \<Rightarrow> to_host_checked es x)"

section \<open>Validated maps\<close>

text \<open>\<open>first\<close> is one of the two id spaces of an extent.\<close>

definition covers :: "(extent \<Rightarrow> u32) \<Rightarrow> extent \<Rightarrow> u32 \<Rightarrow> bool" where
  "covers first e x \<longleftrightarrow> unat (first e) \<le> unat x \<and> unat x < unat (first e) + unat (ext_count e)"

definition fits :: "(extent \<Rightarrow> u32) \<Rightarrow> extent \<Rightarrow> bool" where
  "fits first e \<longleftrightarrow> unat (first e) + unat (ext_count e) \<le> 2 ^ 32"

definition apart :: "(extent \<Rightarrow> u32) \<Rightarrow> extent \<Rightarrow> extent \<Rightarrow> bool" where
  "apart first e e' \<longleftrightarrow> (\<forall>x. \<not> (covers first e x \<and> covers first e' x))"

definition valid_map :: "extent list \<Rightarrow> bool" where
  "valid_map es \<longleftrightarrow>
     (\<forall>e\<in>set es. ext_count e \<noteq> 0 \<and> fits ext_ns_id e \<and> fits ext_host_id e) \<and>
     sorted_wrt (apart ext_ns_id) es \<and> sorted_wrt (apart ext_host_id) es"

lemma covers_offset: "covers first e x \<longleftrightarrow> first e \<le> x \<and> x - first e < ext_count e"
  by (auto simp: covers_def word_le_nat_alt word_less_nat_alt unat_sub)

lemma add_no_wrap: "unat (a :: u32) + unat b < 2 ^ 32 \<Longrightarrow> unat (a + b) = unat a + unat b"
  using unat_add_lem [of a b] by simp

lemma last_iff:
  assumes "ext_count e \<noteq> 0"
  shows "(do { c \<leftarrow> checked_sub32 (ext_count e) 1; checked_add32 (first e) c }) =
    (if fits first e then Some (first e + (ext_count e - 1)) else None)"
proof -
  have one: "1 \<le> ext_count e" using assms by (simp add: word_le_nat_alt unat_gt_0 Suc_leI)
  then have "unat (ext_count e - 1) = unat (ext_count e) - 1" by (simp add: unat_sub)
  moreover have "0 < unat (ext_count e)" using assms by (simp add: unat_gt_0)
  ultimately show ?thesis using one by (auto simp: checked_sub32_def checked_add32_def fits_def)
qed

lemma intersect_apart:
  assumes e: "ext_count e \<noteq> 0" "fits first e" and e': "ext_count e' \<noteq> 0" "fits first e'"
  shows "ranges_intersect (first e) (first e + (ext_count e - 1)) (first e') (first e' + (ext_count e' - 1)) \<longleftrightarrow> \<not> apart first e e'"
proof -
  have last: "unat (first d + (ext_count d - 1)) = unat (first d) + unat (ext_count d) - 1" "0 < unat (ext_count d)"
    if d: "ext_count d \<noteq> 0" "fits first d" for d
  proof -
    show pos: "0 < unat (ext_count d)" using d by (simp add: unat_gt_0)
    then have "unat (ext_count d - 1) = unat (ext_count d) - 1" by (simp add: unat_sub word_le_nat_alt)
    then show "unat (first d + (ext_count d - 1)) = unat (first d) + unat (ext_count d) - 1"
      using add_no_wrap [of "first d" "ext_count d - 1"] d(2) pos by (simp add: fits_def)
  qed
  note L = last [OF e] last [OF e']
  have "\<not> apart first e e'" if r: "unat (first e) \<le> unat (first e') + unat (ext_count e') - 1" "unat (first e') \<le> unat (first e) + unat (ext_count e) - 1"
  proof -
    have "covers first e (max (first e) (first e')) \<and> covers first e' (max (first e) (first e'))"
      using r L by (auto simp: covers_def max_def word_le_nat_alt)
    then show ?thesis by (auto simp: apart_def)
  qed
  then show ?thesis using L by (auto simp: ranges_intersect_def word_le_nat_alt apart_def covers_def)
qed

definition bounds_of :: "extent \<Rightarrow> u32 \<times> u32 \<times> u32 \<times> u32" where
  "bounds_of e = (ext_ns_id e, ext_ns_id e + (ext_count e - 1), ext_host_id e, ext_host_id e + (ext_count e - 1))"

definition sound_extent :: "extent \<Rightarrow> bool" where
  "sound_extent e \<longleftrightarrow> ext_count e \<noteq> 0 \<and> fits ext_ns_id e \<and> fits ext_host_id e"

lemma overlaps_iff:
  assumes "sound_extent e" and "\<forall>d\<in>set ds. sound_extent d"
  shows "overlaps_committed e (ext_ns_id e + (ext_count e - 1)) (ext_host_id e + (ext_count e - 1)) (map bounds_of ds) \<longleftrightarrow>
    \<not> (\<forall>d\<in>set ds. apart ext_ns_id d e \<and> apart ext_host_id d e)"
proof -
  have sym: "apart first d e \<longleftrightarrow> apart first e d" for first d by (auto simp: apart_def)
  show ?thesis using assms
    by (auto simp: overlaps_committed_def list_ex_iff bounds_of_def intersect_apart sound_extent_def sym)
qed

lemma validate_loop_iff:
  assumes "\<forall>d\<in>set ds. sound_extent d"
  shows "validate_loop (map bounds_of ds) es = Inr () \<longleftrightarrow>
    (\<forall>e\<in>set es. sound_extent e \<and> (\<forall>d\<in>set ds. apart ext_ns_id d e \<and> apart ext_host_id d e)) \<and>
    sorted_wrt (apart ext_ns_id) es \<and> sorted_wrt (apart ext_host_id) es"
  using assms
proof (induction es arbitrary: ds)
  case Nil
  then show ?case by simp
next
  case (Cons e es)
  show ?case
  proof (cases "sound_extent e")
    case False
    then have "validate_loop (map bounds_of ds) (e # es) \<noteq> Inr ()"
      by (auto simp: sound_extent_def ns_last_def host_last_def last_iff)
    then show ?thesis using False by simp
  next
    case True
    have step: "validate_loop (map bounds_of ds) (e # es) =
      (if \<forall>d\<in>set ds. apart ext_ns_id d e \<and> apart ext_host_id d e then validate_loop (map bounds_of (ds @ [e])) es else Inl ExtOverlap)"
      using True overlaps_iff [OF True Cons.prems] by (simp add: sound_extent_def ns_last_def host_last_def last_iff bounds_of_def)
    have "\<forall>d\<in>set (ds @ [e]). sound_extent d" using True Cons.prems by auto
    note IH = Cons.IH [OF this]
    show ?thesis using True unfolding step by (auto simp: IH simp del: map_append)
  qed
qed

lemma validate_extents_Inr:
  "validate_extents es = Inr () \<longleftrightarrow> es \<noteq> [] \<and> length es \<le> UID_GID_MAP_MAX_EXTENTS \<and> valid_map es"
  using validate_loop_iff [of "[]" es] by (auto simp: validate_extents_def valid_map_def sound_extent_def)

definition id_range :: "(extent \<Rightarrow> u32) \<Rightarrow> extent \<Rightarrow> nat set" where
  "id_range first e = {unat (first e)..<unat (first e) + unat (ext_count e)}"

lemma apart_range:
  assumes "fits first d"
  shows "apart first d e \<longleftrightarrow> id_range first d \<inter> id_range first e = {}"
proof
  assume a: "apart first d e"
  have False if i: "i \<in> id_range first d" "i \<in> id_range first e" for i
  proof -
    have "unat (of_nat i :: u32) = i" using i(1) assms by (simp add: id_range_def fits_def unat_of_nat)
    then show False using a i by (auto simp: apart_def covers_def id_range_def dest: spec [of _ "of_nat i"])
  qed
  then show "id_range first d \<inter> id_range first e = {}" by blast
next
  assume "id_range first d \<inter> id_range first e = {}"
  then show "apart first d e" unfolding apart_def covers_def id_range_def by (metis IntI atLeastLessThan_iff empty_iff)
qed

lemma sorted_apart_range:
  assumes "\<forall>e\<in>set es. fits first e"
  shows "sorted_wrt (apart first) es \<longleftrightarrow> sorted_wrt (\<lambda>d e. id_range first d \<inter> id_range first e = {}) es"
  using assms by (induction es) (auto simp: apart_range)

section \<open>Translation in one direction and its inverse\<close>

locale id_direction =
  fixes src dst :: "extent \<Rightarrow> u32" and xlate :: "extent list \<Rightarrow> u32 \<Rightarrow> u32 option"
  assumes xlate_Nil: "xlate [] x = None"
    and xlate_Cons: "xlate (e # es) x = (if covers src e x then Some (dst e + (x - src e)) else xlate es x)"
begin

lemma xlate_None: "xlate es x = None \<longleftrightarrow> (\<forall>e\<in>set es. \<not> covers src e x)"
  by (induction es) (auto simp: xlate_Nil xlate_Cons)

lemma xlate_unat:
  assumes "covers src e x" and "fits dst e"
  shows "unat (dst e + (x - src e)) = unat (dst e) + (unat x - unat (src e))"
proof -
  have "unat (x - src e) = unat x - unat (src e)" using assms by (simp add: covers_def unat_sub word_le_nat_alt)
  moreover have "unat (dst e) + (unat x - unat (src e)) < 2 ^ 32" using assms unfolding covers_def fits_def by linarith
  ultimately show ?thesis using add_no_wrap [of "dst e" "x - src e"] by presburger
qed

lemma xlate_Some:
  assumes "sorted_wrt (apart src) es"
  shows "xlate es x = Some y \<longleftrightarrow> (\<exists>e\<in>set es. covers src e x \<and> y = dst e + (x - src e))"
  using assms by (induction es) (auto simp: xlate_Nil xlate_Cons apart_def)

end

locale id_inverse = fwd: id_direction src dst f + bwd: id_direction dst src g
  for src dst :: "extent \<Rightarrow> u32" and f g :: "extent list \<Rightarrow> u32 \<Rightarrow> u32 option"
begin

lemma inverse_covers:
  assumes c: "covers src e x" and "fits src e" "fits dst e"
  shows "covers dst e (dst e + (x - src e)) \<and> src e + ((dst e + (x - src e)) - dst e) = x"
proof
  note u = fwd.xlate_unat [OF c assms(3)]
  then show "covers dst e (dst e + (x - src e))" using c unfolding covers_def by linarith
  show "src e + ((dst e + (x - src e)) - dst e) = x" by simp
qed

lemma f_g:
  assumes f: "f es x = Some y" and disj: "sorted_wrt (apart src) es" "sorted_wrt (apart dst) es"
    and fit: "\<forall>e\<in>set es. fits src e \<and> fits dst e"
  shows "g es y = Some x"
proof -
  obtain e where e: "e \<in> set es" "covers src e x" "y = dst e + (x - src e)" using f fwd.xlate_Some [OF disj(1)] by blast
  then have "covers dst e y \<and> x = src e + (y - dst e)" using inverse_covers [OF e(2)] fit by simp
  then show ?thesis using e(1) bwd.xlate_Some [OF disj(2)] by blast
qed

end

lemma to_host_checked_Cons:
  "to_host_checked (e # es) x = (if covers ext_ns_id e x then Some (ext_host_id e + (x - ext_ns_id e)) else to_host_checked es x)"
  by (simp add: checked_sub32_def covers_offset)

lemma to_ns_checked_Cons:
  "to_ns_checked (e # es) x = (if covers ext_host_id e x then Some (ext_ns_id e + (x - ext_host_id e)) else to_ns_checked es x)"
  by (simp add: checked_sub32_def covers_offset)

interpretation inward: id_inverse ext_ns_id ext_host_id to_host_checked to_ns_checked
  by unfold_locales (simp_all only: to_host_checked.simps(1) to_ns_checked.simps(1) to_host_checked_Cons to_ns_checked_Cons)

interpretation outward: id_inverse ext_host_id ext_ns_id to_ns_checked to_host_checked
  by unfold_locales

lemma to_host_munged: "to_host es x ov = (case to_host_checked es x of Some y \<Rightarrow> y | None \<Rightarrow> overflow_value ov)"
  by (induction es) (auto simp: checked_sub32_def)

lemma to_ns_munged: "to_ns es x ov = (case to_ns_checked es x of Some y \<Rightarrow> y | None \<Rightarrow> overflow_value ov)"
  by (induction es) (auto simp: checked_sub32_def)

lemma has_mapping_iff: "has_mapping es x \<longleftrightarrow> to_ns_checked es x \<noteq> None"
  unfolding inward.bwd.xlate_None by (auto simp: has_mapping_def list_ex_iff covers_offset checked_sub32_def split: if_splits)

lemma valid_map_inverse: "valid_map es \<Longrightarrow> to_host_checked es x = Some y \<longleftrightarrow> to_ns_checked es y = Some x"
  using inward.f_g [of es x y] outward.f_g [of es y x] unfolding valid_map_def by blast

section \<open>Properties\<close>

definition sample_map :: "extent list" where
  "sample_map = [\<lparr>ext_ns_id = 0, ext_host_id = 100000, ext_count = 10\<rparr>, \<lparr>ext_ns_id = 1000, ext_host_id = 0, ext_count = 1\<rparr>]"

text \<open>C31: \<open>validate_extents\<close> accepts a batch exactly when it has between 1 and 340 extents, every extent is
  non-empty and stays inside the 32-bit id space on both sides, and no id of either space is covered
  by two extents.\<close>

theorem validate_extents_exact:
  "validate_extents es = Inr () \<longleftrightarrow>
     0 < length es \<and> length es \<le> 340 \<and>
     list_all (\<lambda>e. 0 < unat (ext_count e) \<and> unat (ext_ns_id e) + unat (ext_count e) \<le> 2 ^ 32 \<and>
                unat (ext_host_id e) + unat (ext_count e) \<le> 2 ^ 32) es \<and>
     sorted_wrt (\<lambda>d e. id_range ext_ns_id d \<inter> id_range ext_ns_id e = {}) es \<and>
     sorted_wrt (\<lambda>d e. id_range ext_host_id d \<inter> id_range ext_host_id e = {}) es"
proof -
  have sound: "list_all (\<lambda>e. 0 < unat (ext_count e) \<and> unat (ext_ns_id e) + unat (ext_count e) \<le> 2 ^ 32 \<and>
                unat (ext_host_id e) + unat (ext_count e) \<le> 2 ^ 32) es \<longleftrightarrow>
      (\<forall>e\<in>set es. ext_count e \<noteq> 0 \<and> fits ext_ns_id e \<and> fits ext_host_id e)"
    by (auto simp: list_all_iff fits_def unat_gt_0)
  show ?thesis
    unfolding validate_extents_Inr sound valid_map_def UID_GID_MAP_MAX_EXTENTS_def
    using sorted_apart_range [of es ext_ns_id] sorted_apart_range [of es ext_host_id] by auto
qed

text \<open>C32: on a map that passed validation the two translations are inverse to each other, neither wraps
  around, the munging translations agree with the checked ones on mapped ids and return the
  overflow id otherwise, and \<open>has_mapping\<close> tells the two cases apart.\<close>

theorem idmap_roundtrip:
  assumes "validate_extents es = Inr ()"
  shows "(to_host_checked es x = Some y \<longleftrightarrow> to_ns_checked es y = Some x) \<and>
     (to_host_checked es x = Some y \<longrightarrow> to_host es x ov = y \<and> to_ns es y ov = x \<and> has_mapping es y) \<and>
     (to_host_checked es x = None \<longrightarrow> to_host es x ov = overflow_value ov) \<and>
     (\<not> has_mapping es y \<longrightarrow> to_ns es y ov = overflow_value ov) \<and>
     (to_host_checked es x = Some y \<longleftrightarrow>
        (\<exists>e\<in>set es. unat (ext_ns_id e) \<le> unat x \<and> unat x < unat (ext_ns_id e) + unat (ext_count e) \<and>
           unat y = unat (ext_host_id e) + (unat x - unat (ext_ns_id e))))"
proof -
  have v: "valid_map es" using assms by (simp add: validate_extents_Inr)
  note inv = valid_map_inverse [OF v]
  have "to_host_checked es x = Some y \<longleftrightarrow>
        (\<exists>e\<in>set es. covers ext_ns_id e x \<and> unat y = unat (ext_host_id e) + (unat x - unat (ext_ns_id e)))"
    using v inward.fwd.xlate_Some [of es x y] inward.fwd.xlate_unat [of _ x]
    by (auto simp: valid_map_def word_unat_eq_iff)
  then show ?thesis using inv [of x y] by (auto simp: to_host_munged to_ns_munged has_mapping_iff covers_def)
qed

theorem idmap_roundtrip_witness:
  "validate_extents sample_map = Inr () \<and> to_host_checked sample_map 5 = Some 100005 \<and> to_ns_checked sample_map 100005 = Some 5"
proof -
  have v: "validate_extents sample_map = Inr ()"
    by (simp add: sample_map_def validate_extents_def UID_GID_MAP_MAX_EXTENTS_def ns_last_def host_last_def checked_sub32_def
        checked_add32_def overlaps_committed_def ranges_intersect_def)
  moreover have "to_host_checked sample_map 5 = Some 100005" by (simp add: sample_map_def checked_sub32_def)
  ultimately show ?thesis using idmap_roundtrip [OF v, of 5 100005] by blast
qed

end
