(* ===== verification/Pid_Numbers.thy ===== *)
theory Pid_Numbers
  imports Prelude
begin

text \<open>
  The number space of a PID namespace (\<open>namespace-identity/src/pid_numbers.rs\<close>): cyclic allocation
  from a cursor, exact reservation, release, and the movable ceiling \<open>pid_max\<close>. A \<open>u32\<close> is a
  \<^typ>\<open>nat\<close>; no sum here reaches \<open>2 ^ 32\<close> because every number is below \<open>PID_MAX_LIMIT\<close>.
\<close>

section \<open>The number space\<close>

datatype namespace_kind = Cgroup | Ipc | Mnt | Net | Pid | Time | User | Uts

definition PID_MAX_DEFAULT :: nat where "PID_MAX_DEFAULT = 32768"
definition PID_MAX_LIMIT :: nat where "PID_MAX_LIMIT = 4194304"
definition RESERVED_PIDS :: nat where "RESERVED_PIDS = 300"
definition INITIAL_TASK_NR :: nat where "INITIAL_TASK_NR = 1"

lemmas pid_constants = PID_MAX_DEFAULT_def PID_MAX_LIMIT_def RESERVED_PIDS_def INITIAL_TASK_NR_def

datatype pid_number_error = NotPidNamespace | PidOutOfRange | PidInUse | PidExhausted

record pid_state =
  cursor :: nat
  max_nr :: nat
  used :: "nat set"

type_synonym pid_space = "pid_state option"

definition pid_for_kind :: "namespace_kind \<Rightarrow> bool \<Rightarrow> pid_space" where
  "pid_for_kind kind initial =
     (if kind \<noteq> Pid then None
      else if initial then Some \<lparr>cursor = INITIAL_TASK_NR + 1, max_nr = PID_MAX_DEFAULT, used = {INITIAL_TASK_NR}\<rparr>
      else Some \<lparr>cursor = INITIAL_TASK_NR, max_nr = PID_MAX_DEFAULT, used = {}\<rparr>)"

definition pid_max_of :: "pid_space \<Rightarrow> pid_number_error + nat" where
  "pid_max_of sp = (case sp of None \<Rightarrow> Inl NotPidNamespace | Some st \<Rightarrow> Inr (max_nr st))"

definition pid_set_max :: "pid_space \<Rightarrow> nat \<Rightarrow> pid_number_error + pid_space" where
  "pid_set_max sp m =
     (if m = 0 \<or> m > PID_MAX_LIMIT then Inl PidOutOfRange
      else case sp of None \<Rightarrow> Inl NotPidNamespace | Some st \<Rightarrow> Inr (Some (st\<lparr>max_nr := m\<rparr>)))"

definition pid_scan :: "pid_state \<Rightarrow> nat \<Rightarrow> nat \<Rightarrow> nat option" where
  "pid_scan st start lo =
     (case List.find (\<lambda>nr. nr \<notin> used st) [start..<max_nr st] of
        Some nr \<Rightarrow> Some nr
      | None \<Rightarrow> List.find (\<lambda>nr. nr \<notin> used st) [lo..<start])"

definition pid_floor :: "pid_state \<Rightarrow> nat" where
  "pid_floor st = (if cursor st \<le> RESERVED_PIDS then 1 else RESERVED_PIDS)"

definition pid_alloc :: "pid_space \<Rightarrow> pid_number_error + pid_space \<times> nat" where
  "pid_alloc sp =
     (case sp of
        None \<Rightarrow> Inl NotPidNamespace
      | Some st \<Rightarrow>
          (let lo = pid_floor st;
               start = (if cursor st < lo then lo else cursor st)
           in case pid_scan st start lo of
                None \<Rightarrow> Inl PidExhausted
              | Some nr \<Rightarrow>
                  Inr (Some (st\<lparr>used := insert nr (used st), cursor := (if nr + 1 \<ge> max_nr st then lo else nr + 1)\<rparr>), nr)))"

definition pid_reserve :: "pid_space \<Rightarrow> nat \<Rightarrow> pid_number_error + pid_space" where
  "pid_reserve sp nr =
     (case sp of
        None \<Rightarrow> Inl NotPidNamespace
      | Some st \<Rightarrow>
          if nr < 1 \<or> nr \<ge> max_nr st then Inl PidOutOfRange
          else if nr \<in> used st then Inl PidInUse
          else Inr (Some (st\<lparr>used := insert nr (used st)\<rparr>)))"

definition pid_free :: "pid_space \<Rightarrow> nat \<Rightarrow> pid_space" where
  "pid_free sp nr = (case sp of None \<Rightarrow> None | Some st \<Rightarrow> Some (st\<lparr>used := used st - {nr}\<rparr>))"

definition pid_is_held :: "pid_space \<Rightarrow> nat \<Rightarrow> bool" where
  "pid_is_held sp nr = (case sp of None \<Rightarrow> False | Some st \<Rightarrow> nr \<in> used st)"

definition pid_held :: "pid_space \<Rightarrow> nat" where
  "pid_held sp = (case sp of None \<Rightarrow> 0 | Some st \<Rightarrow> card (used st))"

section \<open>Operations as a step relation\<close>

inductive pid_step :: "pid_space \<Rightarrow> pid_space \<Rightarrow> bool" where
  pid_step_alloc: "pid_alloc sp = Inr (sp', nr) \<Longrightarrow> pid_step sp sp'"
| pid_step_reserve: "pid_reserve sp nr = Inr sp' \<Longrightarrow> pid_step sp sp'"
| pid_step_free: "pid_step sp (pid_free sp nr)"
| pid_step_max: "pid_set_max sp m = Inr sp' \<Longrightarrow> pid_step sp sp'"

text \<open>A number space is sane when 0 is never held and the cursor is a number that can be held.\<close>

definition pid_inv :: "pid_state \<Rightarrow> bool" where
  "pid_inv st \<longleftrightarrow> 0 < cursor st \<and> 0 < max_nr st \<and> max_nr st \<le> PID_MAX_LIMIT \<and> cursor st \<le> PID_MAX_LIMIT \<and>
     0 \<notin> used st \<and> finite (used st) \<and> (\<forall>nr \<in> used st. nr < PID_MAX_LIMIT)"

lemma find_upt_Some:
  "List.find P [a..<b] = Some nr \<longleftrightarrow> a \<le> nr \<and> nr < b \<and> P nr \<and> (\<forall>k. a \<le> k \<longrightarrow> k < nr \<longrightarrow> \<not> P k)"
proof
  assume "List.find P [a..<b] = Some nr"
  then obtain i where i: "i < b - a" "P (a + i)" "nr = a + i" "\<forall>j < i. \<not> P (a + j)" by (auto simp: find_Some_iff)
  have "\<not> P k" if "a \<le> k" "k < nr" for k using i(4) [rule_format, of "k - a"] that i(3) by simp
  then show "a \<le> nr \<and> nr < b \<and> P nr \<and> (\<forall>k. a \<le> k \<longrightarrow> k < nr \<longrightarrow> \<not> P k)" using i by simp
next
  assume "a \<le> nr \<and> nr < b \<and> P nr \<and> (\<forall>k. a \<le> k \<longrightarrow> k < nr \<longrightarrow> \<not> P k)"
  then show "List.find P [a..<b] = Some nr" unfolding find_Some_iff by (intro exI [of _ "nr - a"]) auto
qed

lemma find_upt_None: "List.find P [a..<b] = None \<longleftrightarrow> (\<forall>nr. a \<le> nr \<longrightarrow> nr < b \<longrightarrow> \<not> P nr)"
  by (auto simp: find_None_iff)

lemma pid_scan_Some:
  assumes "pid_scan st start lo = Some nr" and "lo \<le> start"
  shows "nr \<notin> used st" "lo \<le> nr" "nr < max (max_nr st) start"
    "\<And>k. start \<le> k \<Longrightarrow> k < max_nr st \<Longrightarrow> k \<notin> used st \<Longrightarrow> start \<le> nr \<and> nr \<le> k"
  using assms unfolding pid_scan_def
  by (auto simp: find_upt_Some find_upt_None not_less split: option.splits)

lemma pid_scan_None:
  assumes "start \<le> max_nr st" and "lo \<le> start"
  shows "pid_scan st start lo = None \<longleftrightarrow> {lo..<max_nr st} \<subseteq> used st"
proof -
  have "pid_scan st start lo = None \<longleftrightarrow>
      (\<forall>nr. start \<le> nr \<longrightarrow> nr < max_nr st \<longrightarrow> nr \<in> used st) \<and> (\<forall>nr. lo \<le> nr \<longrightarrow> nr < start \<longrightarrow> nr \<in> used st)"
    using find_upt_None [of "\<lambda>nr. nr \<notin> used st"] by (simp add: pid_scan_def split: option.split) (metis option.distinct(1))
  also have "\<dots> \<longleftrightarrow> (\<forall>nr. lo \<le> nr \<longrightarrow> nr < max_nr st \<longrightarrow> nr \<in> used st)"
    using assms by (meson le_less_trans less_le_trans not_le order.trans)
  finally show ?thesis by (auto simp: subset_iff)
qed

lemma pid_alloc_cases:
  assumes "pid_alloc sp = Inr (sp', nr)"
  obtains st lo start where "sp = Some st" "lo = pid_floor st" "start = max lo (cursor st)" "pid_scan st start lo = Some nr"
    "sp' = Some (st\<lparr>used := insert nr (used st), cursor := (if nr + 1 \<ge> max_nr st then lo else nr + 1)\<rparr>)"
  using assms unfolding pid_alloc_def Let_def by (auto simp: max_def split: option.splits if_splits)

lemma pid_floor_bounds: "0 < pid_floor st" "pid_floor st \<le> RESERVED_PIDS"
  by (auto simp: pid_floor_def RESERVED_PIDS_def)

lemma pid_alloc_inv:
  assumes "pid_alloc (Some st) = Inr (Some st', nr)" and inv: "pid_inv st"
  shows "pid_inv st' \<and> nr \<notin> used st \<and> 0 < nr \<and> used st' = insert nr (used st) \<and> max_nr st' = max_nr st"
proof -
  obtain lo start where a: "lo = pid_floor st" "start = max lo (cursor st)" "pid_scan st start lo = Some nr"
    "st' = st\<lparr>used := insert nr (used st), cursor := (if nr + 1 \<ge> max_nr st then lo else nr + 1)\<rparr>"
    using assms(1) by (auto elim: pid_alloc_cases)
  note s = pid_scan_Some(1-3) [OF a(3)] and f = pid_floor_bounds [of st]
  have "start \<le> PID_MAX_LIMIT" using inv f a(1,2) by (simp add: pid_inv_def pid_constants)
  then have "nr < PID_MAX_LIMIT" using s(3) a(2) inv by (auto simp: pid_inv_def)
  then show ?thesis using s a f inv by (auto simp: pid_inv_def pid_constants)
qed

lemma pid_step_inv:
  assumes "pid_step sp sp'" and "\<forall>st. sp = Some st \<longrightarrow> pid_inv st"
  shows "\<forall>st'. sp' = Some st' \<longrightarrow> pid_inv st'"
  using assms
proof cases
  case (pid_step_alloc nr)
  show ?thesis
  proof (intro allI impI)
    fix st' assume st': "sp' = Some st'"
    obtain st where "sp = Some st" using pid_step_alloc by (auto elim: pid_alloc_cases)
    then show "pid_inv st'" using pid_step_alloc st' assms(2) pid_alloc_inv [of st st' nr] by simp
  qed
qed (auto simp: pid_reserve_def pid_free_def pid_set_max_def pid_inv_def split: option.splits if_splits)

lemma pid_alloc_at_cursor:
  assumes "0 < cursor st" "cursor st < max_nr st" "cursor st \<notin> used st"
  shows "pid_alloc (Some st) = Inr (Some (st\<lparr>used := insert (cursor st) (used st),
     cursor := (if cursor st + 1 \<ge> max_nr st then pid_floor st else cursor st + 1)\<rparr>), cursor st)"
proof -
  have "pid_scan st (cursor st) lo = Some (cursor st)" for lo
    using assms by (simp add: pid_scan_def upt_conv_Cons)
  moreover have "\<not> cursor st < pid_floor st" using assms by (simp add: pid_floor_def)
  ultimately show ?thesis by (simp add: pid_alloc_def)
qed

section \<open>Properties\<close>



definition lowered_space :: pid_space where
  "lowered_space = (case pid_alloc (pid_for_kind Pid False) of Inl _ \<Rightarrow> None | Inr (sp, _) \<Rightarrow>
     (case pid_alloc sp of Inl _ \<Rightarrow> None | Inr (sp, _) \<Rightarrow>
     (case pid_alloc sp of Inl _ \<Rightarrow> None | Inr (sp, nr) \<Rightarrow>
     (case pid_set_max (pid_free sp nr) 2 of Inl _ \<Rightarrow> None | Inr sp \<Rightarrow> sp))))"

text \<open>C34: lowering \<open>pid_max\<close> below the cursor breaks the bound: after three allocations, one release and a
  ceiling of 2, the next allocation hands out number 3, outside \<open>1..pid_max\<close>.\<close>

theorem pid_alloc_above_max:
  "pid_max_of lowered_space = Inr 2 \<and> (\<exists>sp'. pid_alloc lowered_space = Inr (sp', 3))"
proof -
  have l: "lowered_space = Some \<lparr>cursor = 4, max_nr = 2, used = {2, 1}\<rparr>"
    by (simp add: lowered_space_def pid_for_kind_def pid_alloc_at_cursor pid_free_def pid_set_max_def pid_constants numeral_2_eq_2)
  have "pid_scan \<lparr>cursor = 4, max_nr = 2, used = {2, 1}\<rparr> 4 1 = Some 3"
    by (simp add: pid_scan_def upt_rec numeral_eq_Suc)
  then show ?thesis unfolding l by (simp add: pid_max_of_def pid_alloc_def pid_floor_def pid_constants)
qed

end
