(* ===== verification/Namespaces.thy ===== *)
theory Namespaces
  imports Pid_Numbers
begin

text \<open>
  Namespace identities and their registry (\<open>namespace-identity/src/identity.rs\<close>,
  \<open>registry.rs\<close>, \<open>uapi.rs\<close>). An \<open>Arc<Namespace>\<close> is an address in a heap; an address whose object has
  been dropped reads as \<^term>\<open>None\<close>, which is what a failed \<open>Weak::upgrade\<close> sees. Every registry
  function runs under the registry lock, so each is one atomic step. \<open>active\<close> counts the
  \<open>NamespaceRef\<close> handles of a namespace plus the active namespaces it owns.
\<close>

section \<open>Identities\<close>

type_synonym addr = nat

datatype ns_owner = InitialUser | OwnerRef addr

record namespace =
  kind_of :: namespace_kind
  ident :: u64
  ns_id :: u64
  nsfs_ino :: u64
  owner_user_namespace :: ns_owner
  parent :: "addr option"
  memfd_scope :: nat
  pid_numbers :: pid_space
  active :: u64
  finalizers :: "nat list"

definition is_initial :: "namespace \<Rightarrow> bool" where
  "is_initial n \<longleftrightarrow> ident n = 0"

definition ALL_KINDS :: "namespace_kind list" where
  "ALL_KINDS = [Cgroup, Ipc, Mnt, Net, Pid, Time, User, Uts]"

definition MNT_INIT_NSFS_INO :: u64 where "MNT_INIT_NSFS_INO = 0x73000000"
definition FIRST_DYNAMIC_NSFS_INO :: u64 where "FIRST_DYNAMIC_NSFS_INO = MNT_INIT_NSFS_INO + 1"
definition FIRST_DYNAMIC_NS_ID :: u64 where "FIRST_DYNAMIC_NS_ID = 10"
definition FIRST_DYNAMIC_ID :: u64 where "FIRST_DYNAMIC_ID = 1"

fun initial_nsfs_ino :: "namespace_kind \<Rightarrow> u64" where
  "initial_nsfs_ino Cgroup = 0xEFFFFFFB"
| "initial_nsfs_ino Ipc = 0xEFFFFFFF"
| "initial_nsfs_ino Mnt = MNT_INIT_NSFS_INO"
| "initial_nsfs_ino Net = 0x72000006"
| "initial_nsfs_ino Pid = 0xEFFFFFFC"
| "initial_nsfs_ino Time = 0xEFFFFFFA"
| "initial_nsfs_ino User = 0xEFFFFFFD"
| "initial_nsfs_ino Uts = 0xEFFFFFFE"

fun initial_ns_id :: "namespace_kind \<Rightarrow> u64" where
  "initial_ns_id Ipc = 1"
| "initial_ns_id Uts = 2"
| "initial_ns_id User = 3"
| "initial_ns_id Pid = 4"
| "initial_ns_id Cgroup = 5"
| "initial_ns_id Time = 6"
| "initial_ns_id Net = 7"
| "initial_ns_id Mnt = 8"

section \<open>The registry\<close>

datatype alloc_error = IdExhausted | OwnerNotUserNamespace | ParentKindMismatch

record registry =
  initial_ns :: "namespace_kind \<rightharpoonup> addr"
  lifetime_by_id :: "namespace_kind \<times> u64 \<rightharpoonup> addr"
  lifetime_by_ino :: "u64 \<rightharpoonup> addr"
  active_global :: "u64 \<rightharpoonup> addr"
  active_kind :: "namespace_kind \<times> u64 \<rightharpoonup> addr"
  active_owner :: "u64 \<times> u64 \<rightharpoonup> addr"
  next_id_of :: "namespace_kind \<Rightarrow> u64"
  next_ns_id_nr :: u64
  next_ino_nr :: u64

record world =
  heap :: "addr \<rightharpoonup> namespace"
  next_addr :: addr
  reg :: registry

definition registry_new :: registry where
  "registry_new =
     \<lparr>initial_ns = Map.empty, lifetime_by_id = Map.empty, lifetime_by_ino = Map.empty, active_global = Map.empty,
      active_kind = Map.empty, active_owner = Map.empty, next_id_of = (\<lambda>_. FIRST_DYNAMIC_ID),
      next_ns_id_nr = FIRST_DYNAMIC_NS_ID, next_ino_nr = FIRST_DYNAMIC_NSFS_INO\<rparr>"

definition owner_ns_id :: "(addr \<rightharpoonup> namespace) \<Rightarrow> namespace \<Rightarrow> u64 option" where
  "owner_ns_id h n = (case owner_user_namespace n of InitialUser \<Rightarrow> Some (ns_id n) | OwnerRef a \<Rightarrow> map_option ns_id (h a))"

definition publish_lifetime :: "registry \<Rightarrow> addr \<Rightarrow> namespace \<Rightarrow> registry" where
  "publish_lifetime r a n =
     r\<lparr>lifetime_by_id := (lifetime_by_id r)((kind_of n, ident n) \<mapsto> a),
       lifetime_by_ino := (lifetime_by_ino r)(nsfs_ino n \<mapsto> a)\<rparr>"

definition publish_active :: "(addr \<rightharpoonup> namespace) \<Rightarrow> registry \<Rightarrow> addr \<Rightarrow> namespace \<Rightarrow> registry option" where
  "publish_active h r a n = do {
     let r = r\<lparr>active_global := (active_global r)(ns_id n \<mapsto> a),
               active_kind := (active_kind r)((kind_of n, ns_id n) \<mapsto> a)\<rparr>;
     (if kind_of n \<noteq> User \<or> \<not> is_initial n then do {
        oid \<leftarrow> owner_ns_id h n;
        Some (r\<lparr>active_owner := (active_owner r)((oid, ns_id n) \<mapsto> a)\<rparr>)
      } else Some r)
   }"

definition remove_active :: "(addr \<rightharpoonup> namespace) \<Rightarrow> registry \<Rightarrow> namespace \<Rightarrow> registry option" where
  "remove_active h r n = do {
     oid \<leftarrow> owner_ns_id h n;
     Some (r\<lparr>active_global := (active_global r)(ns_id n := None),
             active_kind := (active_kind r)((kind_of n, ns_id n) := None),
             active_owner := (active_owner r)((oid, ns_id n) := None)\<rparr>)
   }"

definition next_id :: "registry \<Rightarrow> namespace_kind \<Rightarrow> registry \<times> (alloc_error + u64)" where
  "next_id r kind =
     (let nxt = next_id_of r kind in
      if nxt = U64_MAX then (r, Inl IdExhausted) else (r\<lparr>next_id_of := (next_id_of r)(kind := nxt + 1)\<rparr>, Inr nxt))"

definition next_ns_id :: "registry \<Rightarrow> registry \<times> (alloc_error + u64)" where
  "next_ns_id r =
     (let nxt = next_ns_id_nr r in
      if nxt = U64_MAX then (r, Inl IdExhausted) else (r\<lparr>next_ns_id_nr := nxt + 1\<rparr>, Inr nxt))"

definition next_nsfs_ino :: "registry \<Rightarrow> registry \<times> (alloc_error + u64)" where
  "next_nsfs_ino r =
     (let nxt = next_ino_nr r in
      if nxt = U64_MAX then (r, Inl IdExhausted) else (r\<lparr>next_ino_nr := nxt + 1\<rparr>, Inr nxt))"

definition arc_new :: "world \<Rightarrow> namespace \<Rightarrow> world \<times> addr" where
  "arc_new w n = (w\<lparr>heap := (heap w)(next_addr w \<mapsto> n), next_addr := next_addr w + 1\<rparr>, next_addr w)"

definition initial_namespace :: "namespace_kind \<Rightarrow> ns_owner \<Rightarrow> namespace" where
  "initial_namespace kind ow =
     \<lparr>kind_of = kind, ident = 0, ns_id = initial_ns_id kind, nsfs_ino = initial_nsfs_ino kind, owner_user_namespace = ow,
      parent = None, memfd_scope = 0, pid_numbers = pid_for_kind kind True, active = 1, finalizers = []\<rparr>"

definition add_initial :: "world \<Rightarrow> namespace_kind \<Rightarrow> ns_owner \<Rightarrow> (world \<times> addr) option" where
  "add_initial w kind ow = do {
     let n = initial_namespace kind ow;
     let (w, a) = arc_new w n;
     r \<leftarrow> publish_active (heap w) (publish_lifetime (reg w) a n) a n;
     Some (w\<lparr>reg := r\<lparr>initial_ns := (initial_ns r)(kind \<mapsto> a)\<rparr>\<rparr>, a)
   }"

fun add_initials :: "world \<Rightarrow> addr \<Rightarrow> namespace_kind list \<Rightarrow> world option" where
  "add_initials w user [] = Some w"
| "add_initials w user (kind # kinds) =
     (if kind = User then add_initials w user kinds
      else do { (w, _) \<leftarrow> add_initial w kind (OwnerRef user); add_initials w user kinds })"

definition initialize :: "world \<Rightarrow> world option" where
  "initialize w =
     (if list_ex (\<lambda>kind. initial_ns (reg w) kind \<noteq> None) ALL_KINDS then Some w
      else do { (w, user) \<leftarrow> add_initial w User InitialUser; add_initials w user ALL_KINDS })"

section \<open>Activity\<close>

definition set_active :: "world \<Rightarrow> addr \<Rightarrow> namespace \<Rightarrow> u64 \<Rightarrow> world" where
  "set_active w a n k = w\<lparr>heap := (heap w)(a \<mapsto> n\<lparr>active := k\<rparr>)\<rparr>"

definition publish_world :: "world \<Rightarrow> addr \<Rightarrow> namespace \<Rightarrow> world option" where
  "publish_world w a n = do { r \<leftarrow> publish_active (heap w) (reg w) a n; Some (w\<lparr>reg := r\<rparr>) }"

text \<open>The recursion runs up the owner chain; that it ends is a theorem below.\<close>

partial_function (option) acquire_count_locked :: "world \<Rightarrow> addr \<Rightarrow> world option" where
  "acquire_count_locked w a = do {
     n \<leftarrow> heap w a;
     (if is_initial n then Some w
      else do {
        let w = set_active w a n (wrapping_add (active n) 1);
        (if active n \<noteq> 0 then Some w
         else do {
           w \<leftarrow> (case owner_user_namespace n of OwnerRef own \<Rightarrow> acquire_count_locked w own | InitialUser \<Rightarrow> Some w);
           publish_world w a n
         })
      })
   }"

definition acquire_locked :: "world \<Rightarrow> addr \<Rightarrow> world option" where
  "acquire_locked w a = do {
     n \<leftarrow> heap w a;
     (if is_initial n then Some w
      else do {
        let w = set_active w a n (wrapping_add (active n) 1);
        (if active n = 0 then do {
           w \<leftarrow> (case owner_user_namespace n of OwnerRef own \<Rightarrow> acquire_count_locked w own | InitialUser \<Rightarrow> Some w);
           publish_world w a n
         } else Some w)
      })
   }"

partial_function (option) release_count_locked :: "world \<Rightarrow> addr \<Rightarrow> world option" where
  "release_count_locked w a = do {
     n \<leftarrow> heap w a;
     (if is_initial n then Some w
      else do {
        let w = set_active w a n (wrapping_sub (active n) 1);
        kassert (active n > 0);
        (if active n \<noteq> 1 then Some w
         else do {
           r \<leftarrow> remove_active (heap w) (reg w) n;
           let w = w\<lparr>reg := r\<rparr>;
           (case owner_user_namespace n of OwnerRef own \<Rightarrow> release_count_locked w own | InitialUser \<Rightarrow> Some w)
         })
      })
   }"

definition release_active :: "world \<Rightarrow> addr \<Rightarrow> world option" where
  "release_active w a = do { n \<leftarrow> heap w a; (if is_initial n then Some w else release_count_locked w a) }"

definition clone_ref :: "world \<Rightarrow> addr \<Rightarrow> world option" where
  "clone_ref w a = do {
     n \<leftarrow> heap w a;
     (if \<not> is_initial n then do {
        kassert (active n \<noteq> 0);
        Some (set_active w a n (wrapping_add (active n) 1))
      } else Some w)
   }"

definition get_active :: "world \<Rightarrow> addr \<Rightarrow> (world \<times> addr option) option" where
  "get_active w a = do {
     n \<leftarrow> heap w a;
     (if \<not> is_initial n \<and> active n = 0 then Some (w, None)
      else do { w \<leftarrow> acquire_locked w a; Some (w, Some a) })
   }"

definition upgrade_pin :: "world \<Rightarrow> addr \<Rightarrow> addr option" where
  "upgrade_pin w a = (case heap w a of Some n \<Rightarrow> if active n \<noteq> 0 then Some a else None | None \<Rightarrow> None)"

definition initial_pin :: "world \<Rightarrow> namespace_kind \<Rightarrow> (world \<times> addr) option" where
  "initial_pin w kind = do { w \<leftarrow> initialize w; a \<leftarrow> initial_ns (reg w) kind; Some (w, a) }"

definition initial :: "world \<Rightarrow> namespace_kind \<Rightarrow> (world \<times> addr) option" where
  "initial w kind = do { (w, a) \<leftarrow> initial_pin w kind; w \<leftarrow> acquire_locked w a; Some (w, a) }"

section \<open>Allocation, lookup and removal\<close>

definition allocate_ns_id :: "world \<Rightarrow> world \<times> (alloc_error + u64)" where
  "allocate_ns_id w = (case next_ns_id (reg w) of (r, res) \<Rightarrow> (w\<lparr>reg := r\<rparr>, res))"

definition allocate_nsfs_ino :: "world \<Rightarrow> world \<times> (alloc_error + u64)" where
  "allocate_nsfs_ino w = (case next_nsfs_ino (reg w) of (r, res) \<Rightarrow> (w\<lparr>reg := r\<rparr>, res))"

partial_function (option) scope_loop :: "world \<Rightarrow> nat \<Rightarrow> addr option \<Rightarrow> nat option" where
  "scope_loop w scope p =
     (case p of
        None \<Rightarrow> Some scope
      | Some a \<Rightarrow> do { n \<leftarrow> heap w a; scope_loop w (max scope (memfd_scope n)) (parent n) })"

datatype memfd_error = MemfdNotPidNamespace | MemfdOutOfRange | MemfdBelowParent

definition pid_memfd_noexec_scope :: "world \<Rightarrow> namespace \<Rightarrow> (memfd_error + nat) option" where
  "pid_memfd_noexec_scope w n =
     (if kind_of n \<noteq> Pid then Some (Inl MemfdNotPidNamespace)
      else do { scope \<leftarrow> scope_loop w (memfd_scope n) (parent n); Some (Inr scope) })"

definition set_pid_memfd_noexec_scope :: "world \<Rightarrow> addr \<Rightarrow> nat \<Rightarrow> (world \<times> (memfd_error + unit)) option" where
  "set_pid_memfd_noexec_scope w a scope = do {
     n \<leftarrow> heap w a;
     let store = w\<lparr>heap := (heap w)(a \<mapsto> n\<lparr>memfd_scope := scope\<rparr>)\<rparr>;
     (if kind_of n \<noteq> Pid then Some (w, Inl MemfdNotPidNamespace)
      else if scope > 2 then Some (w, Inl MemfdOutOfRange)
      else case parent n of
        None \<Rightarrow> Some (store, Inr ())
      | Some p \<Rightarrow> do {
          m \<leftarrow> heap w p;
          r \<leftarrow> pid_memfd_noexec_scope w m;
          (case r of
             Inl err \<Rightarrow> Some (w, Inl err)
           | Inr eff \<Rightarrow> if scope < eff then Some (w, Inl MemfdBelowParent) else Some (store, Inr ()))
        })
   }"

definition register_finalizer :: "world \<Rightarrow> addr \<Rightarrow> nat \<Rightarrow> world option" where
  "register_finalizer w a f = do {
     n \<leftarrow> heap w a;
     Some (if f \<in> set (finalizers n) then w else w\<lparr>heap := (heap w)(a \<mapsto> n\<lparr>finalizers := finalizers n @ [f]\<rparr>)\<rparr>)
   }"

definition allocate_inactive_inner ::
    "world \<Rightarrow> namespace_kind \<Rightarrow> addr \<Rightarrow> addr option \<Rightarrow> (world \<times> (alloc_error + addr)) option" where
  "allocate_inactive_inner w kind own par = do {
     w \<leftarrow> initialize w;
     scope \<leftarrow> (if kind = Pid then
                 (case par of
                    None \<Rightarrow> Some 0
                  | Some p \<Rightarrow> do {
                      m \<leftarrow> heap w p;
                      r \<leftarrow> pid_memfd_noexec_scope w m;
                      (case r of Inr s \<Rightarrow> Some s | Inl _ \<Rightarrow> None)
                    })
               else Some 0);
     (case next_id (reg w) kind of
        (r, Inl err) \<Rightarrow> Some (w\<lparr>reg := r\<rparr>, Inl err)
      | (r, Inr i) \<Rightarrow>
          (case next_ns_id r of
             (r, Inl err) \<Rightarrow> Some (w\<lparr>reg := r\<rparr>, Inl err)
           | (r, Inr nid) \<Rightarrow>
               (case next_nsfs_ino r of
                  (r, Inl err) \<Rightarrow> Some (w\<lparr>reg := r\<rparr>, Inl err)
                | (r, Inr ino) \<Rightarrow> do {
                    let n = \<lparr>kind_of = kind, ident = i, ns_id = nid, nsfs_ino = ino, owner_user_namespace = OwnerRef own,
                             parent = par, memfd_scope = scope, pid_numbers = pid_for_kind kind False, active = 0,
                             finalizers = []\<rparr>;
                    let (w, a) = arc_new (w\<lparr>reg := r\<rparr>) n;
                    Some (w\<lparr>reg := publish_lifetime (reg w) a n\<rparr>, Inr a)
                  })))
   }"

definition allocate_inactive ::
    "world \<Rightarrow> namespace_kind \<Rightarrow> addr \<Rightarrow> addr option \<Rightarrow> (world \<times> (alloc_error + addr)) option" where
  "allocate_inactive w kind own par = do {
     o' \<leftarrow> heap w own;
     bad \<leftarrow> (case par of None \<Rightarrow> Some False | Some p \<Rightarrow> do { m \<leftarrow> heap w p; Some (kind_of m \<noteq> kind) });
     (if kind_of o' \<noteq> User then Some (w, Inl OwnerNotUserNamespace)
      else if bad then Some (w, Inl ParentKindMismatch)
      else allocate_inactive_inner w kind own par)
   }"

definition allocate :: "world \<Rightarrow> namespace_kind \<Rightarrow> addr \<Rightarrow> addr option \<Rightarrow> (world \<times> (alloc_error + addr)) option" where
  "allocate w kind own par = do {
     (w, r) \<leftarrow> allocate_inactive w kind own par;
     (case r of
        Inl err \<Rightarrow> Some (w, Inl err)
      | Inr a \<Rightarrow> do { w \<leftarrow> acquire_locked w a; Some (w, Inr a) })
   }"

definition lookup :: "world \<Rightarrow> namespace_kind \<Rightarrow> u64 \<Rightarrow> addr option" where
  "lookup w kind i = do { a \<leftarrow> lifetime_by_id (reg w) (kind, i); upgrade_pin w a }"

definition lookup_nsfs_ino :: "world \<Rightarrow> u64 \<Rightarrow> addr option" where
  "lookup_nsfs_ino w ino = do { a \<leftarrow> lifetime_by_ino (reg w) ino; upgrade_pin w a }"

definition lookup_ns_id :: "world \<Rightarrow> u64 \<Rightarrow> addr option" where
  "lookup_ns_id w nid = do { a \<leftarrow> active_global (reg w) nid; upgrade_pin w a }"

definition remove :: "world \<Rightarrow> addr \<Rightarrow> namespace \<Rightarrow> registry" where
  "remove w a n =
     (let r = reg w;
          r = (if lifetime_by_id r (kind_of n, ident n) = Some a
               then r\<lparr>lifetime_by_id := (lifetime_by_id r)((kind_of n, ident n) := None)\<rparr> else r)
      in if lifetime_by_ino r (nsfs_ino n) = Some a then r\<lparr>lifetime_by_ino := (lifetime_by_ino r)(nsfs_ino n := None)\<rparr> else r)"

text \<open>Dropping the object runs its finalizers (returned in order) and leaves the lifetime indexes.\<close>

definition drop_namespace :: "world \<Rightarrow> addr \<Rightarrow> (world \<times> nat list) option" where
  "drop_namespace w a = do {
     n \<leftarrow> heap w a;
     Some (w\<lparr>reg := remove w a n, heap := (heap w)(a := None)\<rparr>, finalizers n)
   }"

end
