(* ===== verification/Namespaces_Inv.thy ===== *)
theory Namespaces_Inv
  imports Namespaces
begin

text \<open>
  Reference counting of namespaces: the activity count of a namespace is the number of its handles
  plus the number of active namespaces it owns, the three active indexes hold exactly the active
  namespaces, and the recursions up the owner chain end because an owner is older than what it owns.
\<close>

section \<open>Indexes\<close>

definition key_inj :: "(addr \<rightharpoonup> namespace) \<Rightarrow> (namespace \<Rightarrow> 'k option) \<Rightarrow> bool" where
  "key_inj h key \<longleftrightarrow> (\<forall>a n b m k. h a = Some n \<longrightarrow> h b = Some m \<longrightarrow> key n = Some k \<longrightarrow> key m = Some k \<longrightarrow> a = b)"

definition index_ok :: "(addr \<rightharpoonup> namespace) \<Rightarrow> (namespace \<Rightarrow> 'k option) \<Rightarrow> ('k \<rightharpoonup> addr) \<Rightarrow> addr set \<Rightarrow> bool" where
  "index_ok h key m P \<longleftrightarrow> (\<forall>k a. m k = Some a \<longleftrightarrow> (\<exists>n. h a = Some n \<and> key n = Some k \<and> 0 < active n \<and> a \<notin> P))"

definition owner_key :: "(addr \<rightharpoonup> namespace) \<Rightarrow> namespace \<Rightarrow> (u64 \<times> u64) option" where
  "owner_key h n = (if kind_of n \<noteq> User \<or> \<not> is_initial n then map_option (\<lambda>i. (i, ns_id n)) (owner_ns_id h n) else None)"

definition indexed :: "world \<Rightarrow> addr set \<Rightarrow> bool" where
  "indexed w P \<longleftrightarrow> index_ok (heap w) (\<lambda>n. Some (ns_id n)) (active_global (reg w)) P \<and>
     index_ok (heap w) (\<lambda>n. Some (kind_of n, ns_id n)) (active_kind (reg w)) P \<and>
     index_ok (heap w) (owner_key (heap w)) (active_owner (reg w)) P"

lemma key_injD: "key_inj h key \<Longrightarrow> h a = Some n \<Longrightarrow> h b = Some m \<Longrightarrow> key n = Some k \<Longrightarrow> key m = Some k \<Longrightarrow> a = b"
  unfolding key_inj_def by blast

lemma index_okD: "index_ok h key m P \<Longrightarrow> m k = Some a \<longleftrightarrow> (\<exists>n. h a = Some n \<and> key n = Some k \<and> 0 < active n \<and> a \<notin> P)"
  by (simp add: index_ok_def)

lemma index_active:
  assumes "index_ok h key m P" and "h a = Some n" and "key (n\<lparr>active := j\<rparr>) = key n"
    and "\<And>b. b \<noteq> a \<Longrightarrow> b \<in> P' \<longleftrightarrow> b \<in> P" and "(0 < j \<and> a \<notin> P') \<longleftrightarrow> (0 < active n \<and> a \<notin> P)"
  shows "index_ok (h(a \<mapsto> n\<lparr>active := j\<rparr>)) key m P'"
  unfolding index_ok_def
proof (intro allI)
  fix k b
  show "m k = Some b \<longleftrightarrow> (\<exists>x. (h(a \<mapsto> n\<lparr>active := j\<rparr>)) b = Some x \<and> key x = Some k \<and> 0 < active x \<and> b \<notin> P')"
    using index_okD [OF assms(1), of k b] assms(2-5) by (cases "b = a") auto
qed

lemma index_publish:
  assumes ok: "index_ok h key m (insert a P)" and inj: "key_inj h key" and n: "h a = Some n" "0 < active n" "a \<notin> P"
  shows "index_ok h key (case key n of Some k \<Rightarrow> m(k \<mapsto> a) | None \<Rightarrow> m) P"
proof (cases "key n")
  case None
  then show ?thesis using ok n unfolding index_ok_def by (metis insert_iff option.simps(3,4) option.sel)
next
  case (Some k)
  have "(m(k \<mapsto> a)) j = Some b \<longleftrightarrow> (\<exists>x. h b = Some x \<and> key x = Some j \<and> 0 < active x \<and> b \<notin> P)" for j b
  proof (cases "j = k")
    case True
    have "b = a" if "h b = Some x" "key x = Some k" for x using key_injD [OF inj n(1) that(1) Some that(2)] by simp
    then show ?thesis using True n Some by auto
  next
    case False
    then show ?thesis using index_okD [OF ok, of j b] n Some by auto
  qed
  then show ?thesis using Some by (simp add: index_ok_def)
qed

lemma index_unpublish:
  assumes ok: "index_ok h key m {}" and inj: "key_inj h key" and n: "h a = Some n" and st: "key (n\<lparr>active := 0\<rparr>) = key n"
  shows "index_ok (h(a \<mapsto> n\<lparr>active := 0\<rparr>)) key (case key n of Some k \<Rightarrow> m(k := None) | None \<Rightarrow> m) {}"
proof -
  have "(case key n of Some k \<Rightarrow> m(k := None) | None \<Rightarrow> m) j = Some b \<longleftrightarrow>
      (\<exists>x. (h(a \<mapsto> n\<lparr>active := 0\<rparr>)) b = Some x \<and> key x = Some j \<and> 0 < active x \<and> b \<notin> {})" for j b
  proof (cases "b = a")
    case True
    have "m j \<noteq> Some a" if "key n \<noteq> Some j" using index_okD [OF ok, of j a] n that by auto
    then show ?thesis using True by (cases "key n") auto
  next
    case False
    have "key n \<noteq> Some j" if "h b = Some x" "key x = Some j" for x using key_injD [OF inj n that(1) _ that(2)] False by blast
    then show ?thesis using False index_okD [OF ok, of j b] by (cases "key n") auto
  qed
  then show ?thesis by (simp add: index_ok_def)
qed

section \<open>Structure\<close>

definition node_wf :: "(addr \<rightharpoonup> namespace) \<Rightarrow> addr \<Rightarrow> addr \<Rightarrow> namespace \<Rightarrow> bool" where
  "node_wf h lim a n \<longleftrightarrow> a < lim \<and> active n \<le> U64_MAX \<and>
     (case owner_user_namespace n of
        InitialUser \<Rightarrow> is_initial n \<and> kind_of n = User
      | OwnerRef own \<Rightarrow> own < a \<and> (\<exists>m. h own = Some m \<and> kind_of m = User \<and> (is_initial n \<longrightarrow> is_initial m))) \<and>
     (is_initial n \<longrightarrow> active n = 1) \<and>
     (\<forall>p. parent n = Some p \<longrightarrow> p < a \<and> (\<exists>m. h p = Some m \<and> kind_of m = kind_of n))"

definition heap_wf :: "world \<Rightarrow> bool" where
  "heap_wf w \<longleftrightarrow> finite (dom (heap w)) \<and> (\<forall>a n. heap w a = Some n \<longrightarrow> node_wf (heap w) (next_addr w) a n)"

definition ids_wf :: "world \<Rightarrow> bool" where
  "ids_wf w \<longleftrightarrow> key_inj (heap w) (\<lambda>n. Some (ns_id n)) \<and> key_inj (heap w) (\<lambda>n. Some (kind_of n, ident n)) \<and>
     FIRST_DYNAMIC_NS_ID \<le> next_ns_id_nr (reg w) \<and>
     (\<forall>a n. heap w a = Some n \<longrightarrow> ns_id n < next_ns_id_nr (reg w) \<and> ident n < next_id_of (reg w) (kind_of n)) \<and>
     (\<forall>kind. FIRST_DYNAMIC_ID \<le> next_id_of (reg w) kind)"

definition children :: "(addr \<rightharpoonup> namespace) \<Rightarrow> addr \<Rightarrow> addr set" where
  "children h a = {b. \<exists>m. h b = Some m \<and> owner_user_namespace m = OwnerRef a \<and> 0 < active m}"

text \<open>The count equation, with one handle too few (\<open>d = 1\<close> at \<open>a\<close>) or exact.\<close>

definition short_at :: "world \<Rightarrow> (addr \<Rightarrow> nat) \<Rightarrow> addr \<Rightarrow> bool" where
  "short_at w f a \<longleftrightarrow> (\<forall>b m. heap w b = Some m \<longrightarrow> \<not> is_initial m \<longrightarrow>
     active m + (if b = a then 1 else 0) = f b + card (children (heap w) b))"

definition long_at :: "world \<Rightarrow> (addr \<Rightarrow> nat) \<Rightarrow> addr \<Rightarrow> bool" where
  "long_at w f a \<longleftrightarrow> (\<forall>b m. heap w b = Some m \<longrightarrow> \<not> is_initial m \<longrightarrow>
     active m = f b + card (children (heap w) b) + (if b = a then 1 else 0))"

definition balanced :: "world \<Rightarrow> (addr \<Rightarrow> nat) \<Rightarrow> bool" where
  "balanced w f \<longleftrightarrow> (\<forall>b m. heap w b = Some m \<longrightarrow> \<not> is_initial m \<longrightarrow> active m = f b + card (children (heap w) b))"

text \<open>Two worlds that differ in activity counts and active indexes only.\<close>

definition same_shape :: "world \<Rightarrow> world \<Rightarrow> bool" where
  "same_shape w w' \<longleftrightarrow> next_addr w' = next_addr w \<and> dom (heap w') = dom (heap w) \<and>
     (\<forall>a n. heap w a = Some n \<longrightarrow> (\<exists>k. heap w' a = Some (n\<lparr>active := k\<rparr>))) \<and>
     initial_ns (reg w') = initial_ns (reg w) \<and> lifetime_by_id (reg w') = lifetime_by_id (reg w) \<and>
     lifetime_by_ino (reg w') = lifetime_by_ino (reg w) \<and> next_id_of (reg w') = next_id_of (reg w) \<and>
     next_ns_id_nr (reg w') = next_ns_id_nr (reg w) \<and> next_ino_nr (reg w') = next_ino_nr (reg w)"

lemma is_initial_active [simp]: "is_initial (n\<lparr>active := k\<rparr>) = is_initial n"
  by (simp add: is_initial_def)

lemma active_same [simp]: "\<exists>k. n = n\<lparr>active := k\<rparr>"
  by (rule exI [of _ "active n"]) simp

lemma same_shape_refl [simp]: "same_shape w w"
  by (auto simp: same_shape_def)

lemma same_shapeD:
  assumes "same_shape w w'" and "heap w a = Some n"
  obtains k where "heap w' a = Some (n\<lparr>active := k\<rparr>)"
  using assms unfolding same_shape_def by blast

lemma same_shape_trans:
  assumes "same_shape w w'" and "same_shape w' w''"
  shows "same_shape w w''"
proof -
  have "\<exists>k. heap w'' a = Some (n\<lparr>active := k\<rparr>)" if h: "heap w a = Some n" for a n
  proof -
    obtain k where "heap w' a = Some (n\<lparr>active := k\<rparr>)" using assms(1) h unfolding same_shape_def by blast
    then obtain j where "heap w'' a = Some (n\<lparr>active := k, active := j\<rparr>)" using assms(2) unfolding same_shape_def by blast
    then show ?thesis by auto
  qed
  then show ?thesis using assms by (auto simp: same_shape_def)
qed

lemma same_shape_set [simp]: "heap w a = Some n \<Longrightarrow> same_shape w (set_active w a n k)"
  by (auto simp: same_shape_def set_active_def)

lemma owner_ns_id_set: "h a = Some n \<Longrightarrow> owner_ns_id (h(a \<mapsto> n\<lparr>active := k\<rparr>)) = owner_ns_id h"
  by (auto simp: owner_ns_id_def fun_eq_iff split: ns_owner.splits)

lemma owner_key_set: "h a = Some n \<Longrightarrow> owner_key (h(a \<mapsto> n\<lparr>active := k\<rparr>)) = owner_key h"
  by (auto simp: owner_key_def fun_eq_iff owner_ns_id_set)

lemma owner_key_stable [simp]: "owner_key h (n\<lparr>active := k\<rparr>) = owner_key h n"
  by (cases "owner_user_namespace n") (simp_all add: owner_key_def owner_ns_id_def)

lemma owner_key_inj: "key_inj h (\<lambda>n. Some (ns_id n)) \<Longrightarrow> key_inj h (owner_key h)"
  by (auto simp: key_inj_def owner_key_def split: if_splits)

lemma kind_key_inj: "key_inj h (\<lambda>n. Some (ns_id n)) \<Longrightarrow> key_inj h (\<lambda>n. Some (kind_of n, ns_id n))"
  by (auto simp: key_inj_def)

lemma key_inj_set: "h a = Some n \<Longrightarrow> key (n\<lparr>active := k\<rparr>) = key n \<Longrightarrow> key_inj h key \<Longrightarrow> key_inj (h(a \<mapsto> n\<lparr>active := k\<rparr>)) key"
  unfolding key_inj_def by (auto split: if_splits)

lemma ids_wf_same:
  assumes "ids_wf w" and "same_shape w w'"
  shows "ids_wf w'"
proof -
  have orig: "\<exists>m k. heap w a = Some m \<and> n = m\<lparr>active := k\<rparr>" if h: "heap w' a = Some n" for a n
  proof -
    obtain m where "heap w a = Some m" using assms(2) h unfolding same_shape_def by blast
    then show ?thesis using assms(2) h unfolding same_shape_def by fastforce
  qed
  have "ns_id n < next_ns_id_nr (reg w') \<and> ident n < next_id_of (reg w') (kind_of n)" if "heap w' a = Some n" for a n
    using orig [OF that] assms by (auto simp: ids_wf_def same_shape_def)
  moreover have "key_inj (heap w') (\<lambda>n. Some (ns_id n))" "key_inj (heap w') (\<lambda>n. Some (kind_of n, ident n))"
    using assms(1) by (auto simp: ids_wf_def key_inj_def dest!: orig)
  ultimately show ?thesis using assms by (auto simp: ids_wf_def same_shape_def)
qed

lemma heap_wfD:
  assumes "heap_wf w" and "heap w a = Some n"
  shows "a < next_addr w" "active n \<le> U64_MAX" "is_initial n \<Longrightarrow> active n = 1"
    "owner_user_namespace n = InitialUser \<Longrightarrow> is_initial n \<and> kind_of n = User"
    "owner_user_namespace n = OwnerRef own \<Longrightarrow> own < a \<and> (\<exists>m. heap w own = Some m \<and> kind_of m = User \<and> (is_initial n \<longrightarrow> is_initial m))"
    "parent n = Some p \<Longrightarrow> p < a \<and> (\<exists>m. heap w p = Some m \<and> kind_of m = kind_of n)"
proof -
  have "node_wf (heap w) (next_addr w) a n" using assms unfolding heap_wf_def by blast
  then show "a < next_addr w" "active n \<le> U64_MAX" "is_initial n \<Longrightarrow> active n = 1"
    "owner_user_namespace n = InitialUser \<Longrightarrow> is_initial n \<and> kind_of n = User"
    "owner_user_namespace n = OwnerRef own \<Longrightarrow> own < a \<and> (\<exists>m. heap w own = Some m \<and> kind_of m = User \<and> (is_initial n \<longrightarrow> is_initial m))"
    "parent n = Some p \<Longrightarrow> p < a \<and> (\<exists>m. heap w p = Some m \<and> kind_of m = kind_of n)"
    unfolding node_wf_def by simp_all
qed

lemma node_wf_mono:
  assumes wf: "node_wf h lim a n" and le: "lim \<le> lim'"
    and keep: "\<And>b m. h b = Some m \<Longrightarrow> b < a \<Longrightarrow> \<exists>m'. h' b = Some m' \<and> kind_of m' = kind_of m \<and> is_initial m' = is_initial m"
    and n: "kind_of n' = kind_of n" "is_initial n' = is_initial n" "parent n' = parent n"
      "owner_user_namespace n' = owner_user_namespace n" "active n' \<le> U64_MAX" "is_initial n' \<Longrightarrow> active n' = active n"
  shows "node_wf h' lim' a n'"
proof -
  have "\<exists>m'. h' own = Some m' \<and> kind_of m' = User \<and> (is_initial n \<longrightarrow> is_initial m')"
    if "owner_user_namespace n = OwnerRef own" for own using wf keep that unfolding node_wf_def by fastforce
  moreover have "\<exists>m'. h' p = Some m' \<and> kind_of m' = kind_of n" if "parent n = Some p" for p
    using wf keep that unfolding node_wf_def by fastforce
  ultimately show ?thesis using wf le n unfolding node_wf_def by (auto split: ns_owner.splits)
qed

lemma heap_wf_set:
  assumes wf: "heap_wf w" and a: "heap w a = Some n" and k: "k \<le> U64_MAX" and ni: "\<not> is_initial n"
  shows "heap_wf (set_active w a n k)"
proof -
  have keep: "\<exists>m'. heap (set_active w a n k) b = Some m' \<and> kind_of m' = kind_of m \<and> is_initial m' = is_initial m"
    if "heap w b = Some m" for b m using that a by (auto simp: set_active_def)
  have "node_wf (heap (set_active w a n k)) (next_addr w) x m" if h: "heap (set_active w a n k) x = Some m" for x m
  proof -
    obtain m0 where m0: "heap w x = Some m0" "kind_of m = kind_of m0" "is_initial m = is_initial m0" "parent m = parent m0"
      "owner_user_namespace m = owner_user_namespace m0" "active m \<le> U64_MAX" "is_initial m \<longrightarrow> active m = active m0"
      using h a k ni heap_wfD(2) [OF wf] by (auto simp: set_active_def split: if_splits)
    have "node_wf (heap w) (next_addr w) x m0" using wf m0(1) unfolding heap_wf_def by blast
    then show ?thesis by (rule node_wf_mono) (use m0 keep in auto)
  qed
  moreover have "finite (dom (heap (set_active w a n k)))" using wf by (simp add: heap_wf_def set_active_def)
  ultimately show ?thesis unfolding heap_wf_def by (simp add: set_active_def)
qed

lemma children_finite: "heap_wf w \<Longrightarrow> finite (children (heap w) b)"
  by (rule finite_subset [of _ "dom (heap w)"]) (auto simp: heap_wf_def children_def)

text \<open>How the set of active children changes with one activity count.\<close>

lemma children_set:
  assumes "h a = Some n"
  shows "children (h(a \<mapsto> n\<lparr>active := k\<rparr>)) b =
    (if owner_user_namespace n = OwnerRef b then (if 0 < k then insert a (children h b) else children h b - {a}) else children h b)"
  using assms by (auto simp: children_def split: if_splits)

lemma children_mem: "h a = Some n \<Longrightarrow> a \<in> children h b \<longleftrightarrow> owner_user_namespace n = OwnerRef b \<and> 0 < active n"
  by (simp add: children_def)

lemma indexed_set:
  assumes "indexed w P" and "heap w a = Some n"
    and "\<And>b. b \<noteq> a \<Longrightarrow> b \<in> P' \<longleftrightarrow> b \<in> P" and "(0 < k \<and> a \<notin> P') \<longleftrightarrow> (0 < active n \<and> a \<notin> P)"
  shows "indexed (set_active w a n k) P'"
proof -
  have g: "index_ok (heap w) (\<lambda>n. Some (ns_id n)) (active_global (reg w)) P" and
    k: "index_ok (heap w) (\<lambda>n. Some (kind_of n, ns_id n)) (active_kind (reg w)) P" and
    o: "index_ok (heap w) (owner_key (heap w)) (active_owner (reg w)) P"
    using assms(1) by (simp_all add: indexed_def)
  show ?thesis unfolding indexed_def set_active_def
    using index_active [OF g assms(2) _ assms(3,4)] index_active [OF k assms(2) _ assms(3,4)] index_active [OF o assms(2) _ assms(3,4)]
    by (simp add: owner_key_set [of "heap w" a n, OF assms(2)])
qed

lemma publish_world_ok:
  assumes idx: "indexed w (insert a P)" and ids: "ids_wf w" and wf: "heap_wf w"
    and n: "heap w a = Some n'" "n' = n\<lparr>active := k\<rparr>" "0 < k" "a \<notin> P"
  shows "returns (publish_world w a n) (\<lambda>w'. indexed w' P \<and> same_shape w w' \<and> heap w' = heap w)"
proof -
  have inj: "key_inj (heap w) (\<lambda>n. Some (ns_id n))" using ids by (simp add: ids_wf_def)
  have act: "0 < active n'" using n by simp
  obtain i where i: "owner_ns_id (heap w) n = Some i"
    using heap_wfD(5) [OF wf n(1)] n(2) by (cases "owner_user_namespace n") (fastforce simp: owner_ns_id_def)+
  have key: "owner_key (heap w) n' = (if kind_of n \<noteq> User \<or> \<not> is_initial n then Some (i, ns_id n) else None)"
    using i n(2) by (simp add: owner_key_def owner_ns_id_def split: ns_owner.splits)
  define r where "r = (reg w)\<lparr>active_global := (active_global (reg w))(ns_id n \<mapsto> a), active_kind := (active_kind (reg w))((kind_of n, ns_id n) \<mapsto> a)\<rparr>"
  have gl: "index_ok (heap w) (\<lambda>n. Some (ns_id n)) ((active_global (reg w))(ns_id n \<mapsto> a)) P"
    using index_publish [of "heap w" "\<lambda>n. Some (ns_id n)" _ a P n'] idx inj n act by (simp add: indexed_def)
  have kd: "index_ok (heap w) (\<lambda>n. Some (kind_of n, ns_id n)) ((active_kind (reg w))((kind_of n, ns_id n) \<mapsto> a)) P"
    using index_publish [of "heap w" "\<lambda>n. Some (kind_of n, ns_id n)" _ a P n'] idx kind_key_inj [OF inj] n act by (simp add: indexed_def)
  have ow: "index_ok (heap w) (owner_key (heap w)) (case owner_key (heap w) n' of Some k \<Rightarrow> (active_owner (reg w))(k \<mapsto> a) | None \<Rightarrow> active_owner (reg w)) P"
    by (rule index_publish [OF _ owner_key_inj [OF inj] n(1) act n(4)]) (use idx in \<open>simp add: indexed_def\<close>)
  show ?thesis
  proof (cases "kind_of n \<noteq> User \<or> \<not> is_initial n")
    case True
    then show ?thesis using gl kd ow key i
      by (simp add: publish_world_def publish_active_def indexed_def) (auto simp: same_shape_def)
  next
    case False
    then show ?thesis using gl kd ow key
      by (simp add: publish_world_def publish_active_def indexed_def) (auto simp: same_shape_def)
  qed
qed

end
