(* ===== verification/Namespaces_Run.thy ===== *)
theory Namespaces_Run
  imports Namespaces_Inv
begin

text \<open>
  The registry operations preserve the reference-count invariant and never fail: activation and
  release run to the end of the owner chain, in every order of operations.
\<close>

section \<open>Activation\<close>

lemma heap_set [simp]: "heap (set_active w a n k) = (heap w)(a \<mapsto> n\<lparr>active := k\<rparr>)"
  by (simp add: set_active_def)

lemma children_same:
  assumes "h a = Some n" and "0 < k \<longleftrightarrow> 0 < active n"
  shows "children (h(a \<mapsto> n\<lparr>active := k\<rparr>)) b = children h b"
  using assms children_mem [of h a n b] children_set [of h a n k b] by auto

lemma short_more:
  assumes h: "heap w a = Some n" and s: "short_at w f a" and pos: "0 < active n"
  shows "balanced (set_active w a n (active n + 1)) f"
  unfolding balanced_def
proof (intro allI impI)
  fix b m assume b: "heap (set_active w a n (active n + 1)) b = Some m" "\<not> is_initial m"
  have c: "children (heap (set_active w a n (active n + 1))) b = children (heap w) b"
    using children_same [of "heap w" a n "active n + 1" b, OF h] pos by simp
  show "active m = f b + card (children (heap (set_active w a n (active n + 1))) b)"
    using b s h unfolding c short_at_def by (cases "b = a") fastforce+
qed

lemma short_first:
  assumes wf: "heap_wf w" and h: "heap w a = Some n" and s: "short_at w f a" and zero: "active n = 0"
    and own: "owner_user_namespace n = OwnerRef own"
  shows "short_at (set_active w a n 1) f own"
  unfolding short_at_def
proof (intro allI impI)
  fix b m assume b: "heap (set_active w a n 1) b = Some m" "\<not> is_initial m"
  have ne: "own \<noteq> a" using heap_wfD(5) [OF wf h own] by simp
  have out: "a \<notin> children (heap w) b" using children_mem [of "heap w" a n b] h zero by simp
  have c: "card (children (heap (set_active w a n 1)) b) = card (children (heap w) b) + (if b = own then 1 else 0)"
    using children_set [of "heap w" a n 1 b] h own out children_finite [OF wf, of b] by (cases "b = own") simp_all
  show "active m + (if b = own then 1 else 0) = f b + card (children (heap (set_active w a n 1)) b)"
    using b s h ne zero unfolding c short_at_def by (cases "b = a") fastforce+
qed

definition grown :: "world \<Rightarrow> world \<Rightarrow> bool" where
  "grown w w' \<longleftrightarrow> (\<forall>b m. heap w b = Some m \<longrightarrow> 0 < active m \<longrightarrow> (\<exists>m'. heap w' b = Some m' \<and> 0 < active m'))"

definition room :: "world \<Rightarrow> bool" where
  "room w \<longleftrightarrow> (\<forall>b m. heap w b = Some m \<longrightarrow> active m < U64_MAX)"

definition acquired :: "(addr \<Rightarrow> nat) \<Rightarrow> addr set \<Rightarrow> world \<Rightarrow> world \<Rightarrow> bool" where
  "acquired f P w w' \<longleftrightarrow> heap_wf w' \<and> ids_wf w' \<and> balanced w' f \<and> indexed w' P \<and> same_shape w w' \<and> grown w w'"

lemma acquired_trans:
  assumes "same_shape w w1" and "grown w w1" and "acquired f P w1 w'"
  shows "acquired f P w w'"
  using assms same_shape_trans unfolding acquired_def grown_def by blast

lemma grown_set: "heap w a = Some n \<Longrightarrow> 0 < k \<Longrightarrow> grown w (set_active w a n k)"
  by (auto simp: grown_def)

lemma short_initial:
  assumes h: "heap w a = Some n" "is_initial n" and s: "short_at w f a \<or> long_at w f a"
  shows "balanced w f"
  unfolding balanced_def
proof (intro allI impI)
  fix b m assume b: "heap w b = Some m" "\<not> is_initial m"
  then have "b \<noteq> a" using h by auto
  then show "active m = f b + card (children (heap w) b)"
    using s b unfolding short_at_def long_at_def by fastforce
qed

lemma acquire_finish:
  assumes w: "acquired f (insert a P) w w'" and h: "heap w a = Some n1" "n1 = n\<lparr>active := 1\<rparr>" and a: "a \<notin> P"
  shows "returns (publish_world w' a n) (acquired f P w)"
proof -
  have "same_shape w w'" using w by (simp add: acquired_def)
  then obtain k where "heap w' a = Some (n1\<lparr>active := k\<rparr>)" using h(1) by (rule same_shapeD)
  then have k: "heap w' a = Some (n\<lparr>active := k\<rparr>)" using h(2) by simp
  have "\<exists>m'. heap w' a = Some m' \<and> 0 < active m'" using w h unfolding acquired_def grown_def by fastforce
  then have "0 < k" using k by auto
  then have "returns (publish_world w' a n) (\<lambda>v. indexed v P \<and> same_shape w' v \<and> heap v = heap w')"
    using w k a by (intro publish_world_ok) (auto simp: acquired_def)
  then show ?thesis
  proof (rule returns_mono)
    fix v assume v: "indexed v P \<and> same_shape w' v \<and> heap v = heap w'"
    have "heap_wf v" using w v by (auto simp: acquired_def heap_wf_def same_shape_def)
    moreover have "ids_wf v" using w v ids_wf_same by (auto simp: acquired_def)
    ultimately show "acquired f P w v" using w v same_shape_trans
      unfolding acquired_def balanced_def grown_def by simp blast
  qed
qed

lemma acquire_count_ok:
  assumes "heap_wf w" and "ids_wf w" and "indexed w P" and "short_at w f a" and "room w" and "heap w a = Some n" and "\<forall>p \<in> P. a < p"
  shows "returns (acquire_count_locked w a) (acquired f P w)"
  using assms
proof (induction a arbitrary: w P n rule: less_induct)
  case (less a)
  note wf = less.prems(1) and h = less.prems(6)
  show ?case
  proof (cases "is_initial n")
    case True
    then show ?thesis using less.prems short_initial [OF h True, of f]
      by (subst acquire_count_locked.simps) (auto simp: acquired_def grown_def)
  next
    case False
    have rm: "active n < U64_MAX" using less.prems(5) h by (auto simp: room_def)
    then have plus: "wrapping_add (active n) 1 = active n + 1" by (intro wrapping_add_eq) simp
    define w1 where "w1 = set_active w a n (active n + 1)"
    have wf1: "heap_wf w1" using heap_wf_set [OF wf h _ False] rm by (simp add: w1_def)
    have ids1: "ids_wf w1" using ids_wf_same [OF less.prems(2)] h by (simp add: w1_def)
    have sh: "same_shape w w1" "grown w w1" using h grown_set by (simp_all add: w1_def)
    obtain own where own: "owner_user_namespace n = OwnerRef own"
      using heap_wfD(4) [OF wf h] False by (cases "owner_user_namespace n") auto
    show ?thesis
    proof (cases "active n = 0")
      case False
      then have "indexed w1 P" using indexed_set [OF less.prems(3) h] by (simp add: w1_def)
      then have "acquired f P w w1" using short_more [OF h less.prems(4)] False wf1 ids1 sh by (simp add: acquired_def w1_def)
      then show ?thesis using False \<open>\<not> is_initial n\<close> h plus
        by (subst acquire_count_locked.simps) (simp add: w1_def)
    next
      case True
      have i1: "indexed w1 (insert a P)" unfolding w1_def by (rule indexed_set [OF less.prems(3) h]) (use True in auto)
      have s1: "short_at w1 f own" using short_first [OF wf h less.prems(4) True own] True by (simp add: w1_def)
      obtain m where m: "own < a" "heap w own = Some m" using heap_wfD(5) [OF wf h own] by blast
      have m1: "heap w1 own = Some m" using m by (simp add: w1_def)
      have r1: "room w1" using less.prems(5) True rm by (auto simp: room_def w1_def U64_MAX_def)
      have "returns (acquire_count_locked w1 own) (acquired f (insert a P) w1)"
        by (rule less.IH [OF m(1) wf1 ids1 i1 s1 r1 m1]) (use m less.prems(7) in auto)
      then have "returns (do { w' \<leftarrow> acquire_count_locked w1 own; publish_world w' a n }) (acquired f P w1)"
        by (rule returns_bind, intro acquire_finish [where ?n1.0 = "n\<lparr>active := 1\<rparr>"])
          (use True less.prems(7) in \<open>auto simp: w1_def\<close>)
      then have "returns (do { w' \<leftarrow> acquire_count_locked w1 own; publish_world w' a n }) (acquired f P w)"
        by (rule returns_mono) (rule acquired_trans [OF sh])
      then show ?thesis using True \<open>\<not> is_initial n\<close> h plus own
        by (subst acquire_count_locked.simps) (simp add: w1_def)
    qed
  qed
qed

lemma acquire_locked_count: "acquire_locked w a = acquire_count_locked w a"
  by (subst acquire_count_locked.simps) (auto simp: acquire_locked_def Let_def split: bind_splits)

section \<open>Release\<close>

lemma long_less:
  assumes h: "heap w a = Some n" and s: "long_at w f a" and k: "1 < active n"
  shows "balanced (set_active w a n (active n - 1)) f"
  unfolding balanced_def
proof (intro allI impI)
  fix b m assume b: "heap (set_active w a n (active n - 1)) b = Some m" "\<not> is_initial m"
  have c: "children (heap (set_active w a n (active n - 1))) b = children (heap w) b"
    using children_same [of "heap w" a n "active n - 1" b, OF h] k by simp
  show "active m = f b + card (children (heap (set_active w a n (active n - 1))) b)"
    using b s h unfolding c long_at_def by (cases "b = a") fastforce+
qed

lemma long_last:
  assumes wf: "heap_wf w" and h: "heap w a = Some n" and s: "long_at w f a" and one: "active n = 1"
    and own: "owner_user_namespace n = OwnerRef own"
  shows "long_at (set_active w a n 0) f own"
  unfolding long_at_def
proof (intro allI impI)
  fix b m assume b: "heap (set_active w a n 0) b = Some m" "\<not> is_initial m"
  have ne: "own \<noteq> a" using heap_wfD(5) [OF wf h own] by simp
  have mem: "a \<in> children (heap w) b \<longleftrightarrow> b = own" using children_mem [of "heap w" a n b] h one own by auto
  have c: "card (children (heap w) b) = card (children (heap (set_active w a n 0)) b) + (if b = own then 1 else 0)"
    using children_set [of "heap w" a n 0 b] h own mem children_finite [OF wf, of b] card_Suc_Diff1 [of "children (heap w) b" a]
    by (cases "b = own") simp_all
  show "active m = f b + card (children (heap (set_active w a n 0)) b) + (if b = own then 1 else 0)"
    using b s h ne one c unfolding long_at_def by (cases "b = a") fastforce+
qed

definition released :: "(addr \<Rightarrow> nat) \<Rightarrow> world \<Rightarrow> world \<Rightarrow> bool" where
  "released f w w' \<longleftrightarrow> heap_wf w' \<and> ids_wf w' \<and> balanced w' f \<and> indexed w' {} \<and> same_shape w w'"

lemma remove_active_ok:
  assumes idx: "indexed w {}" and ids: "ids_wf w" and wf: "heap_wf w" and h: "heap w a = Some n" and ni: "\<not> is_initial n"
  shows "\<exists>r. remove_active (heap (set_active w a n 0)) (reg (set_active w a n 0)) n = Some r \<and>
    indexed ((set_active w a n 0)\<lparr>reg := r\<rparr>) {} \<and> same_shape w ((set_active w a n 0)\<lparr>reg := r\<rparr>)"
proof -
  have inj: "key_inj (heap w) (\<lambda>n. Some (ns_id n))" using ids by (simp add: ids_wf_def)
  obtain i where i: "owner_ns_id (heap w) n = Some i"
    using heap_wfD(5) [OF wf h] by (cases "owner_user_namespace n") (fastforce simp: owner_ns_id_def)+
  have g: "index_ok (heap w) (\<lambda>n. Some (ns_id n)) (active_global (reg w)) {}" and
    k: "index_ok (heap w) (\<lambda>n. Some (kind_of n, ns_id n)) (active_kind (reg w)) {}" and
    o: "index_ok (heap w) (owner_key (heap w)) (active_owner (reg w)) {}"
    using idx by (simp_all add: indexed_def)
  have key: "owner_key (heap w) n = Some (i, ns_id n)" using i ni by (simp add: owner_key_def)
  note e = owner_key_set [of "heap w" a n, OF h] owner_ns_id_set [of "heap w" a n, OF h]
  show ?thesis
    using index_unpublish [OF g inj h] index_unpublish [OF k kind_key_inj [OF inj] h] index_unpublish [OF o owner_key_inj [OF inj] h] key i h
    by (simp add: remove_active_def e indexed_def) (auto simp: same_shape_def set_active_def)
qed

lemma release_count_ok:
  assumes "heap_wf w" and "ids_wf w" and "indexed w {}" and "long_at w f a" and "heap w a = Some n"
  shows "returns (release_count_locked w a) (released f w)"
  using assms
proof (induction a arbitrary: w n rule: less_induct)
  case (less a)
  note wf = less.prems(1) and h = less.prems(5)
  show ?case
  proof (cases "is_initial n")
    case True
    then have "balanced w f" using short_initial [OF h True] less.prems(4) by blast
    then show ?thesis using less.prems True
      by (subst release_count_locked.simps) (auto simp: released_def)
  next
    case False
    have pos: "0 < active n" using less.prems(4) h False by (auto simp: long_at_def)
    have minus: "wrapping_sub (active n) 1 = active n - 1" using pos heap_wfD(2) [OF wf h] by (intro wrapping_sub_eq) simp_all
    obtain own where own: "owner_user_namespace n = OwnerRef own"
      using heap_wfD(4) [OF wf h] False by (cases "owner_user_namespace n") auto
    define w1 where "w1 = set_active w a n (active n - 1)"
    have wf1: "heap_wf w1" using heap_wf_set [OF wf h _ False] heap_wfD(2) [OF wf h] by (simp add: w1_def)
    have ids1: "ids_wf w1" using ids_wf_same [OF less.prems(2)] h by (simp add: w1_def)
    show ?thesis
    proof (cases "active n = 1")
      case False
      then have k: "1 < active n" using pos by simp
      then have "indexed w1 {}" using indexed_set [OF less.prems(3) h] by (simp add: w1_def)
      then have "released f w w1" using long_less [OF h less.prems(4) k] wf1 ids1 h by (simp add: released_def w1_def)
      then show ?thesis using False \<open>\<not> is_initial n\<close> h minus pos
        by (subst release_count_locked.simps) (simp add: w1_def)
    next
      case True
      obtain r where r: "remove_active (heap w1) (reg w1) n = Some r" "indexed (w1\<lparr>reg := r\<rparr>) {}" "same_shape w (w1\<lparr>reg := r\<rparr>)"
        using remove_active_ok [OF less.prems(3,2) wf h False] True by (auto simp: w1_def)
      define w2 where "w2 = w1\<lparr>reg := r\<rparr>"
      have wf2: "heap_wf w2" using wf1 by (simp add: w2_def heap_wf_def)
      have ids2: "ids_wf w2" using ids_wf_same [OF less.prems(2) r(3)] by (simp add: w2_def)
      have l2: "long_at w2 f own" using long_last [OF wf h less.prems(4) True own] True by (simp add: w2_def w1_def long_at_def)
      obtain m where m: "own < a" "heap w own = Some m" using heap_wfD(5) [OF wf h own] by blast
      have "returns (release_count_locked w2 own) (released f w2)"
        by (rule less.IH [OF m(1) wf2 ids2 _ l2]) (use m r in \<open>auto simp: w2_def w1_def\<close>)
      then have "returns (release_count_locked w2 own) (released f w)"
        by (rule returns_mono) (use r(3) same_shape_trans in \<open>auto simp: released_def w2_def\<close>)
      then show ?thesis using True \<open>\<not> is_initial n\<close> h minus pos own r(1)
        by (subst release_count_locked.simps) (simp add: w1_def w2_def)
    qed
  qed
qed

end
