(* ===== verification/Namespaces_Reach.thy ===== *)
theory Namespaces_Reach
  imports Namespaces_Run
begin

text \<open>
  Every interleaving of registry operations: boot, allocation, handle clone and drop, activation of a
  pinned identity, and the drop of an identity that nothing refers to.
\<close>

section \<open>Adding and dropping objects\<close>

definition life_ok :: "world \<Rightarrow> bool" where
  "life_ok w \<longleftrightarrow> (\<forall>k i a. lifetime_by_id (reg w) (k, i) = Some a \<longleftrightarrow> (\<exists>n. heap w a = Some n \<and> kind_of n = k \<and> ident n = i))"

definition ns_inv :: "world \<Rightarrow> (addr \<Rightarrow> nat) \<Rightarrow> bool" where
  "ns_inv w f \<longleftrightarrow> heap_wf w \<and> ids_wf w \<and> balanced w f \<and> indexed w {} \<and> life_ok w \<and> (\<forall>a. heap w a = None \<longrightarrow> f a = 0) \<and>
     initial_ns (reg w) User \<noteq> None"

lemma same_life:
  assumes "life_ok w" and "same_shape w w'"
  shows "life_ok w'"
proof -
  have "(\<exists>n. heap w' a = Some n \<and> kind_of n = k \<and> ident n = i) \<longleftrightarrow> (\<exists>n. heap w a = Some n \<and> kind_of n = k \<and> ident n = i)" for a k i
  proof (cases "heap w a")
    case None
    then have "heap w' a = None" using assms(2) unfolding same_shape_def by blast
    then show ?thesis using None by simp
  next
    case (Some n)
    then obtain j where "heap w' a = Some (n\<lparr>active := j\<rparr>)" using same_shapeD [OF assms(2)] by blast
    then show ?thesis using Some by simp
  qed
  then show ?thesis using assms by (simp add: life_ok_def same_shape_def)
qed

lemma index_new:
  assumes "index_ok h key m {}" and "h a = None" and "\<And>b x. h b = Some x \<Longrightarrow> key' x = key x" and "a \<in> P \<or> active n = 0" and "P \<subseteq> {a}"
  shows "index_ok (h(a \<mapsto> n)) key' m P"
  unfolding index_ok_def
proof (intro allI)
  fix k b
  show "m k = Some b \<longleftrightarrow> (\<exists>x. (h(a \<mapsto> n)) b = Some x \<and> key' x = Some k \<and> 0 < active x \<and> b \<notin> P)"
    using index_okD [OF assms(1), of k b] assms(2-5) by (cases "b = a") auto
qed

lemma owner_key_new:
  assumes wf: "heap_wf w" and x: "heap w b = Some x"
  shows "owner_key ((heap w)(next_addr w \<mapsto> n)) x = owner_key (heap w) x"
proof -
  have "own \<noteq> next_addr w" if "owner_user_namespace x = OwnerRef own" for own
    using heap_wfD(1,5) [OF wf x] that by fastforce
  then show ?thesis by (auto simp: owner_key_def owner_ns_id_def split: ns_owner.splits)
qed

lemma fresh_addr: "heap_wf w \<Longrightarrow> heap w (next_addr w) = None"
  using heap_wfD(1) [of w "next_addr w"] by (cases "heap w (next_addr w)") auto

text \<open>What a new object must satisfy, and what the world looks like after it is added.\<close>

definition addable :: "world \<Rightarrow> namespace \<Rightarrow> bool" where
  "addable w n \<longleftrightarrow> node_wf (heap w) (next_addr w + 1) (next_addr w) n \<and>
     (\<forall>b m. heap w b = Some m \<longrightarrow> ns_id m \<noteq> ns_id n \<and> (kind_of m = kind_of n \<longrightarrow> ident m \<noteq> ident n))"

definition add_object :: "world \<Rightarrow> namespace \<Rightarrow> registry \<Rightarrow> world" where
  "add_object w n r = (fst (arc_new w n))\<lparr>reg := publish_lifetime r (next_addr w) n\<rparr>"

lemma add_object_wf:
  assumes wf: "heap_wf w" and ok: "addable w n"
  shows "heap_wf (add_object w n r)"
proof -
  have fr: "heap w (next_addr w) = None" by (rule fresh_addr [OF wf])
  have keep: "\<exists>m'. heap (add_object w n r) c = Some m' \<and> kind_of m' = kind_of m \<and> is_initial m' = is_initial m"
    if "heap w c = Some m" for c m
    using that fr by (intro exI [of _ m]) (auto simp: add_object_def arc_new_def)
  have "node_wf (heap (add_object w n r)) (next_addr w + 1) b x" if h: "heap (add_object w n r) b = Some x" for b x
  proof (cases "b = next_addr w")
    case True
    then have x: "x = n" using h by (simp add: add_object_def arc_new_def)
    have nw: "node_wf (heap w) (next_addr w + 1) b n" using ok True by (simp add: addable_def)
    then have "active n \<le> U64_MAX" by (simp add: node_wf_def)
    then show ?thesis unfolding x by (intro node_wf_mono [OF nw]) (simp_all add: keep)
  next
    case False
    then have hb: "heap w b = Some x" using h by (simp add: add_object_def arc_new_def)
    then have nw: "node_wf (heap w) (next_addr w) b x" using wf by (simp add: heap_wf_def)
    show ?thesis by (intro node_wf_mono [OF nw]) (simp_all add: keep heap_wfD(2) [OF wf hb])
  qed
  moreover have "finite (dom (heap (add_object w n r)))" using wf by (simp add: heap_wf_def add_object_def arc_new_def)
  ultimately show ?thesis unfolding heap_wf_def by (simp add: add_object_def arc_new_def)
qed

lemma add_object_inj:
  assumes "key_inj (heap w) key" and "\<And>b m k. heap w b = Some m \<Longrightarrow> key m = Some k \<Longrightarrow> key n \<noteq> Some k"
  shows "key_inj (heap (add_object w n r)) key"
  unfolding key_inj_def
proof (intro allI impI)
  fix a x b y k
  assume h: "heap (add_object w n r) a = Some x" "heap (add_object w n r) b = Some y" and k: "key x = Some k" "key y = Some k"
  then show "a = b"
    using key_injD [OF assms(1), of a x b y k] assms(2) [of a x k] assms(2) [of b y k]
    by (auto simp: add_object_def arc_new_def split: if_splits)
qed

lemma add_object_keys:
  assumes ids: "ids_wf w" and ok: "addable w n"
  shows "key_inj (heap (add_object w n r)) (\<lambda>n. Some (ns_id n))" "key_inj (heap (add_object w n r)) (\<lambda>n. Some (kind_of n, ident n))"
proof -
  have d: "ns_id m \<noteq> ns_id n" "kind_of m = kind_of n \<Longrightarrow> ident m \<noteq> ident n" if "heap w b = Some m" for b m
    using ok that unfolding addable_def by blast+
  show "key_inj (heap (add_object w n r)) (\<lambda>n. Some (ns_id n))"
    by (rule add_object_inj, use ids in \<open>simp add: ids_wf_def\<close>, use d(1) in fastforce)
  show "key_inj (heap (add_object w n r)) (\<lambda>n. Some (kind_of n, ident n))"
    by (rule add_object_inj, use ids in \<open>simp add: ids_wf_def\<close>, use d(2) in fastforce)
qed

lemma add_object_life:
  assumes life: "life_ok w" and wf: "heap_wf w" and ok: "addable w n" and r: "lifetime_by_id r = lifetime_by_id (reg w)"
  shows "life_ok (add_object w n r)"
  unfolding life_ok_def
proof (intro allI)
  fix k i a
  have old: "lifetime_by_id (reg w) (k, i) = Some a \<longleftrightarrow> (\<exists>x. heap w a = Some x \<and> kind_of x = k \<and> ident x = i)"
    using life by (simp add: life_ok_def)
  show "lifetime_by_id (reg (add_object w n r)) (k, i) = Some a \<longleftrightarrow>
      (\<exists>x. heap (add_object w n r) a = Some x \<and> kind_of x = k \<and> ident x = i)"
    using old ok r fresh_addr [OF wf] unfolding addable_def
    by (auto simp: add_object_def arc_new_def publish_lifetime_def split: if_splits)
qed

lemma add_object_indexed:
  assumes idx: "indexed w {}" and wf: "heap_wf w" and P: "next_addr w \<in> P \<or> active n = 0" "P \<subseteq> {next_addr w}"
    and r: "active_global r = active_global (reg w)" "active_kind r = active_kind (reg w)" "active_owner r = active_owner (reg w)"
  shows "indexed (add_object w n r) P"
proof -
  note fr = fresh_addr [OF wf]
  have g: "index_ok (heap w) (\<lambda>n. Some (ns_id n)) (active_global (reg w)) {}" and
    k: "index_ok (heap w) (\<lambda>n. Some (kind_of n, ns_id n)) (active_kind (reg w)) {}" and
    o: "index_ok (heap w) (owner_key (heap w)) (active_owner (reg w)) {}"
    using idx by (simp_all add: indexed_def)
  show ?thesis
    using index_new [OF g fr refl P] index_new [OF k fr refl P] index_new [OF o fr _ P] owner_key_new [OF wf] r
    by (simp add: indexed_def add_object_def arc_new_def publish_lifetime_def)
qed

lemma add_object_children:
  assumes wf: "heap_wf w" and n: "active n = 0"
  shows "children (heap (add_object w n r)) b = children (heap w) b"
  using n fresh_addr [OF wf] by (auto simp: children_def add_object_def arc_new_def)

lemma children_empty: "heap_wf w \<Longrightarrow> heap w a = None \<Longrightarrow> children (heap w) a = {}"
  using heap_wfD(5) by (fastforce simp: children_def)

section \<open>The initial namespaces\<close>

definition booting :: "world \<Rightarrow> namespace_kind set \<Rightarrow> bool" where
  "booting w K \<longleftrightarrow> heap_wf w \<and> ids_wf w \<and> indexed w {} \<and> life_ok w \<and>
     (\<forall>a n. heap w a = Some n \<longrightarrow> is_initial n \<and> kind_of n \<in> K \<and> ns_id n = initial_ns_id (kind_of n))"

lemma initial_ns_id_inj: "initial_ns_id a = initial_ns_id b \<Longrightarrow> a = b"
  by (cases a; cases b) simp_all

lemma initial_ns_id_less: "initial_ns_id a < 10"
  by (cases a) simp_all

lemma add_initial_ok:
  assumes w: "booting w K" and kind: "kind \<notin> K"
    and ow: "ow = InitialUser \<and> kind = User \<or> (\<exists>u m. ow = OwnerRef u \<and> heap w u = Some m \<and> kind_of m = User)"
  shows "returns (add_initial w kind ow) (\<lambda>(w', a). booting w' (insert kind K) \<and> heap w' = (heap w)(a \<mapsto> initial_namespace kind ow) \<and>
    initial_ns (reg w') = (initial_ns (reg w))(kind \<mapsto> a))"
proof -
  define n where "n = initial_namespace kind ow"
  define w1 where "w1 = add_object w n (reg w)"
  have nf: "kind_of n = kind" "ident n = 0" "ns_id n = initial_ns_id kind" "active n = 1" "is_initial n" "parent n = None"
    "owner_user_namespace n = ow"
    by (simp_all add: n_def initial_namespace_def is_initial_def)
  note B = w [unfolded booting_def]
  have ids0: "ids_wf w" and wf0: "heap_wf w" using B by auto
  have other: "kind_of m \<noteq> kind" "ns_id m \<noteq> initial_ns_id kind" if "heap w b = Some m" for b m
    using B kind that initial_ns_id_inj [of "kind_of m" kind] by auto
  have "node_wf (heap w) (next_addr w + 1) (next_addr w) n"
    using ow nf B heap_wfD(1) [OF wf0] unfolding node_wf_def by (auto simp: U64_MAX_def split: ns_owner.splits)
  then have ok: "addable w n" using nf other by (auto simp: addable_def)
  have wf1: "heap_wf w1" using add_object_wf [OF _ ok] B by (simp add: w1_def)
  have i1: "indexed w1 {next_addr w}" using B by (auto simp: w1_def intro: add_object_indexed)
  have life1: "life_ok w1" using B ok by (auto simp: w1_def intro: add_object_life)
  have regs: "next_ns_id_nr (reg w1) = next_ns_id_nr (reg w)" "next_id_of (reg w1) = next_id_of (reg w)" "initial_ns (reg w1) = initial_ns (reg w)"
    by (simp_all add: w1_def add_object_def publish_lifetime_def)
  have h1: "heap w1 = (heap w)(next_addr w \<mapsto> n)" by (simp add: w1_def add_object_def arc_new_def)
  have "key_inj (heap w1) (\<lambda>n. Some (ns_id n))" "key_inj (heap w1) (\<lambda>n. Some (kind_of n, ident n))"
    using add_object_keys [OF ids0 ok] by (simp_all add: w1_def)
  moreover have "ns_id n < next_ns_id_nr (reg w)" "ident n < next_id_of (reg w) (kind_of n)"
  proof -
    have "10 \<le> next_ns_id_nr (reg w)" "1 \<le> next_id_of (reg w) kind" using ids0 by (simp_all add: ids_wf_def FIRST_DYNAMIC_NS_ID_def FIRST_DYNAMIC_ID_def)
    then show "ns_id n < next_ns_id_nr (reg w)" "ident n < next_id_of (reg w) (kind_of n)" using initial_ns_id_less [of kind] nf by simp_all
  qed
  ultimately have ids1: "ids_wf w1" using ids0 unfolding ids_wf_def regs h1 by auto
  have pub: "returns (publish_world w1 (next_addr w) n) (\<lambda>w'. indexed w' {} \<and> same_shape w1 w' \<and> heap w' = heap w1)"
    using i1 ids1 wf1 h1 nf by (intro publish_world_ok [where k = 1 and n' = n]) auto
  have eq: "add_initial w kind ow = (publish_world w1 (next_addr w) n \<bind>
      (\<lambda>w'. Some (w'\<lparr>reg := (reg w')\<lparr>initial_ns := (initial_ns (reg w'))(kind \<mapsto> next_addr w)\<rparr>\<rparr>, next_addr w)))"
    by (cases "publish_active (heap w1) (reg w1) (next_addr w) n")
      (simp_all add: add_initial_def publish_world_def w1_def add_object_def arc_new_def n_def)
  show ?thesis unfolding eq
  proof (rule returns_bind [OF pub])
    fix w' assume w': "indexed w' {} \<and> same_shape w1 w' \<and> heap w' = heap w1"
    let ?v = "w'\<lparr>reg := (reg w')\<lparr>initial_ns := (initial_ns (reg w'))(kind \<mapsto> next_addr w)\<rparr>\<rparr>"
    have "heap_wf ?v" using wf1 w' by (simp add: heap_wf_def same_shape_def)
    moreover have "ids_wf ?v" using ids1 w' by (simp add: ids_wf_def same_shape_def)
    moreover have "indexed ?v {}" using conjunct1 [OF w'] by (simp add: indexed_def)
    moreover have "life_ok ?v" using life1 w' by (simp add: life_ok_def same_shape_def)
    ultimately have "booting ?v (insert kind K)" using B w' nf h1 by (auto simp: booting_def)
    then show "returns (Some (?v, next_addr w)) (\<lambda>(w', a). booting w' (insert kind K) \<and>
        heap w' = (heap w)(a \<mapsto> initial_namespace kind ow) \<and> initial_ns (reg w') = (initial_ns (reg w))(kind \<mapsto> a))"
      using w' h1 regs by (simp add: same_shape_def n_def)
  qed
qed

lemma add_initials_ok:
  assumes "booting w K" and "distinct kinds" and "set kinds \<inter> (K - {User}) = {}" and "User \<in> K"
    and "heap w user = Some u" and "kind_of u = User" and "initial_ns (reg w) User \<noteq> None"
  shows "returns (add_initials w user kinds) (\<lambda>w'. booting w' (K \<union> set kinds) \<and> initial_ns (reg w') User \<noteq> None \<and> heap w' user = Some u)"
  using assms
proof (induction kinds arbitrary: w K u)
  case (Cons kind kinds)
  show ?case
  proof (cases "kind = User")
    case True
    then show ?thesis using Cons by (simp add: insert_absorb)
  next
    case False
    have st: "returns (add_initial w kind (OwnerRef user)) (\<lambda>(w', a). booting w' (insert kind K) \<and>
        heap w' = (heap w)(a \<mapsto> initial_namespace kind (OwnerRef user)) \<and> initial_ns (reg w') = (initial_ns (reg w))(kind \<mapsto> a))"
      using Cons.prems False by (intro add_initial_ok) auto
    have "returns (do { (w, _) \<leftarrow> add_initial w kind (OwnerRef user); add_initials w user kinds })
        (\<lambda>w'. booting w' (insert kind (K \<union> set kinds)) \<and> initial_ns (reg w') User \<noteq> None \<and> heap w' user = Some u)"
    proof (rule returns_bind [OF st], unfold split_paired_all prod.case, elim conjE)
      fix w' a
      assume w': "booting w' (insert kind K)" "heap w' = (heap w)(a \<mapsto> initial_namespace kind (OwnerRef user))"
        "initial_ns (reg w') = (initial_ns (reg w))(kind \<mapsto> a)"
      have "heap_wf w'" using w'(1) by (simp add: booting_def)
      then have "a \<noteq> user" using heap_wfD(5) [of w' a "initial_namespace kind (OwnerRef user)"] w'(2)
        by (auto simp: initial_namespace_def)
      then show "returns (add_initials w' user kinds) (\<lambda>w'. booting w' (insert kind (K \<union> set kinds)) \<and> initial_ns (reg w') User \<noteq> None \<and> heap w' user = Some u)"
        using Cons.IH [of w' "insert kind K" u] Cons.prems w' False by auto
    qed
    then show ?thesis using False by simp
  qed
qed simp

definition empty_world :: world where
  "empty_world = \<lparr>heap = Map.empty, next_addr = 0, reg = registry_new\<rparr>"

lemma booting_empty: "booting empty_world {}"
  by (auto simp: booting_def empty_world_def registry_new_def heap_wf_def ids_wf_def key_inj_def indexed_def index_ok_def life_ok_def)

lemma initialize_ok: "returns (initialize empty_world) (\<lambda>w. ns_inv w (\<lambda>_. 0) \<and> (\<exists>u n. heap w u = Some n \<and> kind_of n = User \<and> is_initial n) \<and> room w)"
proof -
  have "returns (add_initial empty_world User InitialUser) (\<lambda>(w', a). booting w' (insert User {}) \<and>
      heap w' = (heap empty_world)(a \<mapsto> initial_namespace User InitialUser) \<and> initial_ns (reg w') = (initial_ns (reg empty_world))(User \<mapsto> a))"
    by (rule add_initial_ok [OF booting_empty]) simp_all
  then have "returns (do { (w, user) \<leftarrow> add_initial empty_world User InitialUser; add_initials w user ALL_KINDS })
      (\<lambda>w. ns_inv w (\<lambda>_. 0) \<and> (\<exists>u n. heap w u = Some n \<and> kind_of n = User \<and> is_initial n) \<and> room w)"
  proof (rule returns_bind, unfold split_paired_all prod.case, elim conjE)
    fix w a
    assume w: "booting w {User}" "heap w = (heap empty_world)(a \<mapsto> initial_namespace User InitialUser)"
      "initial_ns (reg w) = (initial_ns (reg empty_world))(User \<mapsto> a)"
    have "returns (add_initials w a ALL_KINDS) (\<lambda>w'. booting w' ({User} \<union> set ALL_KINDS) \<and> initial_ns (reg w') User \<noteq> None \<and>
        heap w' a = Some (initial_namespace User InitialUser))"
      using w by (intro add_initials_ok [where u = "initial_namespace User InitialUser"]) (auto simp: ALL_KINDS_def initial_namespace_def)
    then show "returns (add_initials w a ALL_KINDS) (\<lambda>w. ns_inv w (\<lambda>_. 0) \<and> (\<exists>u n. heap w u = Some n \<and> kind_of n = User \<and> is_initial n) \<and> room w)"
    proof (rule returns_mono)
      fix w' assume w': "booting w' ({User} \<union> set ALL_KINDS) \<and> initial_ns (reg w') User \<noteq> None \<and>
        heap w' a = Some (initial_namespace User InitialUser)"
      have "kind_of (initial_namespace User InitialUser) = User" "is_initial (initial_namespace User InitialUser)"
        by (simp_all add: initial_namespace_def is_initial_def)
      then have "\<exists>u n. heap w' u = Some n \<and> kind_of n = User \<and> is_initial n" using w' by blast
      moreover have "room w'"
        unfolding room_def
      proof (intro allI impI)
        fix b m assume b: "heap w' b = Some m"
        then have "is_initial m" using w' by (auto simp: booting_def)
        then have "active m = 1" using w' heap_wfD(3) [OF _ b] by (simp add: booting_def)
        then show "active m < U64_MAX" by (simp add: U64_MAX_def)
      qed
      moreover have "ns_inv w' (\<lambda>_. 0)" using w' by (auto simp: booting_def ns_inv_def balanced_def)
      ultimately show "ns_inv w' (\<lambda>_. 0) \<and> (\<exists>u n. heap w' u = Some n \<and> kind_of n = User \<and> is_initial n) \<and> room w'" by blast
    qed
  qed
  moreover have "initialize empty_world = do { (w, user) \<leftarrow> add_initial empty_world User InitialUser; add_initials w user ALL_KINDS }"
    by (simp add: initialize_def empty_world_def registry_new_def ALL_KINDS_def)
  ultimately show ?thesis by simp
qed

lemma initialize_once: "ns_inv w f \<Longrightarrow> initialize w = Some w"
  by (auto simp: initialize_def ns_inv_def ALL_KINDS_def)

section \<open>Allocation\<close>

lemma scope_loop_ok:
  assumes wf: "heap_wf w" and "p = None \<or> (\<exists>a n. p = Some a \<and> heap w a = Some n)"
  shows "\<exists>s'. scope_loop w s p = Some s'"
proof (cases p)
  case None
  then show ?thesis by (subst scope_loop.simps) simp
next
  case (Some a)
  then obtain n where "heap w a = Some n" using assms(2) by auto
  then have "\<exists>s'. scope_loop w s (Some a) = Some s'"
  proof (induction a arbitrary: s n rule: less_induct)
    case (less a)
    show ?case
    proof (cases "parent n")
      case None
      then show ?thesis using less.prems
        by (subst scope_loop.simps) (simp, subst scope_loop.simps, simp)
    next
      case (Some q)
      then obtain m where "q < a" "heap w q = Some m" using heap_wfD(6) [OF wf less.prems] by blast
      then obtain s' where "scope_loop w (max s (memfd_scope n)) (Some q) = Some s'" using less.IH by blast
      then show ?thesis using less.prems Some by (subst scope_loop.simps) simp
    qed
  qed
  then show ?thesis using Some by simp
qed

definition allocated_ns :: "world \<Rightarrow> (addr \<Rightarrow> nat) \<Rightarrow> namespace_kind \<Rightarrow> addr \<Rightarrow> world \<times> (alloc_error + addr) \<Rightarrow> bool" where
  "allocated_ns w f kind own wr \<longleftrightarrow> (case wr of
     (w', Inl err) \<Rightarrow> ns_inv w' f \<and> heap w' = heap w
   | (w', Inr a) \<Rightarrow> ns_inv w' f \<and> heap w a = None \<and> f a = 0 \<and>
       (\<exists>n. heap w' = (heap w)(a \<mapsto> n) \<and> kind_of n = kind \<and> owner_user_namespace n = OwnerRef own \<and> active n = 0 \<and> \<not> is_initial n \<and>
          finalizers n = []))"

lemma ns_inv_reg:
  assumes "ns_inv w f" and "next_ns_id_nr (reg w) \<le> next_ns_id_nr r" and "\<And>kind. next_id_of (reg w) kind \<le> next_id_of r kind"
    and "initial_ns r = initial_ns (reg w)" "lifetime_by_id r = lifetime_by_id (reg w)" "active_global r = active_global (reg w)"
      "active_kind r = active_kind (reg w)" "active_owner r = active_owner (reg w)"
  shows "ns_inv (w\<lparr>reg := r\<rparr>) f"
proof -
  have "ids_wf (w\<lparr>reg := r\<rparr>)"
    using assms(1) order.trans [OF _ assms(2)] order.trans [OF _ assms(3)] less_le_trans [OF _ assms(2)] less_le_trans [OF _ assms(3)]
    unfolding ns_inv_def ids_wf_def by simp
  then show ?thesis using assms by (simp add: ns_inv_def heap_wf_def balanced_def indexed_def life_ok_def)
qed

lemma add_object_inv:
  assumes inv: "ns_inv w f" and ok: "addable w n" and act: "active n = 0"
    and id: "ns_id n < next_ns_id_nr (reg w)" "ident n < next_id_of (reg w) (kind_of n)"
  shows "ns_inv (add_object w n (reg w)) f"
proof -
  note I = inv [unfolded ns_inv_def]
  have wf: "heap_wf w" and ids: "ids_wf w" using I by auto
  define w1 where "w1 = add_object w n (reg w)"
  have h1: "heap w1 = (heap w)(next_addr w \<mapsto> n)" by (simp add: w1_def add_object_def arc_new_def)
  have regs: "next_ns_id_nr (reg w1) = next_ns_id_nr (reg w)" "next_id_of (reg w1) = next_id_of (reg w)" "initial_ns (reg w1) = initial_ns (reg w)"
    by (simp_all add: w1_def add_object_def publish_lifetime_def)
  have "ids_wf w1" using ids id add_object_keys [OF ids ok, of "reg w"]
    unfolding ids_wf_def regs w1_def [symmetric] by (auto simp: h1)
  moreover have "balanced w1 f"
    unfolding balanced_def w1_def add_object_children [OF wf act] using I act fresh_addr [OF wf] children_empty [OF wf]
    by (auto simp: balanced_def add_object_def arc_new_def)
  moreover have "indexed w1 {}" using I act by (auto simp: w1_def intro: add_object_indexed)
  moreover have "life_ok w1" using I ok by (auto simp: w1_def intro: add_object_life)
  moreover have "heap_wf w1" using add_object_wf [OF wf ok] by (simp add: w1_def)
  ultimately show ?thesis using I by (auto simp: ns_inv_def h1 regs w1_def [symmetric])
qed

lemma allocate_inactive_ok:
  assumes inv: "ns_inv w f" and own: "heap w own = Some u" and par: "\<And>p. par = Some p \<Longrightarrow> heap w p \<noteq> None"
  shows "returns (allocate_inactive w kind own par) (allocated_ns w f kind own)"
proof -
  note I = inv [unfolded ns_inv_def]
  have wf: "heap_wf w" and ids: "ids_wf w" using I by auto
  define bad where "bad = (case par of None \<Rightarrow> False | Some p \<Rightarrow> kind_of (the (heap w p)) \<noteq> kind)"
  have bad: "(case par of None \<Rightarrow> Some False | Some p \<Rightarrow> do { m \<leftarrow> heap w p; Some (kind_of m \<noteq> kind) }) = Some bad"
    using par by (cases par) (auto simp: bad_def)
  have good: "\<exists>m. heap w p = Some m \<and> kind_of m = kind" if "\<not> bad" "par = Some p" for p
    using that par [OF that(2)] by (auto simp: bad_def)
  show ?thesis
  proof (cases "kind_of u = User \<and> \<not> bad")
    case False
    then show ?thesis using own bad inv by (auto simp: allocate_inactive_def allocated_ns_def)
  next
    case True
    have "\<exists>scope. (if kind = Pid then (case par of None \<Rightarrow> Some 0 | Some p \<Rightarrow> do { m \<leftarrow> heap w p; r \<leftarrow> pid_memfd_noexec_scope w m;
        (case r of Inr s \<Rightarrow> Some s | Inl _ \<Rightarrow> None) }) else Some 0) = Some scope"
    proof (cases "kind = Pid \<and> par \<noteq> None")
      case True
      then obtain p m where m: "par = Some p" "heap w p = Some m" "kind_of m = Pid" using good \<open>kind_of u = User \<and> \<not> bad\<close> by blast
      have "parent m = None \<or> (\<exists>a n. parent m = Some a \<and> heap w a = Some n)" using heap_wfD(6) [OF wf m(2)] by (cases "parent m") auto
      then obtain s where "scope_loop w (memfd_scope m) (parent m) = Some s" using scope_loop_ok [OF wf] by blast
      then show ?thesis using m True by (simp add: pid_memfd_noexec_scope_def)
    qed auto
    then obtain scope where scope: "(if kind = Pid then (case par of None \<Rightarrow> Some 0 | Some p \<Rightarrow> do { m \<leftarrow> heap w p; r \<leftarrow> pid_memfd_noexec_scope w m;
        (case r of Inr s \<Rightarrow> Some s | Inl _ \<Rightarrow> None) }) else Some 0) = Some scope" by blast
    note un = allocate_inactive_def allocate_inactive_inner_def initialize_once [OF inv] own bad Option.bind.bind_lunit scope
    note kn = True
    show ?thesis
    proof (cases "next_id_of (reg w) kind = U64_MAX \<or> next_ns_id_nr (reg w) = U64_MAX \<or> next_ino_nr (reg w) = U64_MAX")
      case True
      then show ?thesis using kn unfolding un
        by (auto simp: next_id_def next_ns_id_def next_nsfs_ino_def Let_def allocated_ns_def intro!: ns_inv_reg inv)
    next
      case False
      define r where "r = (reg w)\<lparr>next_id_of := (next_id_of (reg w))(kind := next_id_of (reg w) kind + 1),
        next_ns_id_nr := next_ns_id_nr (reg w) + 1, next_ino_nr := next_ino_nr (reg w) + 1\<rparr>"
      define n where "n = \<lparr>kind_of = kind, ident = next_id_of (reg w) kind, ns_id = next_ns_id_nr (reg w), nsfs_ino = next_ino_nr (reg w),
        owner_user_namespace = OwnerRef own, parent = par, memfd_scope = scope, pid_numbers = pid_for_kind kind False, active = 0, finalizers = []\<rparr>"
      have w1: "ns_inv (w\<lparr>reg := r\<rparr>) f" by (rule ns_inv_reg [OF inv]) (simp_all add: r_def)
      have "0 < next_id_of (reg w) kind" using ids by (simp add: ids_wf_def FIRST_DYNAMIC_ID_def Suc_le_eq)
      then have ni: "\<not> is_initial n" by (simp add: n_def is_initial_def)
      have "node_wf (heap w) (next_addr w + 1) (next_addr w) n"
        using ni own kn good heap_wfD(1) [OF wf] unfolding node_wf_def by (auto simp: n_def)
      moreover have "ns_id m \<noteq> ns_id n \<and> (kind_of m = kind_of n \<longrightarrow> ident m \<noteq> ident n)" if h: "heap w b = Some m" for b m
      proof -
        have "ns_id m < next_ns_id_nr (reg w)" "ident m < next_id_of (reg w) (kind_of m)" using ids h by (auto simp: ids_wf_def)
        then show ?thesis by (auto simp: n_def)
      qed
      ultimately have ok: "addable (w\<lparr>reg := r\<rparr>) n" by (simp add: addable_def)
      have inv': "ns_inv (add_object (w\<lparr>reg := r\<rparr>) n r) f"
        using add_object_inv [OF w1 ok] by (simp add: n_def r_def)
      have "allocate_inactive w kind own par = Some (add_object (w\<lparr>reg := r\<rparr>) n r, Inr (next_addr w))"
        using False kn unfolding un
        by (simp add: next_id_def next_ns_id_def next_nsfs_ino_def Let_def arc_new_def add_object_def n_def r_def)
      moreover have "heap w (next_addr w) = None" "f (next_addr w) = 0" using fresh_addr [OF wf] I by auto
      ultimately show ?thesis using inv' ni
        by (simp add: allocated_ns_def) (auto simp: add_object_def arc_new_def n_def)
    qed
  qed
qed

end
