(* ===== verification/Namespaces_Props.thy ===== *)
theory Namespaces_Props
  imports Namespaces_Reach
begin

text \<open>
  The reachable states of the namespace registry and what holds in all of them. The second component
  of a configuration counts the \<open>NamespaceRef\<close> handles the rest of the kernel holds.
\<close>

section \<open>Reachable configurations\<close>

inductive ns_step :: "world \<Rightarrow> (addr \<Rightarrow> nat) \<Rightarrow> world \<Rightarrow> (addr \<Rightarrow> nat) \<Rightarrow> bool" where
  ns_clone: "heap w a = Some n \<Longrightarrow> is_initial n \<or> 0 < f a \<Longrightarrow> room w \<Longrightarrow> clone_ref w a = Some w' \<Longrightarrow> ns_step w f w' (f(a := f a + 1))"
| ns_drop_ref: "0 < f a \<Longrightarrow> release_active w a = Some w' \<Longrightarrow> ns_step w f w' (f(a := f a - 1))"
| ns_activate: "heap w a = Some n \<Longrightarrow> room w \<Longrightarrow> acquire_locked w a = Some w' \<Longrightarrow> ns_step w f w' (f(a := f a + 1))"
| ns_allocate: "heap w own = Some u \<Longrightarrow> \<forall>p. par = Some p \<longrightarrow> heap w p \<noteq> None \<Longrightarrow>
     allocate_inactive w kind own par = Some (w', r) \<Longrightarrow> ns_step w f w' f"
| ns_finalizer: "register_finalizer w a g = Some w' \<Longrightarrow> ns_step w f w' f"
| ns_scope: "set_pid_memfd_noexec_scope w a s = Some (w', r) \<Longrightarrow> ns_step w f w' f"
| ns_new_id: "allocate_ns_id w = (w', r) \<Longrightarrow> ns_step w f w' f"
| ns_new_ino: "allocate_nsfs_ino w = (w', i) \<Longrightarrow> ns_step w f w' f"

inductive ns_reach :: "world \<Rightarrow> (addr \<Rightarrow> nat) \<Rightarrow> bool" where
  ns_boot: "initialize empty_world = Some w \<Longrightarrow> ns_reach w (\<lambda>_. 0)"
| ns_live: "ns_reach w f \<Longrightarrow> ns_step w f w' f' \<Longrightarrow> ns_reach w' f'"
| ns_free: "ns_reach w f \<Longrightarrow> heap w a = Some n \<Longrightarrow> \<not> is_initial n \<Longrightarrow> f a = 0 \<Longrightarrow>
     \<forall>b m. heap w b = Some m \<longrightarrow> owner_user_namespace m \<noteq> OwnerRef a \<and> parent m \<noteq> Some a \<Longrightarrow>
     drop_namespace w a = Some (w', fs) \<Longrightarrow> ns_reach w' f"

section \<open>Every step keeps the invariant\<close>

lemma acquire_inv:
  assumes inv: "ns_inv w f" and h: "heap w a = Some n" and rm: "room w"
  shows "returns (acquire_locked w a) (\<lambda>w'. ns_inv w' (f(a := f a + 1)) \<and> same_shape w w')"
proof -
  note I = inv [unfolded ns_inv_def]
  have s: "short_at w (f(a := f a + 1)) a" using I unfolding short_at_def balanced_def by auto
  have "returns (acquire_count_locked w a) (acquired (f(a := f a + 1)) {} w)"
    by (rule acquire_count_ok [OF _ _ _ s rm h]) (use I in auto)
  then show ?thesis unfolding acquire_locked_count
  proof (rule returns_mono)
    fix w' assume w': "acquired (f(a := f a + 1)) {} w w'"
    have "life_ok w'" using I w' same_life by (auto simp: acquired_def)
    moreover have "\<forall>b. heap w' b = None \<longrightarrow> (f(a := f a + 1)) b = 0"
      using I w' h by (auto simp: acquired_def same_shape_def)
    ultimately show "ns_inv w' (f(a := f a + 1)) \<and> same_shape w w'" using I w' same_shape_def by (auto simp: ns_inv_def acquired_def)
  qed
qed

lemma release_inv:
  assumes inv: "ns_inv w f" and pos: "0 < f a"
  shows "returns (release_active w a) (\<lambda>w'. ns_inv w' (f(a := f a - 1)) \<and> same_shape w w')"
proof -
  note I = inv [unfolded ns_inv_def]
  obtain n where h: "heap w a = Some n" using I pos by (cases "heap w a") auto
  have l: "long_at w (f(a := f a - 1)) a" using I pos unfolding long_at_def balanced_def by auto
  show ?thesis
  proof (cases "is_initial n")
    case True
    then have "balanced w (f(a := f a - 1))" using I h unfolding balanced_def by auto
    then have "ns_inv w (f(a := f a - 1))" using I h by (auto simp: ns_inv_def)
    then show ?thesis using True h by (simp add: release_active_def)
  next
    case False
    have "returns (release_count_locked w a) (released (f(a := f a - 1)) w)"
      by (rule release_count_ok [OF _ _ _ l h]) (use I in auto)
    then have "returns (release_count_locked w a) (\<lambda>w'. ns_inv w' (f(a := f a - 1)) \<and> same_shape w w')"
    proof (rule returns_mono)
      fix w' assume w': "released (f(a := f a - 1)) w w'"
      have "life_ok w'" using I w' same_life by (auto simp: released_def)
      moreover have "\<forall>b. heap w' b = None \<longrightarrow> (f(a := f a - 1)) b = 0"
        using I w' h by (auto simp: released_def same_shape_def)
      ultimately show "ns_inv w' (f(a := f a - 1)) \<and> same_shape w w'" using I w' same_shape_def by (auto simp: ns_inv_def released_def)
    qed
    then show ?thesis using False h by (simp add: release_active_def)
  qed
qed

lemma clone_inv:
  assumes inv: "ns_inv w f" and h: "heap w a = Some n" "is_initial n \<or> 0 < f a" and rm: "room w"
  shows "returns (clone_ref w a) (\<lambda>w'. ns_inv w' (f(a := f a + 1)) \<and> same_shape w w')"
proof (cases "is_initial n")
  case True
  then have "acquire_locked w a = clone_ref w a" using h by (simp add: acquire_locked_def clone_ref_def)
  then show ?thesis using acquire_inv [OF inv h(1) rm] by simp
next
  case False
  then have "0 < active n" using h inv by (auto simp: ns_inv_def balanced_def)
  then have "acquire_locked w a = clone_ref w a" using h False by (simp add: acquire_locked_def clone_ref_def)
  then show ?thesis using acquire_inv [OF inv h(1) rm] by simp
qed

lemma key_inj_replace: "key_inj h key \<Longrightarrow> h a = Some n \<Longrightarrow> key n' = key n \<Longrightarrow> key_inj (h(a \<mapsto> n')) key"
  unfolding key_inj_def by (auto split: if_splits)

lemma index_replace:
  assumes "index_ok h key m {}" and "h a = Some n" and "key' n' = key n" and "active n' = active n"
    and "\<And>b x. h b = Some x \<Longrightarrow> key' x = key x"
  shows "index_ok (h(a \<mapsto> n')) key' m {}"
  unfolding index_ok_def
proof (intro allI)
  fix k b
  show "m k = Some b \<longleftrightarrow> (\<exists>x. (h(a \<mapsto> n')) b = Some x \<and> key' x = Some k \<and> 0 < active x \<and> b \<notin> {})"
    using index_okD [OF assms(1), of k b] assms(2-5) by (cases "b = a") auto
qed

lemma replace_inv:
  assumes inv: "ns_inv w f" and h: "heap w a = Some n"
    and n': "kind_of n' = kind_of n" "ident n' = ident n" "ns_id n' = ns_id n" "owner_user_namespace n' = owner_user_namespace n"
      "parent n' = parent n" "active n' = active n"
  shows "ns_inv (w\<lparr>heap := (heap w)(a \<mapsto> n')\<rparr>) f"
proof -
  note I = inv [unfolded ns_inv_def]
  define h' where "h' = (heap w)(a \<mapsto> n')"
  have ini: "is_initial n' = is_initial n" using n' by (simp add: is_initial_def)
  have own: "owner_ns_id h' x = owner_ns_id (heap w) x" for x
    using h n' by (auto simp: owner_ns_id_def h'_def split: ns_owner.splits)
  have own': "owner_key h' n' = owner_key (heap w) n"
    unfolding owner_key_def own ini n' using n' by (cases "owner_user_namespace n") (simp_all add: owner_ns_id_def)
  have keep: "\<exists>m'. h' c = Some m' \<and> kind_of m' = kind_of x \<and> is_initial m' = is_initial x" if "heap w c = Some x" for c x
    using that h n' ini by (auto simp: h'_def)
  have nodes: "node_wf h' (next_addr w) b m" if hb: "h' b = Some m" for b m
  proof -
    obtain m' where m': "heap w b = Some m'" "kind_of m = kind_of m'" "is_initial m = is_initial m'" "active m = active m'"
      "owner_user_namespace m = owner_user_namespace m'" "parent m = parent m'"
      using hb h n' ini by (cases "b = a") (auto simp: h'_def)
    have nw: "node_wf (heap w) (next_addr w) b m'" using I m'(1) by (auto simp: heap_wf_def)
    then have "active m' \<le> U64_MAX" by (simp add: node_wf_def)
    then show ?thesis using m' keep by (intro node_wf_mono [OF nw]) simp_all
  qed
  have ch: "children h' b = children (heap w) b" for b using h n' by (auto simp: children_def h'_def)
  have g: "index_ok (heap w) (\<lambda>n. Some (ns_id n)) (active_global (reg w)) {}" and
    k: "index_ok (heap w) (\<lambda>n. Some (kind_of n, ns_id n)) (active_kind (reg w)) {}" and
    o: "index_ok (heap w) (owner_key (heap w)) (active_owner (reg w)) {}"
    using I by (simp_all add: indexed_def)
  have own_all: "owner_key h' x = owner_key (heap w) x" for x by (simp add: owner_key_def own)
  have "index_ok h' (\<lambda>n. Some (ns_id n)) (active_global (reg w)) {}"
    unfolding h'_def by (rule index_replace [OF g h]) (simp_all add: n')
  moreover have "index_ok h' (\<lambda>n. Some (kind_of n, ns_id n)) (active_kind (reg w)) {}"
    unfolding h'_def by (rule index_replace [OF k h]) (simp_all add: n')
  moreover have "index_ok ((heap w)(a \<mapsto> n')) (owner_key h') (active_owner (reg w)) {}"
    by (rule index_replace [OF o h own' n'(6) own_all])
  ultimately have "indexed (w\<lparr>heap := h'\<rparr>) {}" by (simp add: indexed_def h'_def)
  moreover have "heap_wf (w\<lparr>heap := h'\<rparr>)" using I nodes by (simp add: heap_wf_def h'_def)
  moreover have "ids_wf (w\<lparr>heap := h'\<rparr>)"
    using I h n' key_inj_replace [of "heap w" "\<lambda>n. Some (ns_id n)" a n n'] key_inj_replace [of "heap w" "\<lambda>n. Some (kind_of n, ident n)" a n n']
    by (auto simp: ids_wf_def h'_def)
  moreover have "balanced (w\<lparr>heap := h'\<rparr>) f" using I h n' ini unfolding balanced_def by (auto simp: ch) (auto simp: h'_def split: if_splits)
  moreover have "life_ok (w\<lparr>heap := h'\<rparr>)"
  proof -
    have "(\<exists>x. h' b = Some x \<and> kind_of x = j \<and> ident x = i) \<longleftrightarrow> (\<exists>x. heap w b = Some x \<and> kind_of x = j \<and> ident x = i)" for b j i
      using h n' by (auto simp: h'_def)
    then show ?thesis using I by (simp add: life_ok_def)
  qed
  moreover have "\<forall>b. h' b = None \<longrightarrow> f b = 0" using I by (auto simp: h'_def)
  ultimately show ?thesis using I by (simp add: ns_inv_def h'_def)
qed

lemma key_inj_del: "key_inj h key \<Longrightarrow> key_inj (h(a := None)) key"
  unfolding key_inj_def by (auto split: if_splits)

lemma index_del:
  assumes "index_ok h key m {}" and "h a = Some n" and "active n = 0" and "\<And>b x. h b = Some x \<Longrightarrow> key' x = key x"
  shows "index_ok (h(a := None)) key' m {}"
  unfolding index_ok_def
proof (intro allI)
  fix k b
  show "m k = Some b \<longleftrightarrow> (\<exists>x. (h(a := None)) b = Some x \<and> key' x = Some k \<and> 0 < active x \<and> b \<notin> {})"
    using index_okD [OF assms(1), of k b] assms(2-4) by (cases "b = a") auto
qed

lemma free_inv:
  assumes inv: "ns_inv w f" and h: "heap w a = Some n" and ni: "\<not> is_initial n" and f: "f a = 0"
    and ref: "\<forall>b m. heap w b = Some m \<longrightarrow> owner_user_namespace m \<noteq> OwnerRef a \<and> parent m \<noteq> Some a"
  shows "returns (drop_namespace w a) (\<lambda>(w', fs). ns_inv w' f \<and> heap w' = (heap w)(a := None) \<and> fs = finalizers n)"
proof -
  note I = inv [unfolded ns_inv_def]
  define h' where "h' = (heap w)(a := None)"
  define r where "r = remove w a n"
  define w' where "w' = w\<lparr>reg := r, heap := h'\<rparr>"
  have "children (heap w) a = {}" using ref by (auto simp: children_def)
  then have act: "active n = 0" using I h ni f by (auto simp: balanced_def)
  have life: "lifetime_by_id (reg w) (kind_of n, ident n) = Some a" using I h by (auto simp: life_ok_def)
  have r': "initial_ns r = initial_ns (reg w)" "next_ns_id_nr r = next_ns_id_nr (reg w)" "next_id_of r = next_id_of (reg w)"
    "active_global r = active_global (reg w)" "active_kind r = active_kind (reg w)" "active_owner r = active_owner (reg w)"
    "lifetime_by_id r = (lifetime_by_id (reg w))((kind_of n, ident n) := None)"
    using life by (simp_all add: r_def remove_def Let_def)
  have ch: "children h' b = children (heap w) b" for b using act h by (auto simp: children_def h'_def)
  have own: "owner_key h' x = owner_key (heap w) x" if "heap w b = Some x" for b x
    using ref that by (auto simp: owner_key_def owner_ns_id_def h'_def split: ns_owner.splits)
  have nodes: "node_wf h' (next_addr w) b m" if hb: "h' b = Some m" for b m
  proof -
    have m: "heap w b = Some m" using hb by (simp add: h'_def split: if_splits)
    then have "node_wf (heap w) (next_addr w) b m" using I by (auto simp: heap_wf_def)
    then show ?thesis using ref m unfolding node_wf_def h'_def by (auto split: ns_owner.splits)
  qed
  have "ids_wf w'" using I by (auto simp: ids_wf_def w'_def r' h'_def key_inj_del split: if_splits)
  moreover have "heap_wf w'" using I nodes by (simp add: heap_wf_def w'_def h'_def)
  moreover have "indexed w' {}"
  proof -
    have g: "index_ok (heap w) (\<lambda>n. Some (ns_id n)) (active_global (reg w)) {}" and
      k: "index_ok (heap w) (\<lambda>n. Some (kind_of n, ns_id n)) (active_kind (reg w)) {}" and
      o: "index_ok (heap w) (owner_key (heap w)) (active_owner (reg w)) {}"
      using I by (simp_all add: indexed_def)
    show ?thesis using index_del [OF g h act refl] index_del [OF k h act refl] index_del [OF o h act own]
      by (simp add: indexed_def w'_def r' h'_def)
  qed
  moreover have "balanced w' f" using I by (auto simp: balanced_def w'_def ch) (auto simp: h'_def split: if_splits)
  moreover have "life_ok w'"
    unfolding life_ok_def
  proof (intro allI)
    fix j i b
    have old: "lifetime_by_id (reg w) (j, i) = Some b \<longleftrightarrow> (\<exists>x. heap w b = Some x \<and> kind_of x = j \<and> ident x = i)"
      using I by (simp add: life_ok_def)
    have uniq: "b = a" if "heap w b = Some x" "kind_of x = kind_of n" "ident x = ident n" for x
      using I key_injD [of "heap w" "\<lambda>n. Some (kind_of n, ident n)" b x a n] that h by (auto simp: ids_wf_def)
    show "lifetime_by_id (reg w') (j, i) = Some b \<longleftrightarrow> (\<exists>x. heap w' b = Some x \<and> kind_of x = j \<and> ident x = i)"
    proof (cases "b = a \<or> (j, i) = (kind_of n, ident n)")
      case True
      then have "lifetime_by_id (reg w') (j, i) \<noteq> Some b" using old h by (auto simp: w'_def r')
      moreover have "\<not> (\<exists>x. heap w' b = Some x \<and> kind_of x = j \<and> ident x = i)" using True uniq by (auto simp: w'_def h'_def)
      ultimately show ?thesis by blast
    next
      case False
      then have "lifetime_by_id (reg w') (j, i) = lifetime_by_id (reg w) (j, i)" "heap w' b = heap w b"
        by (auto simp: w'_def r' h'_def)
      then show ?thesis using old by simp
    qed
  qed
  moreover have "\<forall>b. h' b = None \<longrightarrow> f b = 0" using I f by (auto simp: h'_def)
  ultimately have "ns_inv w' f" using I by (simp add: ns_inv_def r' w'_def)
  then show ?thesis using h by (simp add: drop_namespace_def w'_def r_def h'_def)
qed

lemma counter_inv:
  assumes inv: "ns_inv w f" and h: "heap w' = heap w" "next_addr w' = next_addr w"
    and r: "reg w' = (reg w)\<lparr>next_ns_id_nr := k, next_ino_nr := l\<rparr>" "next_ns_id_nr (reg w) \<le> k"
  shows "ns_inv w' f"
proof -
  note I = inv [unfolded ns_inv_def]
  have "heap_wf w'" using I h by (simp add: heap_wf_def)
  moreover have "ids_wf w'" using I h r unfolding ids_wf_def by (auto intro: less_le_trans)
  moreover have "balanced w' f" "indexed w' {}" "life_ok w'"
    using I h r by (simp_all add: balanced_def indexed_def life_ok_def)
  ultimately show ?thesis using I h r by (simp add: ns_inv_def)
qed

lemma ns_step_inv:
  assumes "ns_step w f w' f'" and "ns_inv w f"
  shows "ns_inv w' f'"
  using assms
proof (induction rule: ns_step.induct)
  case (ns_clone w a n f w')
  then show ?case using clone_inv [of w f a n] by (auto simp: returns_def fun_upd_def)
next
  case (ns_drop_ref f a w w')
  then show ?case using release_inv [of w f a] by (auto simp: returns_def fun_upd_def)
next
  case (ns_activate w a n w' f)
  then show ?case using acquire_inv [of w f a n] by (auto simp: returns_def fun_upd_def)
next
  case (ns_allocate w own u par kind w' r f)
  then have "returns (allocate_inactive w kind own par) (allocated_ns w f kind own)" by (intro allocate_inactive_ok) auto
  then show ?case using ns_allocate(3) by (cases r) (auto simp: returns_def allocated_ns_def)
next
  case (ns_finalizer w a g w' f)
  then obtain n where n: "heap w a = Some n" "w' = w \<or> w' = w\<lparr>heap := (heap w)(a \<mapsto> n\<lparr>finalizers := finalizers n @ [g]\<rparr>)\<rparr>"
    by (auto simp: register_finalizer_def split: bind_splits if_splits)
  then show ?case using ns_finalizer replace_inv [OF ns_finalizer(2) n(1), of "n\<lparr>finalizers := finalizers n @ [g]\<rparr>"] by auto
next
  case (ns_scope w a s w' r f)
  then obtain n where n: "heap w a = Some n" "w' = w \<or> w' = w\<lparr>heap := (heap w)(a \<mapsto> n\<lparr>memfd_scope := s\<rparr>)\<rparr>"
    by (auto simp: set_pid_memfd_noexec_scope_def Let_def split: bind_splits if_splits option.splits sum.splits)
  then show ?case using ns_scope replace_inv [OF ns_scope(2) n(1), of "n\<lparr>memfd_scope := s\<rparr>"] by auto
next
  case (ns_new_id w w' r f)
  then show ?case
    by (intro counter_inv [OF ns_new_id(2), where k = "next_ns_id_nr (reg w')" and l = "next_ino_nr (reg w)"])
      (auto simp: allocate_ns_id_def next_ns_id_def Let_def split: if_splits)
next
  case (ns_new_ino w w' r f)
  then show ?case
    by (intro counter_inv [OF ns_new_ino(2), where k = "next_ns_id_nr (reg w)" and l = "next_ino_nr (reg w')"])
      (auto simp: allocate_nsfs_ino_def next_nsfs_ino_def Let_def split: if_splits)
qed

lemma ns_reach_inv:
  assumes "ns_reach w f"
  shows "ns_inv w f"
  using assms
proof (induction rule: ns_reach.induct)
  case (ns_boot w)
  then show ?case using initialize_ok by (auto simp: returns_def)
next
  case (ns_live w f w' f')
  then show ?case using ns_step_inv by blast
next
  case (ns_free w f a n w' fs)
  then show ?case using free_inv [of w f a n] by (auto simp: returns_def)
qed

lemma owner_active:
  assumes inv: "ns_inv w f" and h: "heap w a = Some n" and act: "0 < active n" and own: "owner_user_namespace n = OwnerRef own"
  shows "\<exists>m. heap w own = Some m \<and> kind_of m = User \<and> 0 < active m"
proof -
  have wf: "heap_wf w" using inv by (simp add: ns_inv_def)
  obtain m where m: "heap w own = Some m" "kind_of m = User" using heap_wfD(5) [OF wf h own] by blast
  have "a \<in> children (heap w) own" using h act own by (simp add: children_def)
  then have "0 < card (children (heap w) own)" using children_finite [OF wf] card_gt_0_iff by blast
  then have "0 < active m" using inv m heap_wfD(3) [OF wf m(1)] by (cases "is_initial m") (auto simp: ns_inv_def balanced_def)
  then show ?thesis using m by blast
qed

text \<open>A concrete run: boot, take a handle on the initial user namespace.\<close>

lemma ns_example: "\<exists>w f a n. ns_reach w f \<and> 0 < f a \<and> heap w a = Some n \<and> room w"
proof -
  obtain w u n where w: "initialize empty_world = Some w" "heap w u = Some n" "room w" "is_initial n"
    using initialize_ok by (auto simp: returns_def)
  have r: "ns_reach w (\<lambda>_. 0)" by (rule ns_boot [OF w(1)])
  have "clone_ref w u = Some w" using w by (simp add: clone_ref_def)
  then have "ns_reach w ((\<lambda>_. 0)(u := 0 + 1))" using ns_live [OF r ns_clone [OF w(2) _ w(3)]] w(4) by blast
  then show ?thesis using w by (intro exI [of _ w] exI [of _ "(\<lambda>_. 0)(u := 0 + 1)"] exI [of _ u]) auto
qed

section \<open>Properties\<close>

text \<open>C24: in every reachable state the activity count of a dynamic namespace is the number of its handles plus
  the number of active namespaces it owns, and a namespace can be found by its global id, or by its
  kind and id, exactly while it is active.\<close>

theorem namespace_refcount:
  assumes "ns_reach w f"
  shows "(\<forall>a n. heap w a = Some n \<and> \<not> is_initial n \<longrightarrow>
       active n = f a + card {b. \<exists>m. heap w b = Some m \<and> owner_user_namespace m = OwnerRef a \<and> 0 < active m}) \<and>
     (\<forall>i a. lookup_ns_id w i = Some a \<longleftrightarrow> (\<exists>n. heap w a = Some n \<and> ns_id n = i \<and> 0 < active n)) \<and>
     (\<forall>kind i a. lookup w kind i = Some a \<longleftrightarrow> (\<exists>n. heap w a = Some n \<and> kind_of n = kind \<and> ident n = i \<and> 0 < active n))"
proof (intro conjI)
  note I = ns_reach_inv [OF assms, unfolded ns_inv_def]
  show "\<forall>a n. heap w a = Some n \<and> \<not> is_initial n \<longrightarrow>
       active n = f a + card {b. \<exists>m. heap w b = Some m \<and> owner_user_namespace m = OwnerRef a \<and> 0 < active m}"
    using I unfolding balanced_def children_def by blast
  have g: "active_global (reg w) i = Some a \<longleftrightarrow> (\<exists>n. heap w a = Some n \<and> ns_id n = i \<and> 0 < active n)" for i a
    using I by (auto simp: indexed_def index_ok_def)
  show "\<forall>i a. lookup_ns_id w i = Some a \<longleftrightarrow> (\<exists>n. heap w a = Some n \<and> ns_id n = i \<and> 0 < active n)"
    using g by (auto simp: lookup_ns_id_def upgrade_pin_def bind_eq_Some_conv split: option.splits if_splits)
  have l: "lifetime_by_id (reg w) (kind, i) = Some a \<longleftrightarrow> (\<exists>n. heap w a = Some n \<and> kind_of n = kind \<and> ident n = i)" for kind i a
    using I by (simp add: life_ok_def)
  show "\<forall>kind i a. lookup w kind i = Some a \<longleftrightarrow> (\<exists>n. heap w a = Some n \<and> kind_of n = kind \<and> ident n = i \<and> 0 < active n)"
    using l by (auto simp: lookup_def upgrade_pin_def bind_eq_Some_conv split: option.splits if_splits)
qed

theorem namespace_refcount_witness: "\<exists>w f a n. ns_reach w f \<and> 0 < f a \<and> heap w a = Some n \<and>
    (\<forall>i b. lookup_ns_id w i = Some b \<longleftrightarrow> (\<exists>n. heap w b = Some n \<and> ns_id n = i \<and> 0 < active n))"
  using ns_example namespace_refcount by blast



text \<open>C26: activating any live identity returns: the walk up the owner chain ends, and afterwards the
  identity is held and active.\<close>

theorem activation_returns:
  assumes "ns_reach w f" and "heap w a = Some n" and "room w"
  shows "\<exists>w' n'. acquire_locked w a = Some w' \<and> ns_reach w' (f(a := f a + 1)) \<and> heap w' a = Some n' \<and> 0 < active n'"
proof -
  obtain w' where w': "acquire_locked w a = Some w'" "ns_inv w' (f(a := f a + 1))"
    using acquire_inv [OF ns_reach_inv [OF assms(1)] assms(2,3)] by (auto simp: returns_def)
  then have r: "ns_reach w' (f(a := f a + 1))" using ns_live [OF assms(1)] ns_activate [OF assms(2,3)] by blast
  have "heap w' a \<noteq> None"
  proof
    assume "heap w' a = None"
    then have "(f(a := f a + 1)) a = 0" using w'(2) unfolding ns_inv_def by blast
    then show False by simp
  qed
  then obtain n' where n': "heap w' a = Some n'" by blast
  moreover have "0 < active n'"
    using w'(2) n' heap_wfD(3) [of w' a n'] by (cases "is_initial n'") (auto simp: ns_inv_def balanced_def)
  ultimately show ?thesis using w'(1) r by blast
qed

theorem activation_returns_witness: "\<exists>w f a n w'. ns_reach w f \<and> heap w a = Some n \<and> acquire_locked w a = Some w'"
  using ns_example activation_returns by blast

text \<open>The dynamic inode counter runs into the inodes of the initial namespaces: the request number
  \<open>0x7CFFFFFD\<close> returns the inode of the initial user namespace, so the inode index of a long-running
  system ends up naming the wrong namespace.\<close>

theorem nsfs_ino_collides:
  "\<exists>k. snd (next_nsfs_ino (((\<lambda>r. fst (next_nsfs_ino r)) ^^ k) registry_new)) = Inr (initial_nsfs_ino User)"
proof -
  have step: "next_ino_nr (((\<lambda>r. fst (next_nsfs_ino r)) ^^ k) registry_new) = FIRST_DYNAMIC_NSFS_INO + k"
    if "FIRST_DYNAMIC_NSFS_INO + k \<le> U64_MAX" for k
    using that by (induction k) (simp_all add: registry_new_def next_nsfs_ino_def Let_def)
  define k :: nat where "k = 0xEFFFFFFD - FIRST_DYNAMIC_NSFS_INO"
  have k: "FIRST_DYNAMIC_NSFS_INO + k = 0xEFFFFFFD" by (simp add: k_def FIRST_DYNAMIC_NSFS_INO_def MNT_INIT_NSFS_INO_def)
  then have "next_ino_nr (((\<lambda>r. fst (next_nsfs_ino r)) ^^ k) registry_new) = 0xEFFFFFFD"
    using step [of k] by (simp add: U64_MAX_def)
  then show ?thesis by (intro exI [of _ k]) (simp add: next_nsfs_ino_def U64_MAX_def)
qed

end
