(* ===== verification/Userns.thy ===== *)
theory Userns
  imports Idmap Namespaces_Props
begin

text \<open>
  The per-namespace state of user namespaces (\<open>user-namespace/src/engine.rs\<close>, \<open>resolve.rs\<close>): the three
  id maps, the \<open>setgroups\<close> policy and the creator's uid, keyed by the numeric identity of the
  namespace, and the write rules. The global \<open>STATE\<close> table and the namespace registry form one
  machine: a write registers the finalizer that drops the entry when the namespace object dies.
\<close>

section \<open>State\<close>

datatype id_map_kind = MapUid | MapGid | MapProjid

fun overflow :: "id_map_kind \<Rightarrow> overflow_id" where
  "overflow MapUid = OverflowUid"
| "overflow MapGid = OverflowGid"
| "overflow MapProjid = OverflowProjid"

fun write_needs_privilege :: "id_map_kind \<Rightarrow> bool" where
  "write_needs_privilege MapUid = True"
| "write_needs_privilege MapGid = True"
| "write_needs_privilege MapProjid = False"

datatype setgroups_policy = SgAllow | SgDeny

datatype user_ns_error = WrongKind | InitialOwner | NoParent | AlreadyPopulated | EmptyExtents | TooManyExtents
  | ZeroCount | RangeOverflow | ExtentsOverlap | UnprivilegedNotOwnId | SetgroupsMustDenyFirst | SetgroupsLockedAfterGidMap

fun from_extent_error :: "extent_error \<Rightarrow> user_ns_error" where
  "from_extent_error ExtEmpty = EmptyExtents"
| "from_extent_error ExtTooMany = TooManyExtents"
| "from_extent_error ExtZeroCount = ZeroCount"
| "from_extent_error ExtRangeOverflow = RangeOverflow"
| "from_extent_error ExtOverlap = ExtentsOverlap"

record user_ns_state =
  uid_map :: "extent list option"
  gid_map :: "extent list option"
  projid_map :: "extent list option"
  setgroups :: setgroups_policy
  owner_uid :: "u32 option"

definition user_ns_default :: user_ns_state where
  "user_ns_default = \<lparr>uid_map = None, gid_map = None, projid_map = None, setgroups = SgAllow, owner_uid = None\<rparr>"

definition INITIAL_OWNER_EUID :: u32 where "INITIAL_OWNER_EUID = 0"

type_synonym states = "u64 \<rightharpoonup> user_ns_state"

record system =
  nsw :: world
  st_users :: states

section \<open>Operations\<close>

definition owner_id :: "namespace \<Rightarrow> user_ns_error + u64" where
  "owner_id n = (if kind_of n \<noteq> User then Inl WrongKind else Inr (ident n))"

definition require_writable_owner :: "namespace \<Rightarrow> user_ns_error + u64" where
  "require_writable_owner n =
     (case owner_id n of
        Inl err \<Rightarrow> Inl err
      | Inr i \<Rightarrow>
          if is_initial n then Inl InitialOwner
          else if parent n = None then Inl NoParent
          else Inr i)"

definition userns_remove :: "namespace_kind \<Rightarrow> u64 \<Rightarrow> states \<Rightarrow> states" where
  "userns_remove kind i s = (if kind = User then s(i := None) else s)"

definition initial_map :: "extent list" where
  "initial_map = [\<lparr>ext_ns_id = INITIAL_NS_ID, ext_host_id = INITIAL_HOST_ID, ext_count = INITIAL_COUNT\<rparr>]"

fun map_field :: "user_ns_state \<Rightarrow> id_map_kind \<Rightarrow> extent list option" where
  "map_field s MapUid = uid_map s"
| "map_field s MapGid = gid_map s"
| "map_field s MapProjid = projid_map s"

fun map_field_mut :: "user_ns_state \<Rightarrow> id_map_kind \<Rightarrow> extent list option \<Rightarrow> user_ns_state" where
  "map_field_mut s MapUid v = s\<lparr>uid_map := v\<rparr>"
| "map_field_mut s MapGid v = s\<lparr>gid_map := v\<rparr>"
| "map_field_mut s MapProjid v = s\<lparr>projid_map := v\<rparr>"

definition or_default :: "states \<Rightarrow> u64 \<Rightarrow> user_ns_state" where
  "or_default s i = (case s i of Some x \<Rightarrow> x | None \<Rightarrow> user_ns_default)"

definition snapshot_map :: "states \<Rightarrow> namespace \<Rightarrow> id_map_kind \<Rightarrow> user_ns_error + extent list" where
  "snapshot_map s n kind =
     (case owner_id n of
        Inl err \<Rightarrow> Inl err
      | Inr _ \<Rightarrow>
          if is_initial n then Inr initial_map
          else Inr (case s (ident n) of None \<Rightarrow> [] | Some x \<Rightarrow> (case map_field x kind of Some m \<Rightarrow> m | None \<Rightarrow> [])))"

definition with_map :: "states \<Rightarrow> namespace \<Rightarrow> id_map_kind \<Rightarrow> (extent list \<Rightarrow> 'r) \<Rightarrow> user_ns_error + 'r" where
  "with_map s n kind f =
     (case owner_id n of
        Inl err \<Rightarrow> Inl err
      | Inr _ \<Rightarrow>
          if is_initial n then Inr (f [\<lparr>ext_ns_id = INITIAL_NS_ID, ext_host_id = INITIAL_HOST_ID, ext_count = INITIAL_COUNT\<rparr>])
          else Inr (f (case s (ident n) of None \<Rightarrow> [] | Some x \<Rightarrow> (case map_field x kind of Some m \<Rightarrow> m | None \<Rightarrow> []))))"

definition register_owner :: "states \<Rightarrow> namespace \<Rightarrow> u32 \<Rightarrow> states \<times> (user_ns_error + unit)" where
  "register_owner s n euid =
     (case owner_id n of
        Inl err \<Rightarrow> (s, Inl err)
      | Inr i \<Rightarrow> (s(i \<mapsto> (or_default s i)\<lparr>owner_uid := Some euid\<rparr>), Inr ()))"

definition owner_euid :: "states \<Rightarrow> namespace \<Rightarrow> user_ns_error + u32 option" where
  "owner_euid s n =
     (case owner_id n of
        Inl err \<Rightarrow> Inl err
      | Inr _ \<Rightarrow> if is_initial n then Inr (Some INITIAL_OWNER_EUID) else Inr (s (ident n) \<bind> owner_uid))"

definition setgroups_policy_of :: "states \<Rightarrow> namespace \<Rightarrow> user_ns_error + setgroups_policy" where
  "setgroups_policy_of s n =
     (case owner_id n of
        Inl err \<Rightarrow> Inl err
      | Inr _ \<Rightarrow> if is_initial n then Inr SgAllow
          else Inr (case s (ident n) of Some x \<Rightarrow> setgroups x | None \<Rightarrow> SgAllow))"

text \<open>The function pointer of \<open>remove\<close> among the finalizers of a namespace.\<close>

definition REMOVE_FINALIZER :: nat where "REMOVE_FINALIZER = 1"

definition own_id_only :: "id_map_kind \<Rightarrow> bool \<Rightarrow> u32 \<Rightarrow> extent list \<Rightarrow> bool" where
  "own_id_only kind cap own es \<longleftrightarrow>
     (write_needs_privilege kind \<and> \<not> cap \<longrightarrow>
        length es = 1 \<and> ext_count (hd es) = 1 \<and> ext_host_id (hd es) = own)"

definition write_map ::
    "system \<Rightarrow> addr \<Rightarrow> id_map_kind \<Rightarrow> bool \<Rightarrow> u32 \<Rightarrow> extent list \<Rightarrow> (system \<times> (user_ns_error + unit)) option" where
  "write_map u a kind cap own es = do {
     n \<leftarrow> heap (nsw u) a;
     (case require_writable_owner n of
        Inl err \<Rightarrow> Some (u, Inl err)
      | Inr i \<Rightarrow>
          (case validate_extents es of
             Inl err \<Rightarrow> Some (u, Inl (from_extent_error err))
           | Inr _ \<Rightarrow>
               if \<not> own_id_only kind cap own es then Some (u, Inl UnprivilegedNotOwnId)
               else do {
                 let s = or_default (st_users u) i;
                 let u = u\<lparr>st_users := (st_users u)(i \<mapsto> s)\<rparr>;
                 (if map_field s kind \<noteq> None then Some (u, Inl AlreadyPopulated)
                  else if kind = MapGid \<and> \<not> cap \<and> setgroups s \<noteq> SgDeny then Some (u, Inl SetgroupsMustDenyFirst)
                  else do {
                    let u = u\<lparr>st_users := (st_users u)(i \<mapsto> map_field_mut s kind (Some es))\<rparr>;
                    w \<leftarrow> register_finalizer (nsw u) a REMOVE_FINALIZER;
                    Some (u\<lparr>nsw := w\<rparr>, Inr ())
                  })
               }))
   }"

definition write_setgroups :: "system \<Rightarrow> addr \<Rightarrow> setgroups_policy \<Rightarrow> (system \<times> (user_ns_error + unit)) option" where
  "write_setgroups u a policy = do {
     n \<leftarrow> heap (nsw u) a;
     (case require_writable_owner n of
        Inl err \<Rightarrow> Some (u, Inl err)
      | Inr i \<Rightarrow> do {
          let s = or_default (st_users u) i;
          let u = u\<lparr>st_users := (st_users u)(i \<mapsto> s)\<rparr>;
          (if gid_map s \<noteq> None then Some (u, Inl SetgroupsLockedAfterGidMap)
           else do {
             let u = u\<lparr>st_users := (st_users u)(i \<mapsto> s\<lparr>setgroups := policy\<rparr>)\<rparr>;
             w \<leftarrow> register_finalizer (nsw u) a REMOVE_FINALIZER;
             Some (u\<lparr>nsw := w\<rparr>, Inr ())
           })
        })
   }"

definition resolve_to_host :: "states \<Rightarrow> namespace \<Rightarrow> id_map_kind \<Rightarrow> u32 \<Rightarrow> user_ns_error + u32 option" where
  "resolve_to_host s n kind x =
     (if x = INVALID_ID then Inr None else with_map s n kind (\<lambda>m. to_host_checked m x))"

definition resolve_to_ns :: "states \<Rightarrow> namespace \<Rightarrow> id_map_kind \<Rightarrow> u32 \<Rightarrow> user_ns_error + u32" where
  "resolve_to_ns s n kind x = with_map s n kind (\<lambda>m. to_ns m x (overflow kind))"

definition is_mapped :: "states \<Rightarrow> namespace \<Rightarrow> id_map_kind \<Rightarrow> u32 \<Rightarrow> user_ns_error + bool" where
  "is_mapped s n kind x = with_map s n kind (\<lambda>m. has_mapping m x)"

fun run_finalizers :: "nat list \<Rightarrow> namespace_kind \<Rightarrow> u64 \<Rightarrow> states \<Rightarrow> states" where
  "run_finalizers [] kind i s = s"
| "run_finalizers (g # gs) kind i s =
     run_finalizers gs kind i (if g = REMOVE_FINALIZER then userns_remove kind i s else s)"

definition drop_object :: "system \<Rightarrow> addr \<Rightarrow> system option" where
  "drop_object u a = do {
     n \<leftarrow> heap (nsw u) a;
     (w, fs) \<leftarrow> drop_namespace (nsw u) a;
     Some (u\<lparr>nsw := w, st_users := run_finalizers fs (kind_of n) (ident n) (st_users u)\<rparr>)
   }"

section \<open>Runs\<close>

text \<open>\<open>f\<close> counts the \<open>NamespaceRef\<close> handles; the writers go through a handle they hold.\<close>

inductive user_step :: "system \<Rightarrow> (addr \<Rightarrow> nat) \<Rightarrow> system \<Rightarrow> (addr \<Rightarrow> nat) \<Rightarrow> bool" where
  us_ns: "ns_step (nsw u) f w' f' \<Longrightarrow> user_step u f (u\<lparr>nsw := w'\<rparr>) f'"
| us_free: "heap (nsw u) a = Some n \<Longrightarrow> \<not> is_initial n \<Longrightarrow> f a = 0 \<Longrightarrow>
     \<forall>b m. heap (nsw u) b = Some m \<longrightarrow> owner_user_namespace m \<noteq> OwnerRef a \<and> parent m \<noteq> Some a \<Longrightarrow>
     drop_object u a = Some u' \<Longrightarrow> user_step u f u' f"
| us_owner: "heap (nsw u) a = Some n \<Longrightarrow> 0 < f a \<Longrightarrow> register_owner (st_users u) n euid = (s, r) \<Longrightarrow> user_step u f (u\<lparr>st_users := s\<rparr>) f"
| us_map: "0 < f a \<Longrightarrow> write_map u a kind cap own es = Some (u', r) \<Longrightarrow> user_step u f u' f"
| us_setgroups: "0 < f a \<Longrightarrow> write_setgroups u a policy = Some (u', r) \<Longrightarrow> user_step u f u' f"

inductive user_run :: "system \<Rightarrow> (addr \<Rightarrow> nat) \<Rightarrow> system \<Rightarrow> (addr \<Rightarrow> nat) \<Rightarrow> bool" where
  ur_refl: "user_run u f u f"
| ur_step: "user_run u f u' f' \<Longrightarrow> user_step u' f' u'' f'' \<Longrightarrow> user_run u f u'' f''"

definition user_reach :: "system \<Rightarrow> (addr \<Rightarrow> nat) \<Rightarrow> bool" where
  "user_reach u f \<longleftrightarrow>
     (\<exists>w. initialize empty_world = Some w \<and> user_run \<lparr>nsw = w, st_users = Map.empty\<rparr> (\<lambda>_. 0) u f)"

end
