(* ===== verification/Userns_Props.thy ===== *)
theory Userns_Props
  imports Userns
begin

text \<open>
  The user-namespace machine keeps its maps valid, its policy locked and its table keyed by identities
  that are never reused.
\<close>

section \<open>How a registry step changes the identities\<close>

definition evolves :: "world \<Rightarrow> world \<Rightarrow> bool" where
  "evolves w w' \<longleftrightarrow> (\<forall>k. next_id_of (reg w) k \<le> next_id_of (reg w') k) \<and>
     (\<forall>a n. heap w a = Some n \<longrightarrow> (\<exists>n'. heap w' a = Some n' \<and> kind_of n' = kind_of n \<and> ident n' = ident n \<and> parent n' = parent n \<and>
        set (finalizers n) \<subseteq> set (finalizers n'))) \<and>
     (\<forall>a n'. heap w' a = Some n' \<longrightarrow> heap w a = None \<longrightarrow> next_id_of (reg w) (kind_of n') \<le> ident n')"

lemma evolvesD:
  assumes "evolves w w'" and "heap w a = Some n"
  obtains n' where "heap w' a = Some n'" "kind_of n' = kind_of n" "ident n' = ident n" "parent n' = parent n" "set (finalizers n) \<subseteq> set (finalizers n')"
  using assms unfolding evolves_def by blast

lemma evolves_refl [simp]: "evolves w w"
  by (auto simp: evolves_def)

lemma evolves_same:
  assumes "same_shape w w'"
  shows "evolves w w'"
proof -
  have "\<exists>n'. heap w' a = Some n' \<and> kind_of n' = kind_of n \<and> ident n' = ident n \<and> parent n' = parent n \<and> set (finalizers n) \<subseteq> set (finalizers n')"
    if h: "heap w a = Some n" for a n
  proof -
    obtain k where "heap w' a = Some (n\<lparr>active := k\<rparr>)" using same_shapeD [OF assms h] .
    then show ?thesis by simp
  qed
  moreover have "heap w a \<noteq> None" if "heap w' a = Some n'" for a n'
    using assms that unfolding same_shape_def by blast
  moreover have "\<forall>k. next_id_of (reg w) k \<le> next_id_of (reg w') k" using assms unfolding same_shape_def by simp
  ultimately show ?thesis unfolding evolves_def by blast
qed

lemma evolves_replace:
  assumes "heap w a = Some n" and "kind_of n' = kind_of n" "ident n' = ident n" "parent n' = parent n" "set (finalizers n) \<subseteq> set (finalizers n')"
  shows "evolves w (w\<lparr>heap := (heap w)(a \<mapsto> n')\<rparr>)"
  using assms unfolding evolves_def by auto

lemma evolves_reg:
  assumes "heap w' = heap w" and "\<And>k. next_id_of (reg w) k \<le> next_id_of (reg w') k"
  shows "evolves w w'"
  using assms unfolding evolves_def by auto

lemma inner_evolves:
  assumes inv: "ns_inv w f" and r: "allocate_inactive_inner w kind own par = Some (w', r)"
  shows "evolves w w'"
proof -
  have fresh: "heap w (next_addr w) = None" using inv heap_wfD(1) [of w "next_addr w"] by (cases "heap w (next_addr w)") (auto simp: ns_inv_def)
  show ?thesis
    using r fresh unfolding allocate_inactive_inner_def initialize_once [OF inv]
    by (auto simp: evolves_def next_id_def next_ns_id_def next_nsfs_ino_def arc_new_def publish_lifetime_def Let_def bind_eq_Some_conv
        split: if_splits sum.splits)
qed

lemma allocate_evolves:
  assumes inv: "ns_inv w f" and r: "allocate_inactive w kind own par = Some (w', r)"
  shows "evolves w w'"
  using r inner_evolves [OF inv, of kind own par w' r] unfolding allocate_inactive_def
  by (auto simp: bind_eq_Some_conv split: if_splits)

lemma ns_step_evolves:
  assumes "ns_step w f w' f'" and "ns_inv w f"
  shows "evolves w w'"
  using assms
proof (induction rule: ns_step.induct)
  case (ns_clone w a n f w')
  then show ?case using clone_inv [of w f a n] evolves_same by (auto simp: returns_def)
next
  case (ns_drop_ref f a w w')
  then show ?case using release_inv [of w f a] evolves_same by (auto simp: returns_def)
next
  case (ns_activate w a n w' f)
  then show ?case using acquire_inv [of w f a n] evolves_same by (auto simp: returns_def)
next
  case (ns_allocate w own u par kind w' r f)
  then show ?case using allocate_evolves by blast
next
  case (ns_finalizer w a g w' f)
  then show ?case
    by (auto simp: register_finalizer_def bind_eq_Some_conv intro!: evolves_replace)
next
  case (ns_scope w a s w' r f)
  then show ?case
    by (auto simp: set_pid_memfd_noexec_scope_def Let_def intro!: evolves_replace split: bind_splits if_splits option.splits sum.splits)
next
  case (ns_new_id w w' r f)
  then show ?case by (auto simp: allocate_ns_id_def next_ns_id_def Let_def intro!: evolves_reg split: if_splits)
next
  case (ns_new_ino w w' i f)
  then show ?case by (auto simp: allocate_nsfs_ino_def next_nsfs_ino_def Let_def intro!: evolves_reg split: if_splits)
qed

section \<open>Invariant\<close>

definition alive :: "world \<Rightarrow> u64 \<Rightarrow> bool" where
  "alive w i \<longleftrightarrow> (\<exists>a n. heap w a = Some n \<and> kind_of n = User \<and> ident n = i)"

definition armed :: "world \<Rightarrow> u64 \<Rightarrow> bool" where
  "armed w i \<longleftrightarrow> (\<exists>a n. heap w a = Some n \<and> kind_of n = User \<and> ident n = i \<and> REMOVE_FINALIZER \<in> set (finalizers n))"

definition written :: "user_ns_state \<Rightarrow> bool" where
  "written s \<longleftrightarrow> (\<exists>kind. map_field s kind \<noteq> None) \<or> setgroups s \<noteq> SgAllow"

definition state_ok :: "world \<Rightarrow> u64 \<Rightarrow> user_ns_state \<Rightarrow> bool" where
  "state_ok w i s \<longleftrightarrow> i < next_id_of (reg w) User \<and> (\<forall>kind m. map_field s kind = Some m \<longrightarrow> validate_extents m = Inr ()) \<and>
     (written s \<longrightarrow> armed w i)"

definition user_inv :: "system \<Rightarrow> (addr \<Rightarrow> nat) \<Rightarrow> bool" where
  "user_inv u f \<longleftrightarrow> ns_inv (nsw u) f \<and> (\<forall>i s. st_users u i = Some s \<longrightarrow> state_ok (nsw u) i s)"

lemma armed_evolves:
  assumes "armed w i" and "evolves w w'"
  shows "armed w' i"
proof -
  obtain a n where n: "heap w a = Some n" "kind_of n = User" "ident n = i" "REMOVE_FINALIZER \<in> set (finalizers n)"
    using assms(1) by (auto simp: armed_def)
  show ?thesis using evolvesD [OF assms(2) n(1)] n(2-4) unfolding armed_def by (metis subsetD)
qed

lemma alive_evolves:
  assumes "alive w i" and "evolves w w'"
  shows "alive w' i"
proof -
  obtain a n where n: "heap w a = Some n" "kind_of n = User" "ident n = i" using assms(1) by (auto simp: alive_def)
  show ?thesis using evolvesD [OF assms(2) n(1)] n(2-3) unfolding alive_def by metis
qed

lemma dead_evolves:
  assumes "\<not> alive w i" and "i < next_id_of (reg w) User" and "evolves w w'"
  shows "\<not> alive w' i"
proof
  assume "alive w' i"
  then obtain a n where n: "heap w' a = Some n" "kind_of n = User" "ident n = i" by (auto simp: alive_def)
  show False
  proof (cases "heap w a")
    case None
    then have "next_id_of (reg w) (kind_of n) \<le> ident n" using assms(3) n(1) unfolding evolves_def by blast
    then have "next_id_of (reg w) User \<le> i" using n by simp
    then show False using assms(2) by simp
  next
    case (Some m)
    obtain n' where "heap w' a = Some n'" "kind_of n' = kind_of m" "ident n' = ident m" using evolvesD [OF assms(3) Some] by blast
    then have "kind_of m = User" "ident m = i" using n by simp_all
    then show False using assms(1) Some by (auto simp: alive_def)
  qed
qed

lemma state_ok_evolves:
  assumes "state_ok w i s" and "evolves w w'"
  shows "state_ok w' i s"
proof -
  have "next_id_of (reg w) User \<le> next_id_of (reg w') User" using assms(2) by (simp add: evolves_def)
  then show ?thesis using assms armed_evolves [OF _ assms(2)] by (auto simp: state_ok_def)
qed

lemma user_id_inj:
  assumes "ns_inv w f" "heap w a = Some n" "heap w b = Some m" "kind_of n = kind_of m" "ident n = ident m"
  shows "a = b"
  using assms unfolding ns_inv_def ids_wf_def key_inj_def by auto

lemma run_finalizers_eq:
  "run_finalizers fs kind i s = (if kind = User \<and> REMOVE_FINALIZER \<in> set fs then s(i := None) else s)"
  by (induction fs arbitrary: s) (auto simp: userns_remove_def)

section \<open>Writes\<close>

lemma finalizer_armed:
  assumes "register_finalizer w a REMOVE_FINALIZER = Some w'" "heap w a = Some n" "kind_of n = User"
  shows "armed w' (ident n) \<and> evolves w w'"
proof
  show "armed w' (ident n)" using assms by (auto simp: register_finalizer_def armed_def bind_eq_Some_conv intro!: exI [of _ a])
  show "evolves w w'" using assms by (auto simp: register_finalizer_def bind_eq_Some_conv intro!: evolves_replace)
qed

lemma require_writable: "require_writable_owner n = Inr i \<longleftrightarrow> kind_of n = User \<and> \<not> is_initial n \<and> parent n \<noteq> None \<and> i = ident n"
  by (auto simp: require_writable_owner_def owner_id_def)

text \<open>The two outcomes of a write: only the default entry appears, or the entry is rewritten and armed.\<close>

lemma write_map_cases:
  assumes "write_map u a kind cap own es = Some (u', r)" and "heap (nsw u) a = Some n"
  obtains (same) err where "r = Inl err" "u' = u"
  | (touched) err s where "r = Inl err" "s = or_default (st_users u) (ident n)" "kind_of n = User" "u' = u\<lparr>st_users := (st_users u)(ident n \<mapsto> s)\<rparr>"
  | (commit) w s where "r = Inr ()" "kind_of n = User" "\<not> is_initial n" "s = or_default (st_users u) (ident n)" "validate_extents es = Inr ()" "own_id_only kind cap own es"
      "map_field s kind = None" "kind = MapGid \<and> \<not> cap \<longrightarrow> setgroups s = SgDeny"
      "register_finalizer (nsw u) a REMOVE_FINALIZER = Some w"
      "u' = u\<lparr>nsw := w, st_users := (st_users u)(ident n \<mapsto> map_field_mut s kind (Some es))\<rparr>"
proof (cases "require_writable_owner n")
  case (Inl err)
  then show thesis using assms same [of err] by (simp add: write_map_def)
next
  case owner: (Inr i)
  then have n: "kind_of n = User" "\<not> is_initial n" "i = ident n" by (simp_all add: require_writable)
  define s where s: "s = or_default (st_users u) (ident n)"
  show thesis
  proof (cases "validate_extents es")
    case (Inl err)
    then show thesis using assms owner same [of "from_extent_error err"] by (simp add: write_map_def)
  next
    case valid: (Inr x)
    show thesis
    proof (cases "own_id_only kind cap own es")
      case False
      then show thesis using assms owner valid same [of UnprivilegedNotOwnId] by (simp add: write_map_def)
    next
      case own: True
      note W = assms(1) [unfolded write_map_def assms(2) Option.bind.simps owner sum.case valid Let_def n(3)]
      consider (full) "map_field s kind \<noteq> None" | (undenied) "map_field s kind = None" "kind = MapGid \<and> \<not> cap \<and> setgroups s \<noteq> SgDeny"
        | (fine) "map_field s kind = None" "\<not> (kind = MapGid \<and> \<not> cap \<and> setgroups s \<noteq> SgDeny)" by blast
      then show thesis
      proof cases
        case full
        then show thesis using W own touched [of AlreadyPopulated s] s n by simp
      next
        case undenied
        then show thesis using W own touched [of SetgroupsMustDenyFirst s] s n by simp
      next
        case fine
        then obtain w where "register_finalizer (nsw u) a REMOVE_FINALIZER = Some w" "r = Inr ()"
            "u' = u\<lparr>nsw := w, st_users := (st_users u)(ident n \<mapsto> map_field_mut s kind (Some es))\<rparr>"
          using W own by (cases "register_finalizer (nsw u) a REMOVE_FINALIZER") (auto simp flip: s)
        then show thesis using commit [of s w] s n own valid fine by auto
      qed
    qed
  qed
qed

lemma write_setgroups_cases:
  assumes "write_setgroups u a policy = Some (u', r)" and "heap (nsw u) a = Some n"
  obtains (same) err where "r = Inl err" "u' = u"
  | (touched) err s where "r = Inl err" "s = or_default (st_users u) (ident n)" "kind_of n = User" "u' = u\<lparr>st_users := (st_users u)(ident n \<mapsto> s)\<rparr>"
  | (commit) w s where "r = Inr ()" "kind_of n = User" "\<not> is_initial n" "s = or_default (st_users u) (ident n)" "gid_map s = None"
      "register_finalizer (nsw u) a REMOVE_FINALIZER = Some w"
      "u' = u\<lparr>nsw := w, st_users := (st_users u)(ident n \<mapsto> s\<lparr>setgroups := policy\<rparr>)\<rparr>"
proof (cases "require_writable_owner n")
  case (Inl err)
  then show thesis using assms same [of err] by (simp add: write_setgroups_def)
next
  case owner: (Inr i)
  then have n: "kind_of n = User" "\<not> is_initial n" "i = ident n" by (simp_all add: require_writable)
  define s where s: "s = or_default (st_users u) (ident n)"
  note W = assms(1) [unfolded write_setgroups_def assms(2) Option.bind.simps owner sum.case Let_def n(3)]
  show thesis
  proof (cases "gid_map s")
    case (Some m)
    then show thesis using W touched [of SetgroupsLockedAfterGidMap s] s n by simp
  next
    case None
    then obtain w where "register_finalizer (nsw u) a REMOVE_FINALIZER = Some w" "r = Inr ()"
        "u' = u\<lparr>nsw := w, st_users := (st_users u)(ident n \<mapsto> s\<lparr>setgroups := policy\<rparr>)\<rparr>"
      using W by (cases "register_finalizer (nsw u) a REMOVE_FINALIZER") (auto simp flip: s)
    then show thesis using commit [of s w] s n None by auto
  qed
qed

section \<open>Every step keeps the invariant\<close>

lemma or_default_ok:
  assumes "user_inv u f" and "heap (nsw u) a = Some n" and "kind_of n = User"
  shows "state_ok (nsw u) (ident n) (or_default (st_users u) (ident n))"
proof (cases "st_users u (ident n)")
  case None
  have "ident n < next_id_of (reg (nsw u)) (kind_of n)" using assms(1,2) unfolding user_inv_def ns_inv_def ids_wf_def by blast
  then have "ident n < next_id_of (reg (nsw u)) User" using assms(3) by simp
  moreover have "map_field user_ns_default kind = None" for kind by (cases kind) (simp_all add: user_ns_default_def)
  ultimately show ?thesis using None by (simp add: or_default_def state_ok_def written_def) (simp add: user_ns_default_def)
next
  case (Some s)
  then show ?thesis using assms(1) by (simp add: or_default_def user_inv_def)
qed

lemma put_inv:
  assumes inv: "user_inv u f" and ns: "ns_inv w f'" "evolves (nsw u) w" and s: "state_ok w i s"
  shows "user_inv (u\<lparr>nsw := w, st_users := (st_users u)(i \<mapsto> s)\<rparr>) f'"
  using assms state_ok_evolves [OF _ ns(2)] by (auto simp: user_inv_def)

lemma put_inv_same:
  assumes inv: "user_inv u f" and s: "state_ok (nsw u) i s"
  shows "user_inv (u\<lparr>st_users := (st_users u)(i \<mapsto> s)\<rparr>) f"
  using assms by (auto simp: user_inv_def)

lemma finalizer_inv:
  assumes "register_finalizer w a g = Some w'" and "ns_inv w f"
  shows "ns_inv w' f"
  using ns_step_inv [OF ns_finalizer [OF assms(1)] assms(2)] .

lemma map_field_mut_eq [simp]: "map_field (map_field_mut s k v) k' = (if k = k' then v else map_field s k')"
  by (cases k; cases k') simp_all

lemma map_field_mut_setgroups [simp]: "setgroups (map_field_mut s k v) = setgroups s"
  by (cases k) simp_all

lemma map_field_setgroups [simp]: "map_field (s\<lparr>setgroups := p\<rparr>) k = map_field s k"
  by (cases k) simp_all

lemma map_field_owner [simp]: "map_field (s\<lparr>owner_uid := p\<rparr>) k = map_field s k"
  by (cases k) simp_all

lemma free_user_inv:
  assumes inv: "user_inv u f" and h: "heap (nsw u) a = Some n" "\<not> is_initial n" "f a = 0"
    and ref: "\<forall>b m. heap (nsw u) b = Some m \<longrightarrow> owner_user_namespace m \<noteq> OwnerRef a \<and> parent m \<noteq> Some a"
    and r: "drop_object u a = Some u'"
  shows "user_inv u' f \<and> heap (nsw u') = (heap (nsw u))(a := None) \<and> next_id_of (reg (nsw u')) = next_id_of (reg (nsw u)) \<and>
    st_users u' = (if kind_of n = User \<and> REMOVE_FINALIZER \<in> set (finalizers n) then (st_users u)(ident n := None) else st_users u)"
proof -
  have ns: "ns_inv (nsw u) f" using inv by (simp add: user_inv_def)
  obtain w where w: "drop_namespace (nsw u) a = Some (w, finalizers n)" "ns_inv w f" "heap w = (heap (nsw u))(a := None)"
    using free_inv [OF ns h ref] by (auto simp: returns_def)
  then have ids: "next_id_of (reg w) = next_id_of (reg (nsw u))"
    using h by (auto simp: drop_namespace_def remove_def Let_def)
  have u': "u' = u\<lparr>nsw := w, st_users := run_finalizers (finalizers n) (kind_of n) (ident n) (st_users u)\<rparr>"
    using r h w(1) by (simp add: drop_object_def)
  have keep: "armed w i" if "armed (nsw u) i" "\<not> (kind_of n = User \<and> REMOVE_FINALIZER \<in> set (finalizers n) \<and> i = ident n)" for i
    using that h(1) unfolding armed_def w(3) by (metis fun_upd_other option.inject)
  have "state_ok w i s" if s: "st_users u' i = Some s" for i s
  proof -
    have "st_users u i = Some s" "\<not> (kind_of n = User \<and> REMOVE_FINALIZER \<in> set (finalizers n) \<and> i = ident n)"
      using s by (auto simp: u' run_finalizers_eq split: if_splits)
    then show ?thesis using inv keep [of i] ids by (auto simp: user_inv_def state_ok_def)
  qed
  then show ?thesis using w ids by (auto simp: user_inv_def u' run_finalizers_eq)
qed

lemma user_step_inv:
  assumes "user_step u f u' f'" and "user_inv u f"
  shows "user_inv u' f'"
  using assms
proof (induction rule: user_step.induct)
  case (us_ns u f w' f')
  then have "ns_inv (nsw u) f" by (simp add: user_inv_def)
  note next_inv = ns_step_inv [OF us_ns(1) this] and ev = ns_step_evolves [OF us_ns(1) this]
  show ?case using us_ns(2) next_inv state_ok_evolves [OF _ ev] by (simp add: user_inv_def)
next
  case (us_free u a n f u')
  then show ?case using free_user_inv by blast
next
  case (us_owner u a n f euid s r)
  show ?case
  proof (cases "kind_of n = User")
    case True
    then have "s = (st_users u)(ident n \<mapsto> (or_default (st_users u) (ident n))\<lparr>owner_uid := Some euid\<rparr>)"
      using us_owner by (auto simp: register_owner_def owner_id_def)
    moreover have "state_ok (nsw u) (ident n) ((or_default (st_users u) (ident n))\<lparr>owner_uid := Some euid\<rparr>)"
      using or_default_ok [OF us_owner(4,1) True] by (simp add: state_ok_def written_def)
    ultimately show ?thesis using put_inv_same us_owner(4) by blast
  next
    case False
    then have "s = st_users u" using us_owner by (auto simp: register_owner_def owner_id_def)
    then show ?thesis using us_owner(4) by simp
  qed
next
  case (us_map f a u kind cap own es u' r)
  have ns: "ns_inv (nsw u) f" using us_map by (simp add: user_inv_def)
  obtain n where n: "heap (nsw u) a = Some n" using us_map(2) by (auto simp: write_map_def bind_eq_Some_conv)
  from us_map(2) n show ?case
  proof (cases rule: write_map_cases)
    case (same err)
    then show ?thesis using us_map by simp
  next
    case (touched err s)
    then show ?thesis using put_inv_same us_map(3) or_default_ok [OF us_map(3) n] by simp
  next
    case (commit w s)
    have ev: "armed w (ident n)" "evolves (nsw u) w" using finalizer_armed [OF commit(9) n commit(2)] by auto
    have "state_ok (nsw u) (ident n) s" using or_default_ok [OF us_map(3) n commit(2)] commit(4) by simp
    then have "state_ok w (ident n) (map_field_mut s kind (Some es))"
      using state_ok_evolves [OF _ ev(2)] ev(1) commit(5) by (auto simp: state_ok_def split: if_splits)
    then show ?thesis using put_inv [OF us_map(3) finalizer_inv [OF commit(9) ns] ev(2)] commit(10) by simp
  qed
next
  case (us_setgroups f a u policy u' r)
  have ns: "ns_inv (nsw u) f" using us_setgroups by (simp add: user_inv_def)
  obtain n where n: "heap (nsw u) a = Some n" using us_setgroups(2) by (auto simp: write_setgroups_def bind_eq_Some_conv)
  from us_setgroups(2) n show ?case
  proof (cases rule: write_setgroups_cases)
    case (same err)
    then show ?thesis using us_setgroups by simp
  next
    case (touched err s)
    then show ?thesis using put_inv_same us_setgroups(3) or_default_ok [OF us_setgroups(3) n] by simp
  next
    case (commit w s)
    have ev: "armed w (ident n)" "evolves (nsw u) w" using finalizer_armed [OF commit(6) n commit(2)] by auto
    have "state_ok (nsw u) (ident n) s" using or_default_ok [OF us_setgroups(3) n commit(2)] commit(4) by simp
    then have "state_ok w (ident n) (s\<lparr>setgroups := policy\<rparr>)"
      using state_ok_evolves [OF _ ev(2)] ev(1) by (auto simp: state_ok_def)
    then show ?thesis using put_inv [OF us_setgroups(3) finalizer_inv [OF commit(6) ns] ev(2)] commit(7) by simp
  qed
qed

lemma user_run_inv: "user_run u f u' f' \<Longrightarrow> user_inv u f \<Longrightarrow> user_inv u' f'"
  by (induction rule: user_run.induct) (use user_step_inv in blast)+

lemma user_reach_inv:
  assumes "user_reach u f"
  shows "user_inv u f"
proof -
  obtain w where w: "initialize empty_world = Some w" "user_run \<lparr>nsw = w, st_users = Map.empty\<rparr> (\<lambda>_. 0) u f"
    using assms by (auto simp: user_reach_def)
  have "ns_inv w (\<lambda>_. 0)" using w(1) initialize_ok by (auto simp: returns_def)
  then have "user_inv \<lparr>nsw = w, st_users = Map.empty\<rparr> (\<lambda>_. 0)" by (simp add: user_inv_def)
  then show ?thesis using user_run_inv [OF w(2)] by blast
qed

lemma user_reach_run: "user_reach u f \<Longrightarrow> user_run u f u' f' \<Longrightarrow> user_reach u' f'"
proof -
  have trans: "user_run x g u' f'" if "user_run u f u' f'" "user_run x g u f" for x g
    using that by (induction rule: user_run.induct) (auto intro: ur_step)
  show "user_reach u f \<Longrightarrow> user_run u f u' f' \<Longrightarrow> user_reach u' f'" unfolding user_reach_def using trans by blast
qed

section \<open>A populated map is final\<close>

definition locked :: "system \<Rightarrow> u64 \<Rightarrow> id_map_kind \<Rightarrow> extent list \<Rightarrow> setgroups_policy \<Rightarrow> bool" where
  "locked u i kind m p \<longleftrightarrow> i < next_id_of (reg (nsw u)) User \<and>
     (alive (nsw u) i \<longrightarrow> (\<exists>s. st_users u i = Some s \<and> map_field s kind = Some m \<and> (kind = MapGid \<longrightarrow> setgroups s = p)))"

lemma locked_evolves:
  assumes l: "locked u i kind m p" and ev: "evolves (nsw u) (nsw u')"
    and s: "\<And>s. st_users u i = Some s \<Longrightarrow> map_field s kind = Some m \<Longrightarrow> (kind = MapGid \<Longrightarrow> setgroups s = p) \<Longrightarrow>
      \<exists>s'. st_users u' i = Some s' \<and> map_field s' kind = Some m \<and> (kind = MapGid \<longrightarrow> setgroups s' = p)"
  shows "locked u' i kind m p"
proof -
  have "next_id_of (reg (nsw u)) User \<le> next_id_of (reg (nsw u')) User" using ev by (simp add: evolves_def)
  then have i: "i < next_id_of (reg (nsw u')) User" using l by (simp add: locked_def)
  have "\<exists>s'. st_users u' i = Some s' \<and> map_field s' kind = Some m \<and> (kind = MapGid \<longrightarrow> setgroups s' = p)" if al: "alive (nsw u') i"
  proof -
    have "alive (nsw u) i" using dead_evolves [OF _ _ ev] al l by (auto simp: locked_def)
    then obtain s where "st_users u i = Some s" "map_field s kind = Some m" "kind = MapGid \<longrightarrow> setgroups s = p"
      using l by (auto simp: locked_def)
    then show ?thesis using s by blast
  qed
  then show ?thesis using i by (simp add: locked_def)
qed

lemma locked_step:
  assumes "user_step u f u' f'" and "user_inv u f" and "locked u i kind m p"
  shows "locked u' i kind m p"
  using assms
proof (induction rule: user_step.induct)
  case (us_ns u f w' f')
  have "evolves (nsw u) w'" using us_ns ns_step_evolves by (auto simp: user_inv_def)
  then show ?case using us_ns(3) by (intro locked_evolves [OF us_ns(3)]) auto
next
  case (us_free u a n f u')
  note F = free_user_inv [OF us_free(6,1-5)]
  have ns: "ns_inv (nsw u) f" using us_free by (simp add: user_inv_def)
  show ?case
  proof (cases "alive (nsw u') i")
    case True
    then obtain b x where b: "heap (nsw u) b = Some x" "b \<noteq> a" "kind_of x = User" "ident x = i"
      using F by (auto simp: alive_def split: if_splits)
    then have "\<not> (kind_of n = User \<and> ident n = i)" using user_id_inj [OF ns us_free(1) b(1)] by auto
    then show ?thesis using us_free(7) F b by (auto simp: locked_def alive_def)
  next
    case False
    then show ?thesis using us_free(7) F by (simp add: locked_def)
  qed
next
  case (us_owner u a n f euid s r)
  show ?case
    by (rule locked_evolves [OF us_owner(5)]) (use us_owner(3) in \<open>auto simp: register_owner_def owner_id_def or_default_def split: if_splits\<close>)
next
  case (us_map f a u k cap own es u' r)
  obtain n where n: "heap (nsw u) a = Some n" using us_map(2) by (auto simp: write_map_def bind_eq_Some_conv)
  from us_map(2) n show ?case
  proof (cases rule: write_map_cases)
    case (same err)
    then show ?thesis using us_map by simp
  next
    case (touched err s)
    then show ?thesis by (intro locked_evolves [OF us_map(4)]) (auto simp: or_default_def)
  next
    case (commit w s)
    have ev: "evolves (nsw u) w" using finalizer_armed [OF commit(9) n commit(2)] by auto
    show ?thesis
      by (rule locked_evolves [OF us_map(4)]) (use commit ev in \<open>auto simp: or_default_def\<close>)
  qed
next
  case (us_setgroups f a u policy u' r)
  obtain n where n: "heap (nsw u) a = Some n" using us_setgroups(2) by (auto simp: write_setgroups_def bind_eq_Some_conv)
  from us_setgroups(2) n show ?case
  proof (cases rule: write_setgroups_cases)
    case (same err)
    then show ?thesis using us_setgroups by simp
  next
    case (touched err s)
    then show ?thesis by (intro locked_evolves [OF us_setgroups(4)]) (auto simp: or_default_def)
  next
    case (commit w s)
    have ev: "evolves (nsw u) w" using finalizer_armed [OF commit(6) n commit(2)] by auto
    show ?thesis
      by (rule locked_evolves [OF us_setgroups(4)]) (use commit ev in \<open>auto simp: or_default_def\<close>)
  qed
qed

lemma locked_run:
  assumes "user_run u f u' f'" and "user_inv u f" and "locked u i kind m p"
  shows "locked u' i kind m p"
  using assms
proof (induction rule: user_run.induct)
  case (ur_step u f u' f' u'' f'')
  then show ?case using locked_step user_run_inv by blast
qed simp

text \<open>The map a namespace shows, for either reader.\<close>

definition current_map :: "states \<Rightarrow> namespace \<Rightarrow> id_map_kind \<Rightarrow> extent list" where
  "current_map s n kind =
     (if is_initial n then initial_map else case s (ident n) of None \<Rightarrow> [] | Some x \<Rightarrow> (case map_field x kind of Some m \<Rightarrow> m | None \<Rightarrow> []))"

lemma with_map_current: "kind_of n = User \<Longrightarrow> with_map s n kind f = Inr (f (current_map s n kind))"
  by (simp add: with_map_def owner_id_def current_map_def initial_map_def)

lemma snapshot_current: "kind_of n = User \<Longrightarrow> snapshot_map s n kind = Inr (current_map s n kind)"
  by (simp add: snapshot_map_def owner_id_def current_map_def)

lemma initial_map_valid: "validate_extents initial_map = Inr ()"
  by (simp add: initial_map_def validate_extents_def UID_GID_MAP_MAX_EXTENTS_def ns_last_def host_last_def checked_sub32_def
      checked_add32_def overlaps_committed_def INITIAL_NS_ID_def INITIAL_HOST_ID_def INITIAL_COUNT_def)

lemma current_map_valid:
  assumes "user_inv u f"
  shows "current_map (st_users u) n kind = [] \<or> validate_extents (current_map (st_users u) n kind) = Inr ()"
  using assms initial_map_valid by (auto simp: current_map_def user_inv_def state_ok_def split: option.splits)

lemma write_locks:
  assumes inv: "user_inv u f" and h: "heap (nsw u) a = Some n" and w: "write_map u a kind cap own es = Some (u1, Inr ())"
  shows "\<exists>p. locked u1 (ident n) kind es p \<and> own_id_only kind cap own es \<and> (kind = MapGid \<and> \<not> cap \<longrightarrow> p = SgDeny) \<and> \<not> is_initial n"
  using w h
proof (cases rule: write_map_cases)
  case (commit wd s)
  have "ident n < next_id_of (reg (nsw u)) (kind_of n)" using inv h unfolding user_inv_def ns_inv_def ids_wf_def by blast
  moreover have "evolves (nsw u) wd" using finalizer_armed [OF commit(9) h commit(2)] by blast
  ultimately have "ident n < next_id_of (reg wd) User" using commit(2) by (auto simp: evolves_def intro: order_less_le_trans)
  then show ?thesis using commit by (intro exI [of _ "setgroups s"]) (auto simp: locked_def)
qed simp_all

section \<open>A concrete run\<close>

lemma add_initial_counters:
  "add_initial w kind ow = Some (w', a) \<Longrightarrow> next_id_of (reg w') = next_id_of (reg w) \<and> next_ns_id_nr (reg w') = next_ns_id_nr (reg w) \<and>
     next_ino_nr (reg w') = next_ino_nr (reg w)"
  by (auto simp: add_initial_def arc_new_def publish_active_def publish_lifetime_def Let_def bind_eq_Some_conv split: if_splits)

lemma add_initials_counters:
  "add_initials w user ks = Some w' \<Longrightarrow> next_id_of (reg w') = next_id_of (reg w) \<and> next_ns_id_nr (reg w') = next_ns_id_nr (reg w) \<and>
     next_ino_nr (reg w') = next_ino_nr (reg w)"
proof (induction ks arbitrary: w)
  case (Cons kind ks)
  show ?case
  proof (cases "kind = User")
    case True
    then show ?thesis using Cons by simp
  next
    case False
    then obtain w1 b where "add_initial w kind (OwnerRef user) = Some (w1, b)" "add_initials w1 user ks = Some w'"
      using Cons.prems by (auto simp: bind_eq_Some_conv)
    then show ?thesis using Cons.IH [of w1] add_initial_counters [of w kind] by auto
  qed
qed simp

lemma boot_counters:
  assumes "initialize empty_world = Some w"
  shows "next_id_of (reg w) User = 1" "next_ns_id_nr (reg w) = 10" "next_ino_nr (reg w) = FIRST_DYNAMIC_NSFS_INO"
proof -
  obtain w1 b where w1: "add_initial empty_world User InitialUser = Some (w1, b)" "add_initials w1 b ALL_KINDS = Some w"
    using assms by (auto simp: initialize_def empty_world_def registry_new_def ALL_KINDS_def bind_eq_Some_conv simp del: add_initials.simps)
  have "reg empty_world = registry_new" by (simp add: empty_world_def)
  then show "next_id_of (reg w) User = 1" "next_ns_id_nr (reg w) = 10" "next_ino_nr (reg w) = FIRST_DYNAMIC_NSFS_INO"
    using add_initial_counters [OF w1(1)] add_initials_counters [OF w1(2)]
    by (simp_all add: registry_new_def FIRST_DYNAMIC_ID_def FIRST_DYNAMIC_NS_ID_def)
qed

lemma allocate_at_boot:
  assumes w: "initialize empty_world = Some w" and u: "heap w u = Some n" "kind_of n = User"
  shows "\<exists>w' a m. allocate_inactive w User u (Some u) = Some (w', Inr a) \<and> heap w a = None \<and> heap w' = (heap w)(a \<mapsto> m) \<and>
    kind_of m = User \<and> \<not> is_initial m \<and> parent m = Some u \<and> active m = 0 \<and> finalizers m = []"
proof -
  have inv: "ns_inv w (\<lambda>_. 0)" using w initialize_ok by (auto simp: returns_def)
  have fresh: "heap w (next_addr w) = None"
    using inv heap_wfD(1) [of w "next_addr w"] by (cases "heap w (next_addr w)") (auto simp: ns_inv_def)
  have ids: "next_id (reg w) User = ((reg w)\<lparr>next_id_of := (next_id_of (reg w))(User := 2)\<rparr>, Inr 1)"
    using boot_counters [OF w] by (simp add: next_id_def U64_MAX_def numeral_2_eq_2)
  let ?m = "\<lparr>kind_of = User, ident = 1, ns_id = 10, nsfs_ino = FIRST_DYNAMIC_NSFS_INO, owner_user_namespace = OwnerRef u, parent = Some u,
    memfd_scope = 0, pid_numbers = pid_for_kind User False, active = 0, finalizers = []\<rparr>"
  have "\<exists>r. allocate_inactive w User u (Some u) =
      Some (w\<lparr>heap := (heap w)(next_addr w \<mapsto> ?m), next_addr := next_addr w + 1, reg := r\<rparr>, Inr (next_addr w))"
    using boot_counters [OF w] u
    by (simp add: allocate_inactive_def allocate_inactive_inner_def initialize_once [OF inv] ids next_ns_id_def next_nsfs_ino_def
        arc_new_def Let_def U64_MAX_def FIRST_DYNAMIC_NSFS_INO_def MNT_INIT_NSFS_INO_def) blast
  then obtain r where r: "allocate_inactive w User u (Some u) =
      Some (w\<lparr>heap := (heap w)(next_addr w \<mapsto> ?m), next_addr := next_addr w + 1, reg := r\<rparr>, Inr (next_addr w))" by blast
  show ?thesis unfolding r
    by (rule exI [of _ "w\<lparr>heap := (heap w)(next_addr w \<mapsto> ?m), next_addr := next_addr w + 1, reg := r\<rparr>"],
        rule exI [of _ "next_addr w"], rule exI [of _ ?m]) (simp add: fresh is_initial_def)
qed

lemma allocate_next:
  assumes "ns_inv w f" and "allocate_inactive w kind own par = Some (w', Inr a)"
  shows "next_addr w' = a + 1"
  using assms unfolding allocate_inactive_def allocate_inactive_inner_def
  by (auto simp: initialize_once next_id_def next_ns_id_def next_nsfs_ino_def arc_new_def Let_def bind_eq_Some_conv split: if_splits)

text \<open>Boot, create a child of the initial user namespace, take a handle on it.\<close>

lemma user_example:
  "\<exists>u f a n. user_reach u f \<and> f a = 1 \<and> heap (nsw u) a = Some n \<and> kind_of n = User \<and> \<not> is_initial n \<and> parent n \<noteq> None \<and>
     st_users u = Map.empty \<and> finalizers n = [] \<and>
     (\<forall>b m. heap (nsw u) b = Some m \<longrightarrow> owner_user_namespace m \<noteq> OwnerRef a \<and> parent m \<noteq> Some a)"
proof -
  obtain w u n where w: "initialize empty_world = Some w" "heap w u = Some n" "room w" "kind_of n = User" "ns_inv w (\<lambda>_. 0)"
    using initialize_ok by (auto simp: returns_def)
  obtain w1 a m where w1: "allocate_inactive w User u (Some u) = Some (w1, Inr a)" "heap w a = None" "heap w1 = (heap w)(a \<mapsto> m)"
      "kind_of m = User" "\<not> is_initial m" "parent m = Some u" "active m = 0" "finalizers m = []"
    using allocate_at_boot [OF w(1,2,4)] by blast
  have s1: "ns_step w (\<lambda>_. 0) w1 (\<lambda>_. 0)" by (rule ns_allocate [OF w(2) _ w1(1)]) (use w(2) in simp)
  have inv1: "ns_inv w1 (\<lambda>_. 0)" using ns_step_inv [OF s1 w(5)] .
  have h1: "heap w1 a = Some m" using w1(3) by simp
  have room1: "room w1" using w(3) w1(3,7) by (auto simp: room_def U64_MAX_def)
  obtain w2 where w2: "acquire_locked w1 a = Some w2" "same_shape w1 w2" "ns_inv w2 ((\<lambda>_. 0)(a := 0 + 1))"
    using acquire_inv [OF inv1 h1 room1] by (auto simp: returns_def)
  have s2: "ns_step w1 (\<lambda>_. 0) w2 ((\<lambda>_. 0)(a := 0 + 1))" using ns_activate [OF h1 room1 w2(1)] .
  let ?s = "\<lambda>w. \<lparr>nsw = w, st_users = Map.empty\<rparr>"
  have "user_run (?s w) (\<lambda>_. 0) (?s w1) (\<lambda>_. 0)" using us_ns [of "?s w"] s1 by (intro ur_step [OF ur_refl]) simp
  moreover have "user_step (?s w1) (\<lambda>_. 0) (?s w2) ((\<lambda>_. 0)(a := 0 + 1))" using us_ns [of "?s w1"] s2 by simp
  ultimately have reach: "user_reach (?s w2) ((\<lambda>_. 0)(a := 0 + 1))" using w(1) unfolding user_reach_def by (blast intro: ur_step)
  obtain k where k: "heap w2 a = Some (m\<lparr>active := k\<rparr>)" using same_shapeD [OF w2(2) h1] .
  have free: "owner_user_namespace x \<noteq> OwnerRef a \<and> parent x \<noteq> Some a" if x: "heap w2 b = Some x" for b x
  proof -
    have wf: "heap_wf w2" "heap_wf w" using w2(3) w(5) by (simp_all add: ns_inv_def)
    have "b \<le> a"
    proof -
      obtain y where "heap w1 b = Some y" using w2(2) x unfolding same_shape_def by blast
      moreover have "next_addr w1 = a + 1" using inv1 h1 w1 allocate_next [OF w(5) w1(1)] by simp
      ultimately show ?thesis using inv1 heap_wfD(1) [of w1 b y] by (auto simp: ns_inv_def)
    qed
    then show ?thesis using heap_wfD(5) [OF wf(1) x, of a] heap_wfD(6) [OF wf(1) x, of a] by force
  qed
  show ?thesis
    by (intro exI [of _ "?s w2"] exI [of _ "(\<lambda>_. 0)(a := 0 + 1)"] exI [of _ a] exI [of _ "m\<lparr>active := k\<rparr>"])
      (use reach k w1 free in auto)
qed

definition one_gid :: "extent list" where
  "one_gid = [\<lparr>ext_ns_id = 0, ext_host_id = 1000, ext_count = 1\<rparr>]"

lemma one_gid_valid: "validate_extents one_gid = Inr ()"
  by (simp add: one_gid_def validate_extents_def UID_GID_MAP_MAX_EXTENTS_def ns_last_def host_last_def checked_sub32_def
      checked_add32_def overlaps_committed_def)

text \<open>An unprivileged task denies \<open>setgroups\<close> and then maps its own gid.\<close>

lemma gid_example:
  "\<exists>u f a n u1. user_reach u f \<and> 0 < f a \<and> heap (nsw u) a = Some n \<and> kind_of n = User \<and>
     write_map u a MapGid False 1000 one_gid = Some (u1, Inr ()) \<and> (\<exists>n1. heap (nsw u1) a = Some n1 \<and> kind_of n1 = User \<and> ident n1 = ident n)"
proof -
  obtain u f a n where u: "user_reach u f" "f a = 1" "heap (nsw u) a = Some n" "kind_of n = User" "\<not> is_initial n" "parent n \<noteq> None" "st_users u = Map.empty"
      "finalizers n = []"
    using user_example by blast
  let ?n = "n\<lparr>finalizers := [REMOVE_FINALIZER]\<rparr>"
  define u0 where "u0 = \<lparr>nsw = (nsw u)\<lparr>heap := (heap (nsw u))(a \<mapsto> ?n)\<rparr>, st_users = [ident n \<mapsto> user_ns_default\<lparr>setgroups := SgDeny\<rparr>]\<rparr>"
  have "write_setgroups u a SgDeny = Some (u0, Inr ())"
    using u by (simp add: write_setgroups_def require_writable_owner_def owner_id_def or_default_def user_ns_default_def register_finalizer_def u0_def)
  then have "user_step u f u0 f" using us_setgroups [of f a u SgDeny u0] u(2) by simp
  then have r0: "user_reach u0 f" using user_reach_run [OF u(1) ur_step [OF ur_refl]] by blast
  let ?u1 = "u0\<lparr>st_users := [ident n \<mapsto> user_ns_default\<lparr>setgroups := SgDeny, gid_map := Some one_gid\<rparr>]\<rparr>"
  have w: "write_map u0 a MapGid False 1000 one_gid = Some (?u1, Inr ())"
    using u one_gid_valid
    by (simp add: write_map_def require_writable_owner_def owner_id_def or_default_def user_ns_default_def register_finalizer_def u0_def
        is_initial_def own_id_only_def) (simp add: one_gid_def)
  have h: "heap (nsw u0) a = Some ?n" by (simp add: u0_def)
  show ?thesis
    by (intro exI [of _ u0] exI [of _ f] exI [of _ a] exI [of _ ?n] exI [of _ ?u1]) (use r0 u w h in auto)
qed

section \<open>Properties\<close>

text \<open>C28: a populated map is final. After a successful \<open>write_map\<close>, whatever else runs, as long as the
  namespace exists the map reads back unchanged. When the writer had no capability, an \<open>uid_map\<close> or
  \<open>gid_map\<close> holds the single extent for the writer's own id, and for a \<open>gid_map\<close> the \<open>setgroups\<close>
  policy is and stays \<open>Deny\<close>.\<close>

theorem populated_map_final:
  assumes "user_reach u f" and "heap (nsw u) a = Some n" and "write_map u a kind cap own es = Some (u1, Inr ())" and "0 < f a"
    and "user_run u1 f u2 f2" and "heap (nsw u2) b = Some n2" and "kind_of n2 = User" and "ident n2 = ident n"
  shows "snapshot_map (st_users u2) n2 kind = Inr es \<and>
     (\<not> cap \<and> kind \<noteq> MapProjid \<longrightarrow> (\<exists>e. es = [e] \<and> ext_count e = 1 \<and> ext_host_id e = own)) \<and>
     (\<not> cap \<and> kind = MapGid \<longrightarrow> setgroups_policy_of (st_users u2) n2 = Inr SgDeny)"
proof -
  have inv: "user_inv u f" using user_reach_inv [OF assms(1)] .
  obtain p where p: "locked u1 (ident n) kind es p" "own_id_only kind cap own es" "kind = MapGid \<and> \<not> cap \<longrightarrow> p = SgDeny" "\<not> is_initial n"
    using write_locks [OF inv assms(2,3)] by blast
  have "user_inv u1 f" using user_step_inv [OF us_map [of f a, OF assms(4,3)] inv] .
  then have "locked u2 (ident n) kind es p" using locked_run [OF assms(5)] p(1) by blast
  moreover have "alive (nsw u2) (ident n)" using assms(6-8) by (auto simp: alive_def)
  ultimately obtain s where s: "st_users u2 (ident n) = Some s" "map_field s kind = Some es" "kind = MapGid \<longrightarrow> setgroups s = p"
    by (auto simp: locked_def)
  have n2: "\<not> is_initial n2" using p(4) assms(8) by (simp add: is_initial_def)
  have "\<exists>e. es = [e] \<and> ext_count e = 1 \<and> ext_host_id e = own" if "\<not> cap" "kind \<noteq> MapProjid"
    using p(2) that by (cases kind) (auto simp: own_id_only_def length_Suc_conv)
  then show ?thesis
    using s n2 assms(7,8) p(3) by (auto simp: snapshot_current current_map_def setgroups_policy_of_def owner_id_def)
qed

theorem populated_map_final_witness:
  "\<exists>u f a n u1 n1. user_reach u f \<and> heap (nsw u) a = Some n \<and> write_map u a MapGid False 1000 one_gid = Some (u1, Inr ()) \<and>
     heap (nsw u1) a = Some n1 \<and> snapshot_map (st_users u1) n1 MapGid = Inr one_gid \<and> setgroups_policy_of (st_users u1) n1 = Inr SgDeny"
proof -
  obtain u f a n u1 n1 where "user_reach u f" "0 < f a" "heap (nsw u) a = Some n" "write_map u a MapGid False 1000 one_gid = Some (u1, Inr ())"
      "heap (nsw u1) a = Some n1" "kind_of n1 = User" "ident n1 = ident n"
    using gid_example by blast
  then show ?thesis using populated_map_final [of u f a n MapGid False 1000 one_gid u1 u1 f a n1, OF _ _ _ _ ur_refl] by blast
qed

text \<open>C27: in every reachable state the ids of a user namespace translate consistently: what \<open>to_host\<close> maps
  in, \<open>to_ns\<close> maps back and \<open>is_mapped\<close> recognises; an unmapped host id shows as the overflow id;
  and the reader without a copy sees the map that \<open>snapshot_map\<close> returns.\<close>

theorem userns_translation:
  assumes "user_reach u f" and "heap (nsw u) a = Some n" and "kind_of n = User"
  shows "(resolve_to_host (st_users u) n kind x = Inr (Some y) \<longrightarrow>
       resolve_to_ns (st_users u) n kind y = Inr x \<and> is_mapped (st_users u) n kind y = Inr True) \<and>
     (is_mapped (st_users u) n kind y = Inr False \<longrightarrow> resolve_to_ns (st_users u) n kind y = Inr 65534) \<and>
     (\<exists>m. snapshot_map (st_users u) n kind = Inr m \<and> is_mapped (st_users u) n kind y = Inr (has_mapping m y))"
proof -
  let ?m = "current_map (st_users u) n kind"
  note W = with_map_current [OF assms(3)]
  have ov: "overflow_value (overflow kind) = 65534"
    by (cases kind) (simp_all add: OVERFLOW_UID_def OVERFLOW_GID_def OVERFLOW_PROJID_def)
  have v: "valid_map ?m"
    using current_map_valid [OF user_reach_inv [OF assms(1)], of n kind] by (auto simp: validate_extents_Inr valid_map_def)
  show ?thesis
    using valid_map_inverse [OF v, of x y] ov
    by (auto simp: resolve_to_host_def resolve_to_ns_def is_mapped_def W snapshot_current [OF assms(3)] to_ns_munged has_mapping_iff)
qed

theorem userns_translation_witness:
  "\<exists>u f a n. user_reach u f \<and> heap (nsw u) a = Some n \<and> (\<exists>m. snapshot_map (st_users u) n MapUid = Inr m \<and>
     is_mapped (st_users u) n MapUid 0 = Inr (has_mapping m 0))"
proof -
  obtain u f a n where "user_reach u f" "heap (nsw u) a = Some n" "kind_of n = User" using user_example by blast
  then show ?thesis using userns_translation [of u f a n MapUid 0 0] by blast
qed

text \<open>The initial user namespace maps every id to itself except the sentinel \<open>(uid_t)-1\<close>, which it
  does not map in either direction.\<close>

theorem initial_userns_identity:
  assumes "kind_of n = User" and "is_initial n"
  shows "resolve_to_host s n kind x = Inr (if x = - 1 then None else Some x) \<and>
     resolve_to_ns s n kind x = Inr (if x = - 1 then 65534 else x) \<and> is_mapped s n kind x = Inr (x \<noteq> - 1)"
proof -
  have ov: "overflow_value (overflow kind) = 65534"
    by (cases kind) (simp_all add: OVERFLOW_UID_def OVERFLOW_GID_def OVERFLOW_PROJID_def)
  have m: "current_map s n kind = [\<lparr>ext_ns_id = 0, ext_host_id = 0, ext_count = - 1\<rparr>]"
    using assms by (simp add: current_map_def initial_map_def INITIAL_NS_ID_def INITIAL_HOST_ID_def INITIAL_COUNT_def)
  have lt: "x < - 1 \<longleftrightarrow> x \<noteq> - 1" by (simp add: word_order.not_eq_extremum)
  show ?thesis
    using ov lt by (auto simp: resolve_to_host_def resolve_to_ns_def is_mapped_def with_map_current [OF assms(1)] m checked_sub32_def
        has_mapping_def INVALID_ID_def)
qed

theorem initial_userns_identity_witness:
  "resolve_to_host Map.empty (initial_namespace User InitialUser) MapUid 1000 = Inr (Some 1000)"
  using initial_userns_identity [of "initial_namespace User InitialUser" Map.empty MapUid 1000]
  by (simp add: initial_namespace_def is_initial_def)

text \<open>C29: a user namespace starts empty. An identity allocated in a reachable state has no map of any kind,
  the \<open>Allow\<close> policy and no recorded creator, so no state of a dead namespace is ever inherited.\<close>

theorem fresh_userns_empty:
  assumes "user_reach u f" and "heap (nsw u) own = Some x" and "\<forall>p. par = Some p \<longrightarrow> heap (nsw u) p \<noteq> None"
    and "allocate_inactive (nsw u) User own par = Some (w', Inr a)" and "heap w' a = Some n"
  shows "kind_of n = User \<and> snapshot_map (st_users u) n kind = Inr [] \<and> setgroups_policy_of (st_users u) n = Inr SgAllow \<and>
     owner_euid (st_users u) n = Inr None"
proof -
  have inv: "user_inv u f" using user_reach_inv [OF assms(1)] .
  then have ns: "ns_inv (nsw u) f" by (simp add: user_inv_def)
  have al: "allocated_ns (nsw u) f User own (w', Inr a)"
    using allocate_inactive_ok [OF ns assms(2), of par User] assms(3,4) by (auto simp: returns_def)
  then have n: "heap (nsw u) a = None" "kind_of n = User" "\<not> is_initial n" using assms(5) by (auto simp: allocated_ns_def)
  have "next_id_of (reg (nsw u)) (kind_of n) \<le> ident n"
    using allocate_evolves [OF ns assms(4)] assms(5) n(1) unfolding evolves_def by blast
  then have "st_users u (ident n) = None"
    using inv n(2) unfolding user_inv_def state_ok_def by (metis leD not_None_eq)
  then show ?thesis using n
    by (simp add: snapshot_current current_map_def setgroups_policy_of_def owner_id_def owner_euid_def)
qed

theorem fresh_userns_empty_witness:
  "\<exists>u f own w' a n. user_reach u f \<and> allocate_inactive (nsw u) User own (Some own) = Some (w', Inr a) \<and> heap w' a = Some n \<and>
     snapshot_map (st_users u) n MapUid = Inr []"
proof -
  obtain w own x where w: "initialize empty_world = Some w" "heap w own = Some x" "kind_of x = User"
    using initialize_ok by (auto simp: returns_def)
  obtain w1 a m where w1: "allocate_inactive w User own (Some own) = Some (w1, Inr a)" "heap w1 a = Some m"
    using allocate_at_boot [OF w] by force
  let ?u = "\<lparr>nsw = w, st_users = Map.empty\<rparr>"
  have r: "user_reach ?u (\<lambda>_. 0)" using w(1) ur_refl unfolding user_reach_def by blast
  have "snapshot_map (st_users ?u) m MapUid = Inr []"
    using fresh_userns_empty [OF r, of own x "Some own" w1 a m MapUid] w w1 by simp
  then show ?thesis using r w1 by (intro exI [of _ ?u] exI) auto
qed

text \<open>C30: the entry of a namespace whose creator was recorded but that never got a map or policy outlives the
  namespace: \<open>register_owner\<close> inserts it without registering the finalizer that would remove it.\<close>

theorem owner_entry_leaks:
  "\<exists>u f i s. user_reach u f \<and> st_users u i = Some s \<and> \<not> (\<exists>a n. heap (nsw u) a = Some n \<and> kind_of n = User \<and> ident n = i)"
proof -
  obtain u f a n where u: "user_reach u f" "f a = 1" "heap (nsw u) a = Some n" "kind_of n = User" "\<not> is_initial n" "st_users u = Map.empty"
      "finalizers n = []" "\<forall>b m. heap (nsw u) b = Some m \<longrightarrow> owner_user_namespace m \<noteq> OwnerRef a \<and> parent m \<noteq> Some a"
    using user_example by blast
  let ?s = "user_ns_default\<lparr>owner_uid := Some 1000\<rparr>"
  let ?u1 = "u\<lparr>st_users := [ident n \<mapsto> ?s]\<rparr>"
  have "register_owner (st_users u) n 1000 = ([ident n \<mapsto> ?s], Inr ())" using u by (simp add: register_owner_def owner_id_def or_default_def)
  then have s1: "user_step u f ?u1 f" using us_owner [OF u(3), of f] u(2) by simp
  have inv1: "user_inv ?u1 f" using user_step_inv [OF s1 user_reach_inv [OF u(1)]] .
  have ns: "ns_inv (nsw u) f" using user_reach_inv [OF u(1)] by (simp add: user_inv_def)
  obtain w2 where w2: "release_active (nsw u) a = Some w2" "same_shape (nsw u) w2" "ns_inv w2 (f(a := f a - 1))"
    using release_inv [OF ns, of a] u(2) by (auto simp: returns_def)
  have s2: "user_step ?u1 f (?u1\<lparr>nsw := w2\<rparr>) (f(a := f a - 1))"
    by (rule us_ns) (use ns_drop_ref [of f a "nsw u" w2] u(2) w2(1) in simp)
  obtain k where h2: "heap w2 a = Some (n\<lparr>active := k\<rparr>)" using same_shapeD [OF w2(2) u(3)] .
  have refs: "\<forall>b m. heap w2 b = Some m \<longrightarrow> owner_user_namespace m \<noteq> OwnerRef a \<and> parent m \<noteq> Some a"
  proof (intro allI impI)
    fix b m assume m: "heap w2 b = Some m"
    obtain x where x: "heap (nsw u) b = Some x" using w2(2) m unfolding same_shape_def by blast
    obtain j where "heap w2 b = Some (x\<lparr>active := j\<rparr>)" using same_shapeD [OF w2(2) x] .
    then show "owner_user_namespace m \<noteq> OwnerRef a \<and> parent m \<noteq> Some a" using u(8) x m by auto
  qed
  let ?f = "f(a := f a - 1)"
  have inv2: "user_inv (?u1\<lparr>nsw := w2\<rparr>) ?f" using user_step_inv [OF s2 inv1] .
  obtain w3 where w3: "drop_namespace w2 a = Some (w3, finalizers (n\<lparr>active := k\<rparr>))"
    using free_inv [OF w2(3) h2 _ _ refs] u(2,5) by (auto simp: returns_def)
  let ?u3 = "?u1\<lparr>nsw := w3\<rparr>"
  have d: "drop_object (?u1\<lparr>nsw := w2\<rparr>) a = Some ?u3" using h2 w3 u(7) by (simp add: drop_object_def)
  have s3: "user_step (?u1\<lparr>nsw := w2\<rparr>) ?f ?u3 ?f"
    by (rule us_free [OF _ _ _ _ d, of "n\<lparr>active := k\<rparr>"]) (use h2 u(2,5) refs in auto)
  have reach: "user_reach ?u3 ?f" using user_reach_run [OF u(1)] s1 s2 s3 by (blast intro: ur_step ur_refl)
  have h3: "heap w3 = (heap w2)(a := None)" using w3 h2 by (auto simp: drop_namespace_def)
  have "\<not> (kind_of m = User \<and> ident m = ident n)" if "heap w3 b = Some m" for b m
    using that h3 user_id_inj [OF w2(3) h2, of b m] u(4) by (auto split: if_splits)
  then show ?thesis using reach by (intro exI [of _ ?u3] exI [of _ ?f] exI [of _ "ident n"] exI [of _ ?s]) auto
qed

text \<open>A map may cover the sentinel \<open>(uid_t)-1\<close>: the validation accepts an extent that ends at the top of
  the id space, and \<open>to_ns\<close> then reports a host id as the sentinel.\<close>

theorem sentinel_can_be_mapped:
  "validate_extents [\<lparr>ext_ns_id = - 1, ext_host_id = 1000, ext_count = 1\<rparr>] = Inr () \<and>
   to_ns_checked [\<lparr>ext_ns_id = - 1, ext_host_id = 1000, ext_count = 1\<rparr>] 1000 = Some INVALID_ID"
  using unsigned_less [of "- 1 :: u32"] by (simp add: validate_extents_def UID_GID_MAP_MAX_EXTENTS_def ns_last_def host_last_def checked_sub32_def
      checked_add32_def overlaps_committed_def INVALID_ID_def)

end
