(* ===== verification/Mempolicy.thy ===== *)
theory Mempolicy
  imports Prelude
begin

text \<open>
  NUMA memory policies (\<open>mm-vmm/src/mempolicy\<close>: \<open>uapi.rs\<close>, \<open>nodemask.rs\<close>, \<open>policy.rs\<close>, \<open>args.rs\<close>,
  \<open>query.rs\<close>, and the argument checks of \<open>mseal.rs\<close>): node masks and their user-space encoding, the construction of a policy, its packing into
  machine words, and the argument checks of the system calls. Masks, flags and modes are words of the
  source's width.
\<close>

unbundle bit_operations_syntax

section \<open>Constants\<close>

type_synonym u16 = "16 word"
type_synonym node_mask = "64 word"

datatype vm_error = NotImplemented | NoMem | Inval | Fault | Perm | Again | Access | Io

definition MPOL_DEFAULT :: u16 where "MPOL_DEFAULT = 0"
definition MPOL_PREFERRED :: u16 where "MPOL_PREFERRED = 1"
definition MPOL_BIND :: u16 where "MPOL_BIND = 2"
definition MPOL_INTERLEAVE :: u16 where "MPOL_INTERLEAVE = 3"
definition MPOL_LOCAL :: u16 where "MPOL_LOCAL = 4"
definition MPOL_PREFERRED_MANY :: u16 where "MPOL_PREFERRED_MANY = 5"
definition MPOL_WEIGHTED_INTERLEAVE :: u16 where "MPOL_WEIGHTED_INTERLEAVE = 6"
definition MPOL_MAX :: u16 where "MPOL_MAX = 7"
definition MPOL_F_STATIC_NODES :: u16 where "MPOL_F_STATIC_NODES = push_bit 15 1"
definition MPOL_F_RELATIVE_NODES :: u16 where "MPOL_F_RELATIVE_NODES = push_bit 14 1"
definition MPOL_F_NUMA_BALANCING :: u16 where "MPOL_F_NUMA_BALANCING = push_bit 13 1"
definition MPOL_MODE_FLAGS :: u16 where
  "MPOL_MODE_FLAGS = MPOL_F_STATIC_NODES OR MPOL_F_RELATIVE_NODES OR MPOL_F_NUMA_BALANCING"
definition MPOL_USER_NODEMASK_FLAGS :: u16 where
  "MPOL_USER_NODEMASK_FLAGS = MPOL_F_STATIC_NODES OR MPOL_F_RELATIVE_NODES"
definition MPOL_F_MOF :: u16 where "MPOL_F_MOF = push_bit 3 1"
definition MPOL_F_MORON :: u16 where "MPOL_F_MORON = push_bit 4 1"
definition MPOL_F_NODE :: "64 word" where "MPOL_F_NODE = push_bit 0 1"
definition MPOL_F_ADDR :: "64 word" where "MPOL_F_ADDR = push_bit 1 1"
definition MPOL_F_MEMS_ALLOWED :: "64 word" where "MPOL_F_MEMS_ALLOWED = push_bit 2 1"
definition MPOL_F_GET_VALID :: "64 word" where "MPOL_F_GET_VALID = MPOL_F_NODE OR MPOL_F_ADDR OR MPOL_F_MEMS_ALLOWED"
definition MPOL_MF_STRICT :: "64 word" where "MPOL_MF_STRICT = push_bit 0 1"
definition MPOL_MF_MOVE :: "64 word" where "MPOL_MF_MOVE = push_bit 1 1"
definition MPOL_MF_MOVE_ALL :: "64 word" where "MPOL_MF_MOVE_ALL = push_bit 2 1"
definition MPOL_MF_VALID :: "64 word" where "MPOL_MF_VALID = MPOL_MF_STRICT OR MPOL_MF_MOVE OR MPOL_MF_MOVE_ALL"
definition MPOL_MF_MOVE_VALID :: "64 word" where "MPOL_MF_MOVE_VALID = MPOL_MF_MOVE OR MPOL_MF_MOVE_ALL"
definition NUMA_NO_NODE :: "32 word" where "NUMA_NO_NODE = - 1"
definition MAX_NUMNODES :: nat where "MAX_NUMNODES = 64"
definition NR_NODE_IDS :: nat where "NR_NODE_IDS = 1"
definition NODE_ID_LOCAL :: nat where "NODE_ID_LOCAL = 0"
definition BITS_PER_LONG :: nat where "BITS_PER_LONG = 64"
definition MAX_NODEMASK_BITS :: nat where "MAX_NODEMASK_BITS = 4096 * 8"
definition NODEMASK_COPY_MAX_BYTES :: nat where "NODEMASK_COPY_MAX_BYTES = 4096"

section \<open>Node masks\<close>

definition trailing_zeros :: "64 word \<Rightarrow> nat" where
  "trailing_zeros m = (case find (bit m) [0..<64] of Some i \<Rightarrow> i | None \<Rightarrow> 64)"

definition count_ones :: "64 word \<Rightarrow> nat" where
  "count_ones m = length (filter (bit m) [0..<64])"

definition nm_is_set :: "node_mask \<Rightarrow> nat \<Rightarrow> bool" where
  "nm_is_set m node \<longleftrightarrow> node < MAX_NUMNODES \<and> m AND push_bit node 1 \<noteq> 0"

definition nm_is_empty :: "node_mask \<Rightarrow> bool" where "nm_is_empty m \<longleftrightarrow> m = 0"

definition nm_weight :: "node_mask \<Rightarrow> nat" where "nm_weight m = count_ones m"

definition nm_first :: "node_mask \<Rightarrow> nat" where
  "nm_first m = (if m = 0 then MAX_NUMNODES else trailing_zeros m)"

definition nm_and :: "node_mask \<Rightarrow> node_mask \<Rightarrow> node_mask" where "nm_and a b = a AND b"

definition nm_subset_of :: "node_mask \<Rightarrow> node_mask \<Rightarrow> bool" where "nm_subset_of a b \<longleftrightarrow> a AND NOT b = 0"

text \<open>A shift by 64 or more masks its amount in the release build.\<close>

definition nm_single :: "nat \<Rightarrow> node_mask" where "nm_single node = push_bit (node mod 64) 1"

definition nodes_with_memory :: node_mask where "nodes_with_memory = nm_single NODE_ID_LOCAL"

definition nodes_fold :: "node_mask \<Rightarrow> nat \<Rightarrow> 64 word" where
  "nodes_fold orig w =
     fold (\<lambda>b folded. if orig AND push_bit b 1 \<noteq> 0 then folded OR push_bit (b mod w) 1 else folded) [0..<MAX_NUMNODES] 0"

lemma clear_lowest_less: "rem \<noteq> 0 \<Longrightarrow> rem AND (rem - 1) < (rem :: 64 word)"
proof -
  assume "rem \<noteq> 0"
  then have "rem - 1 < rem" by (simp add: word_neq_0_conv word_gt_0 measure_unat word_less_nat_alt)
  then show ?thesis using word_and_le1 [of rem "rem - 1"] by (simp add: and.commute order_le_less_trans)
qed

function nodes_onto :: "64 word \<Rightarrow> 64 word \<Rightarrow> nat \<Rightarrow> 64 word \<Rightarrow> 64 word" where
  "nodes_onto folded rem i out =
     (if rem = 0 then out
      else
        let b = trailing_zeros rem;
            out = (if folded AND push_bit i 1 \<noteq> 0 then out OR push_bit b 1 else out)
        in nodes_onto folded (rem AND (rem - 1)) (i + 1) out)"
  by auto
termination
  by (relation "measure (\<lambda>(f, rem, i, out). unat rem)") (simp_all add: clear_lowest_less flip: word_less_nat_alt)

definition relative_nodemask :: "node_mask \<Rightarrow> node_mask \<Rightarrow> node_mask" where
  "relative_nodemask orig rel =
     (let w = nm_weight rel in if w = 0 then 0 else nodes_onto (nodes_fold orig w) rel 0 0)"

definition mask_to_bits :: "64 word \<Rightarrow> nat \<Rightarrow> 64 word" where
  "mask_to_bits word bits =
     (let r = bits mod BITS_PER_LONG in if r = 0 then word else word AND (push_bit r 1 - 1))"

text \<open>The loop of \<open>get_nodes\<close> over the words at or above \<open>MAX_NUMNODES\<close>; \<open>read_word\<close> fetches a user word.\<close>

function get_nodes_loop :: "(nat \<Rightarrow> vm_error + 64 word) \<Rightarrow> nat \<Rightarrow> vm_error + nat" where
  "get_nodes_loop read_word maxnode =
     (if maxnode > MAX_NUMNODES then
        (case read_word ((maxnode - 1) div BITS_PER_LONG) of
           Inl err \<Rightarrow> Inl err
         | Inr w \<Rightarrow>
             let bits = min maxnode BITS_PER_LONG;
                 t = mask_to_bits w bits;
                 (maxnode, t) =
                   (if maxnode - bits \<ge> MAX_NUMNODES then (maxnode - bits, t)
                    else (MAX_NUMNODES, t AND NOT (push_bit (MAX_NUMNODES mod BITS_PER_LONG) 1 - 1)))
             in if t \<noteq> 0 then Inl Inval else get_nodes_loop read_word maxnode)
      else Inr maxnode)"
  by auto
termination
  by (relation "measure (\<lambda>(r, maxnode). maxnode)") (auto simp: MAX_NUMNODES_def BITS_PER_LONG_def split: if_splits)

definition get_nodes :: "bool \<Rightarrow> u64 \<Rightarrow> (nat \<Rightarrow> vm_error + 64 word) \<Rightarrow> vm_error + node_mask" where
  "get_nodes nmask_present maxnode read_word =
     (let maxnode = wrapping_sub maxnode 1 in
      if maxnode = 0 \<or> \<not> nmask_present then Inr 0
      else if maxnode > MAX_NODEMASK_BITS then Inl Inval
      else case get_nodes_loop read_word maxnode of
        Inl err \<Rightarrow> Inl err
      | Inr maxnode \<Rightarrow>
          (case read_word 0 of Inl err \<Rightarrow> Inl err | Inr w \<Rightarrow> Inr (mask_to_bits w maxnode)))"

record nodemask_out =
  copy_bytes :: nat
  clear_off :: nat
  clear_bytes :: nat

text \<open>\<open>x & !(a - 1)\<close> on a \<open>u64\<close>.\<close>

definition and_not :: "u64 \<Rightarrow> u64 \<Rightarrow> u64" where
  "and_not x a = unat ((of_nat x :: 64 word) AND NOT (of_nat a - 1))"

definition copy_nodes_to_user_plan :: "u64 \<Rightarrow> vm_error + nodemask_out" where
  "copy_nodes_to_user_plan maxnode =
     (let bits = wrapping_sub maxnode 1;
          copy = and_not (wrapping_add bits (BITS_PER_LONG - 1)) BITS_PER_LONG div 8;
          nbytes = (NR_NODE_IDS + BITS_PER_LONG - 1) div BITS_PER_LONG * 8
      in if copy > nbytes then
           if copy > NODEMASK_COPY_MAX_BYTES then Inl Inval
           else Inr \<lparr>copy_bytes = nbytes, clear_off = nbytes, clear_bytes = copy - nbytes\<rparr>
         else Inr \<lparr>copy_bytes = copy, clear_off = 0, clear_bytes = 0\<rparr>)"

section \<open>Policies\<close>

record mem_policy =
  pol_mode :: u16
  pol_flags :: u16
  pol_nodes :: node_mask
  pol_user_nodes :: node_mask
  home_node :: "32 word"

definition stores_user_nodemask :: "mem_policy \<Rightarrow> bool" where
  "stores_user_nodemask p \<longleftrightarrow> pol_flags p AND MPOL_USER_NODEMASK_FLAGS \<noteq> 0"

definition reported_nodes :: "mem_policy \<Rightarrow> node_mask" where
  "reported_nodes p =
     (if stores_user_nodemask p then pol_user_nodes p else if pol_mode p = MPOL_LOCAL then 0 else pol_nodes p)"

definition reported_mode :: "mem_policy \<Rightarrow> 32 word" where
  "reported_mode p = ucast (pol_mode p OR (pol_flags p AND MPOL_MODE_FLAGS))"

definition to_words :: "mem_policy \<Rightarrow> 64 word \<times> 64 word \<times> 64 word" where
  "to_words p =
     (ucast (pol_mode p) OR push_bit 16 (ucast (pol_flags p)) OR push_bit 32 (ucast (home_node p)), pol_nodes p, pol_user_nodes p)"

definition from_words :: "64 word \<times> 64 word \<times> 64 word \<Rightarrow> mem_policy option" where
  "from_words w =
     (case w of (w0, w1, w2) \<Rightarrow>
        if w0 = 0 then None
        else Some \<lparr>pol_mode = ucast (w0 AND 0xffff), pol_flags = ucast (drop_bit 16 w0 AND 0xffff),
                   pol_nodes = w1, pol_user_nodes = w2, home_node = ucast (drop_bit 32 w0)\<rparr>)"

definition sanitize_mpol_flags :: "32 word \<Rightarrow> vm_error + u16 \<times> u16" where
  "sanitize_mpol_flags mode_arg =
     (let flags = ucast (mode_arg AND ucast MPOL_MODE_FLAGS) :: u16;
          mode = mode_arg AND NOT (ucast MPOL_MODE_FLAGS)
      in if mode \<ge> ucast MPOL_MAX then Inl Inval
         else
           let mode = ucast mode :: u16 in
           if flags AND MPOL_F_STATIC_NODES \<noteq> 0 \<and> flags AND MPOL_F_RELATIVE_NODES \<noteq> 0 then Inl Inval
           else if flags AND MPOL_F_NUMA_BALANCING \<noteq> 0 then
             if mode = MPOL_BIND \<or> mode = MPOL_PREFERRED_MANY then Inr (mode, flags OR (MPOL_F_MOF OR MPOL_F_MORON))
             else Inl Inval
           else Inr (mode, flags))"

definition mpol_build :: "u16 \<Rightarrow> u16 \<Rightarrow> node_mask \<Rightarrow> vm_error + mem_policy option" where
  "mpol_build mode flags nodes =
     (let pol = \<lparr>pol_mode = mode, pol_flags = flags, pol_nodes = 0, pol_user_nodes = 0, home_node = NUMA_NO_NODE\<rparr> in
      if mode = MPOL_LOCAL then Inr (Some pol)
      else
        let allowed = nodes_with_memory;
            effective = (if flags AND MPOL_F_RELATIVE_NODES \<noteq> 0 then relative_nodemask nodes allowed else nm_and nodes allowed);
            pol = (if stores_user_nodemask pol then pol\<lparr>pol_user_nodes := nodes\<rparr> else pol)
        in if nm_is_empty effective then Inl Inval
           else Inr (Some (pol\<lparr>pol_nodes := if mode = MPOL_PREFERRED then nm_single (nm_first effective) else effective\<rparr>)))"

definition mpol_new :: "u16 \<Rightarrow> u16 \<Rightarrow> node_mask \<Rightarrow> vm_error + mem_policy option" where
  "mpol_new mode flags nodes =
     (if mode = MPOL_DEFAULT then if \<not> nm_is_empty nodes then Inl Inval else Inr None
      else if mode = MPOL_PREFERRED then
        if nm_is_empty nodes then
          if flags AND MPOL_USER_NODEMASK_FLAGS \<noteq> 0 then Inl Inval else mpol_build MPOL_LOCAL flags nodes
        else mpol_build mode flags nodes
      else if mode = MPOL_LOCAL then
        if \<not> nm_is_empty nodes \<or> flags AND MPOL_USER_NODEMASK_FLAGS \<noteq> 0 then Inl Inval else mpol_build mode flags nodes
      else if nm_is_empty nodes then Inl Inval
      else mpol_build mode flags nodes)"

definition mpol_equal :: "mem_policy option \<Rightarrow> mem_policy option \<Rightarrow> bool" where
  "mpol_equal a b \<longleftrightarrow> a = b"

section \<open>Arguments of the system calls\<close>

definition PAGE_SIZE_BYTES :: u64 where "PAGE_SIZE_BYTES = 4096"

definition page_align :: "u64 \<Rightarrow> u64" where
  "page_align len = and_not (wrapping_add len (PAGE_SIZE_BYTES - 1)) PAGE_SIZE_BYTES"

definition page_offset :: "u64 \<Rightarrow> u64" where
  "page_offset x = unat ((of_nat x :: 64 word) AND (of_nat PAGE_SIZE_BYTES - 1))"

definition align_range :: "u64 \<Rightarrow> u64 \<Rightarrow> vm_error + (u64 \<times> u64) option" where
  "align_range start len =
     (if page_offset start \<noteq> 0 then Inl Inval
      else
        let len = page_align len; fin = wrapping_add start len in
        if fin < start then Inl Inval else if fin = start then Inr None else Inr (Some (start, fin)))"

definition mseal_len :: "u64 \<Rightarrow> vm_error + u64" where
  "mseal_len len_in =
     (let len = and_not (wrapping_add len_in (PAGE_SIZE_BYTES - 1)) PAGE_SIZE_BYTES in
      if len_in \<noteq> 0 \<and> len = 0 then Inl Inval else Inr len)"

definition mseal_args :: "u64 \<Rightarrow> u64 \<Rightarrow> u64 \<Rightarrow> vm_error + (u64 \<times> u64) option" where
  "mseal_args start len_in flags =
     (if flags \<noteq> 0 then Inl Inval
      else if page_offset start \<noteq> 0 then Inl Inval
      else case mseal_len len_in of
        Inl err \<Rightarrow> Inl err
      | Inr len \<Rightarrow>
          let fin = wrapping_add start len in
          if fin < start then Inl Inval else if fin = start then Inr None else Inr (Some (start, fin)))"

definition mbind_flags :: "64 word \<Rightarrow> bool \<Rightarrow> vm_error + unit" where
  "mbind_flags flags cap_sys_nice =
     (if flags AND NOT MPOL_MF_VALID \<noteq> 0 then Inl Inval
      else if flags AND MPOL_MF_MOVE_ALL \<noteq> 0 \<and> \<not> cap_sys_nice then Inl Perm
      else Inr ())"

definition move_pages_flags :: "64 word \<Rightarrow> bool \<Rightarrow> vm_error + unit" where
  "move_pages_flags flags cap_sys_nice =
     (if flags AND NOT MPOL_MF_MOVE_VALID \<noteq> 0 then Inl Inval
      else if flags AND MPOL_MF_MOVE_ALL \<noteq> 0 \<and> \<not> cap_sys_nice then Inl Perm
      else Inr ())"

definition home_node_ok :: "u64 \<Rightarrow> bool" where
  "home_node_ok node \<longleftrightarrow> node < MAX_NUMNODES \<and> node = NODE_ID_LOCAL"

datatype move_pages_node_err = MpNoDev | MpAccess

definition move_pages_target_node :: "int \<Rightarrow> move_pages_node_err + nat" where
  "move_pages_target_node node =
     (if node < 0 \<or> nat node \<ge> MAX_NUMNODES then Inl MpNoDev
      else if nat node mod 65536 \<noteq> NODE_ID_LOCAL then Inl MpNoDev
      else Inr (nat node mod 65536))"

section \<open>Queries\<close>

datatype get_policy_kind = MemsAllowed | VmaPolicy bool | TaskPolicy bool

definition get_mempolicy_kind :: "64 word \<Rightarrow> u64 \<Rightarrow> vm_error + get_policy_kind" where
  "get_mempolicy_kind flags addr =
     (if flags AND NOT MPOL_F_GET_VALID \<noteq> 0 then Inl Inval
      else if flags AND MPOL_F_MEMS_ALLOWED \<noteq> 0 then
        if flags AND (MPOL_F_NODE OR MPOL_F_ADDR) \<noteq> 0 then Inl Inval else Inr MemsAllowed
      else
        let node = (flags AND MPOL_F_NODE \<noteq> 0) in
        if flags AND MPOL_F_ADDR \<noteq> 0 then Inr (VmaPolicy node)
        else if addr \<noteq> 0 then Inl Inval
        else Inr (TaskPolicy node))"

definition IL_PREV_INIT :: nat where "IL_PREV_INIT = MAX_NUMNODES - 1"

definition next_node_in :: "nat \<Rightarrow> node_mask \<Rightarrow> nat" where
  "next_node_in n nmask =
     (if nm_is_empty nmask then MAX_NUMNODES
      else case find (\<lambda>step. nm_is_set nmask ((n + step) mod MAX_NUMNODES)) [1..<MAX_NUMNODES + 1] of
        Some step \<Rightarrow> (n + step) mod MAX_NUMNODES
      | None \<Rightarrow> MAX_NUMNODES)"

record policy_report =
  rep_policy :: "32 word"
  rep_nodes :: node_mask

definition report_policy :: "get_policy_kind \<Rightarrow> mem_policy option \<Rightarrow> nat option \<Rightarrow> vm_error + policy_report" where
  "report_policy kind pol node_at_addr =
     (let nodes = (case pol of Some p \<Rightarrow> reported_nodes p | None \<Rightarrow> 0);
          plain = (case pol of Some p \<Rightarrow> reported_mode p | None \<Rightarrow> ucast MPOL_DEFAULT)
      in case kind of
        MemsAllowed \<Rightarrow> Inr \<lparr>rep_policy = 0, rep_nodes = nodes_with_memory\<rparr>
      | VmaPolicy node \<Rightarrow>
          if node then
            (case node_at_addr of None \<Rightarrow> Inl Fault | Some n \<Rightarrow> Inr \<lparr>rep_policy = of_nat n, rep_nodes = nodes\<rparr>)
          else Inr \<lparr>rep_policy = plain, rep_nodes = nodes\<rparr>
      | TaskPolicy node \<Rightarrow>
          if node then
            (case pol of
               Some p \<Rightarrow>
                 if pol_mode p = MPOL_INTERLEAVE \<or> pol_mode p = MPOL_WEIGHTED_INTERLEAVE
                 then Inr \<lparr>rep_policy = of_nat (next_node_in IL_PREV_INIT (pol_nodes p)), rep_nodes = nodes\<rparr>
                 else Inl Inval
             | None \<Rightarrow> Inl Inval)
          else Inr \<lparr>rep_policy = plain, rep_nodes = nodes\<rparr>)"

declare get_nodes_loop.simps [simp del] nodes_onto.simps [simp del]

section \<open>Word facts\<close>

lemma and_not_power:
  assumes "x \<le> U64_MAX" and "n < 64"
  shows "and_not x (2 ^ n) = x - x mod 2 ^ n"
proof -
  have m: "(of_nat (2 ^ n) - 1 :: 64 word) = mask n" by (simp add: mask_eq_exp_minus_1)
  have x: "unat (of_nat x :: 64 word) = x" using assms(1) by (simp add: unat_of_nat U64_MAX_def)
  have "NOT (of_nat x :: 64 word) AND take_bit n (of_nat x) = 0"
    by (rule bit_eqI) (auto simp: bit_simps)
  then have "of_nat x - take_bit n (of_nat x :: 64 word) = of_nat x AND NOT (take_bit n (of_nat x))"
    by (rule disjunctive_diff_eq_and_not)
  also have "\<dots> = (of_nat x :: 64 word) AND NOT (mask n)"
    by (rule bit_eqI) (auto simp: bit_simps)
  finally have "(of_nat x :: 64 word) AND NOT (mask n) = of_nat x - take_bit n (of_nat x)" by (rule sym)
  moreover have "unat (take_bit n (of_nat x :: 64 word)) = x mod 2 ^ n"
    unfolding unsigned_take_bit_eq x by (simp add: take_bit_eq_mod)
  moreover have "take_bit n (of_nat x :: 64 word) \<le> of_nat x"
    using x calculation(2) by (simp add: word_le_nat_alt)
  ultimately show ?thesis unfolding and_not_def m by (simp add: unat_sub x)
qed

lemma and_power_iff [simp]: "(w :: 64 word) AND 2 ^ n = 0 \<longleftrightarrow> \<not> bit w n"
  unfolding bit_iff_and_push_bit_not_eq_0 [of w n] by simp

lemma and_bit_iff: "(w :: 64 word) AND push_bit n 1 \<noteq> 0 \<longleftrightarrow> bit w n"
  by simp


section \<open>The user node mask\<close>

lemma get_nodes_loop_unfold:
  assumes "64 < n"
  shows "get_nodes_loop rd n =
    (case rd ((n - 1) div 64) of Inl err \<Rightarrow> Inl err | Inr w \<Rightarrow> if w \<noteq> 0 then Inl Inval else get_nodes_loop rd (max (n - 64) 64))"
  using assms by (subst get_nodes_loop.simps)
    (auto simp: MAX_NUMNODES_def BITS_PER_LONG_def mask_to_bits_def Let_def min_def max_def split: sum.splits)

lemma get_nodes_loop_small: "n \<le> 64 \<Longrightarrow> get_nodes_loop rd n = Inr n"
  by (subst get_nodes_loop.simps) (simp add: MAX_NUMNODES_def)

lemma get_nodes_loop_iff:
  "get_nodes_loop rd n = Inr k \<longleftrightarrow> k = min n 64 \<and> (\<forall>i. 1 \<le> i \<and> i \<le> (n - 1) div 64 \<longrightarrow> rd i = Inr 0)"
proof (induction n arbitrary: k rule: less_induct)
  case (less n)
  show ?case
  proof (cases "64 < n")
    case False
    then have "(n - 1) div 64 = 0" by (intro div_less) linarith
    then show ?thesis using False by (auto simp: get_nodes_loop_small)
  next
    case True
    define top where "top = (n - 1) div 64"
    have top: "1 \<le> top" "(max (n - 64) 64 - 1) div 64 = top - 1" using True unfolding top_def by (auto simp: max_def)
    have "get_nodes_loop rd (max (n - 64) 64) = Inr k \<longleftrightarrow>
        k = 64 \<and> (\<forall>i. 1 \<le> i \<and> i \<le> top - 1 \<longrightarrow> rd i = Inr 0)"
      using less.IH [of "max (n - 64) 64" k] True top(2) by (simp add: max_def)
    note rest = this
    have split: "(\<forall>i. 1 \<le> i \<and> i \<le> top \<longrightarrow> rd i = Inr 0) \<longleftrightarrow> rd top = Inr 0 \<and> (\<forall>i. 1 \<le> i \<and> i \<le> top - 1 \<longrightarrow> rd i = Inr 0)"
    proof -
      have eq: "1 \<le> i \<and> i \<le> top \<longleftrightarrow> i = top \<or> (1 \<le> i \<and> i \<le> top - 1)" for i using top(1) by linarith
      show ?thesis unfolding eq by blast
    qed
    have "get_nodes_loop rd n = Inr k \<longleftrightarrow> rd top = Inr 0 \<and> get_nodes_loop rd (max (n - 64) 64) = Inr k"
      unfolding get_nodes_loop_unfold [OF True] top_def by (auto split: sum.splits)
    then show ?thesis unfolding top_def [symmetric] split rest using True by auto
  qed
qed

section \<open>Packing\<close>

lemma from_to_words:
  assumes "pol_mode p \<noteq> 0"
  shows "from_words (to_words p) = Some p"
proof -
  let ?w = "ucast (pol_mode p) OR push_bit 16 (ucast (pol_flags p)) OR push_bit 32 (ucast (home_node p)) :: 64 word"
  have ffff: "(0xffff :: 64 word) = mask 16" by (simp add: mask_eq_exp_minus_1)
  have m: "ucast (?w AND 0xffff) = pol_mode p" unfolding ffff
    by (rule bit_word_eqI) (auto simp: bit_simps)
  have f: "ucast (drop_bit 16 ?w AND 0xffff) = pol_flags p" unfolding ffff
    by (rule bit_word_eqI) (auto simp: bit_simps dest: bit_imp_le_length)
  have h: "ucast (drop_bit 32 ?w) = home_node p"
    by (rule bit_word_eqI) (auto simp: bit_simps dest: bit_imp_le_length)
  have "?w \<noteq> 0" using m assms by auto
  then show ?thesis using m f h by (simp add: from_words_def to_words_def)
qed

section \<open>Relative masks\<close>

lemma nodes_fold_acc:
  "bit (fold (\<lambda>b folded. if orig AND push_bit b 1 \<noteq> 0 then folded OR push_bit (b mod w) 1 else folded) bs acc) i \<longleftrightarrow>
     bit acc i \<or> (\<exists>b\<in>set bs. bit (orig :: 64 word) b \<and> b mod w = i \<and> i < 64)" for acc :: "64 word"
  by (induction bs arbitrary: acc) (auto simp: and_bit_iff bit_simps)

lemma nodes_fold_bit: "bit (nodes_fold orig w) i \<longleftrightarrow> i < 64 \<and> (\<exists>b < 64. bit orig b \<and> b mod w = i)"
  unfolding nodes_fold_def nodes_fold_acc by (auto simp: MAX_NUMNODES_def)

lemma nonzero_bit: "(m :: 64 word) \<noteq> 0 \<longleftrightarrow> (\<exists>i < 64. bit m i)"
  by (auto simp: bit_eq_iff dest: bit_imp_le_length)

lemma trailing_zeros_bit:
  assumes "m \<noteq> 0"
  shows "bit m (trailing_zeros m)" "trailing_zeros m < 64"
proof -
  obtain i where i: "i < 64" "bit m i" using assms nonzero_bit by blast
  then have "find (bit m) [0..<64] \<noteq> None" by (auto simp: find_None_iff)
  then obtain j where j: "find (bit m) [0..<64] = Some j" by blast
  then have "bit m j \<and> j < 64" by (auto simp: find_Some_iff)
  then show "bit m (trailing_zeros m)" "trailing_zeros m < 64" using j by (simp_all add: trailing_zeros_def)
qed

lemma nodes_onto_subset: "bit (nodes_onto folded rem i out) b \<Longrightarrow> bit out b \<or> bit rem b"
proof (induction folded rem i out rule: nodes_onto.induct)
  case (1 folded rem i out)
  show ?case
  proof (cases "rem = 0")
    case True
    then show ?thesis using "1.prems" by (simp add: nodes_onto.simps)
  next
    case False
    let ?out = "if folded AND push_bit i 1 \<noteq> 0 then out OR push_bit (trailing_zeros rem) 1 else out"
    have "bit (nodes_onto folded (rem AND (rem - 1)) (i + 1) ?out) b"
      using "1.prems" False by (subst (asm) nodes_onto.simps) (simp add: Let_def)
    then have "bit ?out b \<or> bit (rem AND (rem - 1)) b" using "1.IH" [OF False refl refl] by blast
    then show ?thesis using trailing_zeros_bit [OF False] by (auto simp: bit_simps split: if_splits)
  qed
qed

lemma nodes_with_memory_1: "nodes_with_memory = 1"
  by (simp add: nodes_with_memory_def nm_single_def NODE_ID_LOCAL_def)

lemma one_bits: "filter (bit (1 :: 64 word)) [0..<64] = [0]" "find (bit (1 :: 64 word)) [0..<64] = Some 0"
proof -
  have u: "[0..<64] = 0 # [1..<64]" by (simp add: upt_conv_Cons)
  have "filter (bit (1 :: 64 word)) [1..<64] = []" by (auto simp: filter_empty_conv bit_1_iff)
  then show "filter (bit (1 :: 64 word)) [0..<64] = [0]" "find (bit (1 :: 64 word)) [0..<64] = Some 0" unfolding u by simp_all
qed

lemma relative_local: "relative_nodemask orig nodes_with_memory = (if orig = 0 then 0 else 1)"
proof -
  have w: "nm_weight 1 = 1" "trailing_zeros 1 = 0" by (simp_all add: nm_weight_def count_ones_def one_bits trailing_zeros_def)
  have "nodes_fold orig 1 AND push_bit 0 1 \<noteq> 0 \<longleftrightarrow> orig \<noteq> 0"
    unfolding and_bit_iff by (simp add: nodes_fold_bit nonzero_bit)
  moreover have "nodes_onto f 1 0 0 = (if f AND push_bit 0 1 \<noteq> 0 then 1 else 0)" for f
    by (simp add: nodes_onto.simps w Let_def)
  ultimately show ?thesis by (simp add: relative_nodemask_def nodes_with_memory_1 w)
qed

lemma mpol_build_spec:
  assumes "mpol_build mode flags nodes = Inr (Some p)" and "mode = MPOL_LOCAL \<longrightarrow> nodes = 0 \<and> flags AND MPOL_USER_NODEMASK_FLAGS = 0"
  shows "pol_mode p = mode \<and> pol_flags p = flags \<and> pol_nodes p = (if mode = MPOL_LOCAL then 0 else 1) \<and>
    reported_nodes p = (if flags AND MPOL_USER_NODEMASK_FLAGS \<noteq> 0 then nodes else pol_nodes p)"
proof -
  have one: "nm_single (nm_first 1) = 1" by (simp add: nm_single_def nm_first_def trailing_zeros_def one_bits)
  have bit0: "nodes AND 1 = (if bit nodes 0 then 1 else 0)" by (simp add: and_one_eq odd_iff_mod_2_eq_one bit_0)
  have eff: "(if flags AND MPOL_F_RELATIVE_NODES \<noteq> 0 then relative_nodemask nodes nodes_with_memory else nm_and nodes nodes_with_memory) \<in> {0, 1}"
    unfolding relative_local by (simp add: nm_and_def nodes_with_memory_1 bit0)
  show ?thesis
    using assms eff unfolding mpol_build_def Let_def
    by (auto simp: nm_is_empty_def stores_user_nodemask_def reported_nodes_def one split: if_splits)
qed

section \<open>Properties\<close>

text \<open>C35: \<open>get_nodes\<close> accepts a user mask exactly when its length is at most 32768 bits, every word above node
  63 that the length covers is readable and zero, and word 0 is readable; the result is word 0 cut
  to the length. A length of 0 wraps around and is rejected unless the pointer is null.\<close>

theorem get_nodes_exact:
  assumes "n \<le> U64_MAX" and "n \<noteq> 1"
  shows "get_nodes True n rd = Inr m \<longleftrightarrow>
     2 \<le> n \<and> n \<le> 32769 \<and> (\<forall>i. 1 \<le> i \<and> i \<le> (n - 2) div 64 \<longrightarrow> rd i = Inr 0) \<and>
     (\<exists>w. rd 0 = Inr w \<and> m = (if n \<le> 64 then take_bit (n - 1) w else w))"
proof (cases "n = 0")
  case True
  then show ?thesis by (simp add: get_nodes_def wrapping_sub_def MAX_NODEMASK_BITS_def)
next
  case False
  then have n: "2 \<le> n" "wrapping_sub n 1 = n - 1" using assms by (simp_all add: wrapping_sub_eq)
  have cut: "mask_to_bits w (min (n - 1) 64) = (if n \<le> 64 then take_bit (n - 1) w else w)" for w
  proof (cases "n \<le> 64")
    case True
    then have "min (n - 1) 64 mod 64 = n - 1" "n - 1 \<noteq> 0" using n by (simp_all add: min_def)
    then show ?thesis using True by (simp add: mask_to_bits_def BITS_PER_LONG_def Let_def take_bit_eq_mask mask_eq_exp_minus_1)
  next
    case False
    then have "min (n - 1) 64 = 64" by simp
    then show ?thesis using False by (simp add: mask_to_bits_def BITS_PER_LONG_def)
  qed
  have "get_nodes True n rd = Inr m \<longleftrightarrow>
      n - 1 \<le> 32768 \<and> (\<exists>k w. get_nodes_loop rd (n - 1) = Inr k \<and> rd 0 = Inr w \<and> m = mask_to_bits w k)"
    using n by (auto simp: get_nodes_def MAX_NODEMASK_BITS_def Let_def split: sum.splits if_splits)
  then show ?thesis using n cut by (auto simp: get_nodes_loop_iff diff_diff_left numeral_2_eq_2)
qed

theorem get_nodes_exact_witness: "get_nodes True 65 (\<lambda>i. if i = 0 then Inr 5 else Inr 0) = Inr 5"
  using get_nodes_exact [of 65 "\<lambda>i. if i = 0 then Inr 5 else Inr 0" 5] by (simp add: U64_MAX_def)

text \<open>C36: a policy that \<open>mpol_new\<close> builds never has the default mode, an empty preferred mask becomes the local
  policy, its effective mask is the one node with memory (empty for the local policy), it reports
  the caller's own mask exactly under the static or relative flag, and packing it into words and
  back is the identity whatever home node is set.\<close>

theorem mpol_new_spec:
  assumes "mpol_new mode flags nodes = Inr (Some p)"
  shows "pol_mode p = (if mode = MPOL_PREFERRED \<and> nodes = 0 then MPOL_LOCAL else mode) \<and> pol_mode p \<noteq> MPOL_DEFAULT \<and>
     pol_flags p = flags \<and> pol_nodes p = (if pol_mode p = MPOL_LOCAL then 0 else nodes_with_memory) \<and>
     reported_nodes p = (if flags AND MPOL_USER_NODEMASK_FLAGS \<noteq> 0 then nodes else pol_nodes p) \<and>
     from_words (to_words (p\<lparr>home_node := h\<rparr>)) = Some (p\<lparr>home_node := h\<rparr>)"
proof -
  let ?mode = "if mode = MPOL_PREFERRED \<and> nodes = 0 then MPOL_LOCAL else mode"
  have d: "MPOL_PREFERRED \<noteq> MPOL_LOCAL" "MPOL_LOCAL \<noteq> 0" by (simp_all add: MPOL_PREFERRED_def MPOL_LOCAL_def)
  have b: "mpol_build ?mode flags nodes = Inr (Some p)" "mode \<noteq> 0"
    and l: "?mode = MPOL_LOCAL \<longrightarrow> nodes = 0 \<and> flags AND MPOL_USER_NODEMASK_FLAGS = 0"
    using assms d by (auto simp: mpol_new_def nm_is_empty_def MPOL_DEFAULT_def split: if_splits)
  have "?mode \<noteq> 0" using b(2) d by auto
  then show ?thesis
    using mpol_build_spec [OF b(1) l] from_to_words [of "p\<lparr>home_node := h\<rparr>"] by (auto simp: MPOL_DEFAULT_def nodes_with_memory_1)
qed

theorem mpol_new_spec_witness:
  "\<exists>p. mpol_new MPOL_BIND 0 1 = Inr (Some p) \<and> from_words (to_words (p\<lparr>home_node := 0\<rparr>)) = Some (p\<lparr>home_node := 0\<rparr>)"
proof -
  have "\<exists>p. mpol_new MPOL_BIND 0 1 = Inr (Some p)"
    by (simp add: mpol_new_def mpol_build_def MPOL_BIND_def MPOL_DEFAULT_def MPOL_PREFERRED_def MPOL_LOCAL_def nm_is_empty_def Let_def
        nm_and_def nodes_with_memory_1)
  then obtain p where p: "mpol_new MPOL_BIND 0 1 = Inr (Some p)" by blast
  show ?thesis using p mpol_new_spec [OF p, of 0] by blast
qed

text \<open>C37: \<open>mseal_args\<close> accepts a range exactly when no flag is set, the start is page aligned and the length
  rounded up to pages neither wraps nor carries the end past the 64-bit space; an empty length is
  the early success, and every other input is \<open>Inval\<close>.\<close>

theorem mseal_args_exact:
  assumes "start \<le> U64_MAX" and "len \<le> U64_MAX"
  shows "mseal_args start len flags =
    (let L = (len + 4095) div 4096 * 4096 in
     if flags \<noteq> 0 \<or> start mod 4096 \<noteq> 0 then Inl Inval
     else if len = 0 then Inr None
     else if start + L \<le> U64_MAX then Inr (Some (start, start + L)) else Inl Inval)"
proof -
  have off: "page_offset start = start mod 4096"
  proof -
    have "(of_nat PAGE_SIZE_BYTES - 1 :: 64 word) = mask 12" by (simp add: PAGE_SIZE_BYTES_def mask_eq_exp_minus_1)
    then have "page_offset start = unat (take_bit 12 (of_nat start :: 64 word))"
      by (simp add: page_offset_def take_bit_eq_mask)
    also have "\<dots> = start mod 4096"
      unfolding unsigned_take_bit_eq using assms(1) by (simp add: unat_of_nat U64_MAX_def take_bit_eq_mod)
    finally show ?thesis .
  qed
  define L where "L = (len + 4095) div 4096 * 4096"
  have mlen: "mseal_len len = (if len + 4095 \<le> U64_MAX then Inr L else Inl Inval)"
  proof (cases "len + 4095 \<le> U64_MAX")
    case True
    then have "and_not (wrapping_add len 4095) 4096 = L"
      using and_not_power [of "len + 4095" 12] by (simp add: wrapping_add_eq L_def minus_mod_eq_div_mult)
    moreover have "L \<noteq> 0" if "len \<noteq> 0" using that by (auto simp: L_def)
    ultimately show ?thesis using True by (cases "len = 0") (auto simp: mseal_len_def PAGE_SIZE_BYTES_def)
  next
    case False
    then have "wrapping_add len 4095 = len + 4095 - 18446744073709551616"
      using assms(2) unfolding wrapping_add_def U64_MAX_def by (subst le_mod_geq) simp_all
    then have x: "wrapping_add len 4095 < 4096" "wrapping_add len 4095 \<le> U64_MAX" using assms(2) by (simp_all add: U64_MAX_def)
    then have "and_not (wrapping_add len 4095) 4096 = 0" using and_not_power [OF x(2), of 12] by simp
    moreover have "len \<noteq> 0" using False by (auto simp: U64_MAX_def)
    ultimately show ?thesis using False by (simp add: mseal_len_def PAGE_SIZE_BYTES_def)
  qed
  have big: "U64_MAX < start + L" if "\<not> len + 4095 \<le> U64_MAX"
  proof -
    have "18446744073709551616 div 4096 \<le> (len + 4095) div 4096" using that by (intro div_le_mono) (simp add: U64_MAX_def)
    then show ?thesis by (simp add: L_def U64_MAX_def)
  qed
  have fin: "wrapping_add start L < start \<longleftrightarrow> U64_MAX < start + L" if "len + 4095 \<le> U64_MAX"
  proof -
    have "L \<le> U64_MAX" using that by (simp add: L_def)
    then show ?thesis using assms(1) by (cases "start + L \<le> U64_MAX") (auto simp: wrapping_add_eq, auto simp: wrapping_add_def U64_MAX_def le_mod_geq)
  qed
  have zero: "L = 0 \<longleftrightarrow> len = 0" by (auto simp: L_def)
  show ?thesis
    using mlen big fin zero assms by (auto simp: mseal_args_def off Let_def wrapping_add_eq L_def [symmetric] not_le)
qed

theorem mseal_args_exact_witness: "mseal_args 0x40000000 1 0 = Inr (Some (0x40000000, 0x40001000))"
  using mseal_args_exact [of "0x40000000" 1 0] by (simp add: U64_MAX_def)

end
