(* ===== verification/Vma.thy ===== *)
theory Vma
  imports Mempolicy
begin

text \<open>
  Virtual memory areas (\<open>mm-vmm/src/vma.rs\<close>, \<open>vma/clone.rs\<close>, the user address type of \<open>hal/src/types.rs\<close>
  and the leaf flags of \<open>hal/src/flags.rs\<close>). Reference-counted objects (mapped files, byte blobs, page
  vectors, anonymous families, userfaultfd contexts) are identities; \<open>Arc::ptr_eq\<close> is equality of
  identities.
\<close>

section \<open>Addresses\<close>

definition USER_VA_END :: u64 where "USER_VA_END = 0x0000800000000000"

definition uva_new :: "u64 \<Rightarrow> u64 option" where
  "uva_new raw = (if raw < USER_VA_END then Some raw else None)"

definition uva_checked_add :: "u64 \<Rightarrow> u64 \<Rightarrow> u64 option" where
  "uva_checked_add a off = (case checked_add a off of Some v \<Rightarrow> if v < USER_VA_END then Some v else None | None \<Rightarrow> None)"

section \<open>Protection and flags\<close>

type_synonym vma_prot = "8 word"
type_synonym vma_flags = "32 word"
type_synonym page_flags = "64 word"

definition fl_contains :: "'a::len word \<Rightarrow> 'a word \<Rightarrow> bool" where "fl_contains a b \<longleftrightarrow> a AND b = b"
definition fl_difference :: "'a::len word \<Rightarrow> 'a word \<Rightarrow> 'a word" where "fl_difference a b = a AND NOT b"

definition PROT_READ :: vma_prot where "PROT_READ = push_bit 0 1"
definition PROT_WRITE :: vma_prot where "PROT_WRITE = push_bit 1 1"
definition PROT_EXEC :: vma_prot where "PROT_EXEC = push_bit 2 1"

definition PF_READ :: page_flags where "PF_READ = push_bit 0 1"
definition PF_WRITE :: page_flags where "PF_WRITE = push_bit 1 1"
definition PF_EXEC :: page_flags where "PF_EXEC = push_bit 2 1"
definition PF_USER :: page_flags where "PF_USER = push_bit 3 1"
definition PKEY_MASK :: page_flags where "PKEY_MASK = push_bit 8 1 OR push_bit 9 1 OR push_bit 10 1 OR push_bit 11 1"

definition with_pkey :: "page_flags \<Rightarrow> 8 word \<Rightarrow> page_flags" where
  "with_pkey f pkey = (f AND NOT PKEY_MASK) OR (push_bit 8 (ucast pkey) AND PKEY_MASK)"

definition pkey_of :: "page_flags \<Rightarrow> 8 word" where
  "pkey_of f = ucast (drop_bit 8 (f AND PKEY_MASK))"

datatype fault_access = FaRead | FaWrite | FaExec

datatype fault_kind = NotPresent fault_access | Protection fault_access

definition to_page_flags :: "vma_prot \<Rightarrow> page_flags" where
  "to_page_flags p =
     (let pf = PF_USER;
          pf = (if fl_contains p PROT_READ then pf OR PF_READ else pf);
          pf = (if fl_contains p PROT_WRITE then pf OR PF_WRITE else pf)
      in if fl_contains p PROT_EXEC then pf OR PF_EXEC else pf)"

fun prot_permits :: "vma_prot \<Rightarrow> fault_access \<Rightarrow> bool" where
  "prot_permits p FaRead = fl_contains p PROT_READ"
| "prot_permits p FaWrite = fl_contains p PROT_WRITE"
| "prot_permits p FaExec = fl_contains p PROT_EXEC"

definition VM_SHARED :: vma_flags where "VM_SHARED = push_bit 0 1"
definition VM_PRIVATE :: vma_flags where "VM_PRIVATE = push_bit 1 1"
definition VM_ANONYMOUS :: vma_flags where "VM_ANONYMOUS = push_bit 2 1"
definition VM_GROWSDOWN :: vma_flags where "VM_GROWSDOWN = push_bit 3 1"
definition VM_LOCKED :: vma_flags where "VM_LOCKED = push_bit 4 1"
definition VM_SEALED :: vma_flags where "VM_SEALED = push_bit 5 1"
definition VM_DONTFORK :: vma_flags where "VM_DONTFORK = push_bit 6 1"
definition VM_WIPEONFORK :: vma_flags where "VM_WIPEONFORK = push_bit 7 1"
definition VM_UFFD_MISSING :: vma_flags where "VM_UFFD_MISSING = push_bit 8 1"
definition VM_RAND_READ :: vma_flags where "VM_RAND_READ = push_bit 9 1"
definition VM_SEQ_READ :: vma_flags where "VM_SEQ_READ = push_bit 10 1"
definition VM_DONTDUMP :: vma_flags where "VM_DONTDUMP = push_bit 11 1"
definition VM_MERGEABLE :: vma_flags where "VM_MERGEABLE = push_bit 12 1"
definition VM_HUGEPAGE :: vma_flags where "VM_HUGEPAGE = push_bit 13 1"
definition VM_NOHUGEPAGE :: vma_flags where "VM_NOHUGEPAGE = push_bit 14 1"
definition VM_SYSVSHM :: vma_flags where "VM_SYSVSHM = push_bit 15 1"
definition VM_LOCKONFAULT :: vma_flags where "VM_LOCKONFAULT = push_bit 16 1"
definition VM_UFFD_WP :: vma_flags where "VM_UFFD_WP = push_bit 17 1"
definition VM_UFFD_MINOR :: vma_flags where "VM_UFFD_MINOR = push_bit 18 1"
definition VM_SECRETMEM :: vma_flags where "VM_SECRETMEM = push_bit 19 1"
definition VM_NT_RESERVED :: vma_flags where "VM_NT_RESERVED = push_bit 20 1"
definition VM_NT_SECTION_VIEW :: vma_flags where "VM_NT_SECTION_VIEW = push_bit 21 1"
definition VM_NT_WRITE_WATCH :: vma_flags where "VM_NT_WRITE_WATCH = push_bit 22 1"
definition VM_NT_IMAGE_VIEW :: vma_flags where "VM_NT_IMAGE_VIEW = push_bit 23 1"

definition UFFD_MASK :: vma_flags where "UFFD_MASK = VM_UFFD_MISSING OR VM_UFFD_WP OR VM_UFFD_MINOR"
definition LOCKED_MASK :: vma_flags where "LOCKED_MASK = VM_LOCKED OR VM_LOCKONFAULT"
definition EXEC_STACK_VMA_FLAGS :: vma_flags where "EXEC_STACK_VMA_FLAGS = VM_PRIVATE OR VM_ANONYMOUS OR VM_GROWSDOWN"

section \<open>Backings and areas\<close>

datatype phys_cache_mode = WriteBack | Device | WriteCombine

type_synonym obj = nat

datatype vma_backing =
    Anonymous
  | FileB obj u64
  | KernelBytes obj u64
  | KernelFrame u64
  | KernelPages obj u64
  | PhysRange u64 phys_cache_mode
  | Special

fun backing_eq :: "vma_backing \<Rightarrow> vma_backing \<Rightarrow> bool" where
  "backing_eq Anonymous Anonymous = True"
| "backing_eq (FileB ab ao) (FileB bb bo) = (ab = bb \<and> ao = bo)"
| "backing_eq Special Special = True"
| "backing_eq (KernelBytes a ao) (KernelBytes b bo) = (a = b \<and> ao = bo)"
| "backing_eq (KernelFrame a) (KernelFrame b) = (a = b)"
| "backing_eq (KernelPages a ao) (KernelPages b bo) = (a = b \<and> ao = bo)"
| "backing_eq (PhysRange a ac) (PhysRange b bc) = (a = b \<and> ac = bc)"
| "backing_eq _ _ = False"

record vma =
  v_start :: u64
  v_end :: u64
  v_prot :: vma_prot
  may_prot :: vma_prot
  pkey :: "8 word"
  v_flags :: vma_flags
  backing :: vma_backing
  rss :: u64
  anon_vma :: "obj option"
  anon_pages :: bool
  file_rmap :: "obj option"
  anon_name :: "string option"
  uffd :: "obj option"
  mempolicy :: "mem_policy option"
  mapping_origin :: "u64 option"

text \<open>\<open>fresh\<close> is the identity of a new anonymous family, \<open>rmap\<close> the \<open>file_rmap\<close> method of the mapped object.\<close>

definition new_with_may :: "obj \<Rightarrow> (obj \<Rightarrow> obj option) \<Rightarrow> u64 \<Rightarrow> u64 \<Rightarrow> vma_prot \<Rightarrow> vma_prot \<Rightarrow> vma_flags \<Rightarrow> vma_backing \<Rightarrow> vma" where
  "new_with_may fresh rmap s e prot may flags b =
     \<lparr>v_start = s, v_end = e, v_prot = prot, may_prot = may, pkey = 0, v_flags = flags, backing = b, rss = 0,
      anon_vma = (case b of Anonymous \<Rightarrow> Some fresh | _ \<Rightarrow> None), anon_pages = False,
      file_rmap = (case b of FileB f _ \<Rightarrow> rmap f | _ \<Rightarrow> None), anon_name = None, uffd = None, mempolicy = None,
      mapping_origin = None\<rparr>"

definition vma_new :: "obj \<Rightarrow> (obj \<Rightarrow> obj option) \<Rightarrow> u64 \<Rightarrow> u64 \<Rightarrow> vma_prot \<Rightarrow> vma_flags \<Rightarrow> vma_backing \<Rightarrow> vma" where
  "vma_new fresh rmap s e prot flags b = new_with_may fresh rmap s e prot (PROT_READ OR PROT_WRITE OR PROT_EXEC) flags b"

definition vma_contains :: "vma \<Rightarrow> u64 \<Rightarrow> bool" where
  "vma_contains v va \<longleftrightarrow> va \<ge> v_start v \<and> va < v_end v"

definition vma_permits :: "vma \<Rightarrow> fault_access \<Rightarrow> bool" where "vma_permits v a = prot_permits (v_prot v) a"

definition page_flags_of :: "vma \<Rightarrow> page_flags" where "page_flags_of v = with_pkey (to_page_flags (v_prot v)) (pkey v)"

definition len_bytes :: "vma \<Rightarrow> u64" where "len_bytes v = v_end v - v_start v"

definition uffd_ptr_eq :: "obj option \<Rightarrow> obj option \<Rightarrow> bool" where
  "uffd_ptr_eq a b = (case (a, b) of (None, None) \<Rightarrow> True | (Some x, Some y) \<Rightarrow> x = y | _ \<Rightarrow> False)"

fun backing_mergeable :: "vma_backing \<Rightarrow> vma_backing \<Rightarrow> u64 \<Rightarrow> bool" where
  "backing_mergeable Anonymous Anonymous len = True"
| "backing_mergeable (FileB ab a) (FileB bb b) len =
     (if ab \<noteq> bb then False else case checked_add a len of None \<Rightarrow> False | Some aend \<Rightarrow> aend = b)"
| "backing_mergeable _ _ len = False"

definition mergeable_with_next :: "vma \<Rightarrow> vma \<Rightarrow> bool" where
  "mergeable_with_next v n =
     (if v_end v \<noteq> v_start n then False
      else if v_prot v \<noteq> v_prot n then False
      else if may_prot v \<noteq> may_prot n then False
      else if pkey v \<noteq> pkey n then False
      else if v_flags v \<noteq> v_flags n then False
      else if anon_name v \<noteq> anon_name n then False
      else if \<not> uffd_ptr_eq (uffd v) (uffd n) then False
      else if \<not> mpol_equal (mempolicy v) (mempolicy n) then False
      else backing_mergeable (backing v) (backing n) (len_bytes v))"

text \<open>The copy that \<open>fork\<close> makes.\<close>

definition vma_clone :: "vma \<Rightarrow> vma" where
  "vma_clone v = v\<lparr>v_flags := fl_difference (v_flags v) UFFD_MASK, uffd := None\<rparr>"

fun rebase :: "vma_backing \<Rightarrow> u64 \<Rightarrow> vma_backing" where
  "rebase (FileB f off) delta = FileB f (off + delta)"
| "rebase (KernelBytes d off) delta = KernelBytes d (off + delta)"
| "rebase (KernelPages p off) delta = KernelPages p (off + delta)"
| "rebase other delta = other"

definition clone_subrange :: "vma \<Rightarrow> u64 \<Rightarrow> u64 \<Rightarrow> vma" where
  "clone_subrange v new_start new_end =
     v\<lparr>v_start := new_start, v_end := new_end, backing := rebase (backing v) (new_start - v_start v), rss := 0\<rparr>"

section \<open>What a page of an area is\<close>

text \<open>
  The attributes of an area as seen at one address: everything that decides a fault or a query there,
  with the backing moved to that address the way the fault handlers compute it.
\<close>

record attr =
  at_prot :: vma_prot
  at_may :: vma_prot
  at_pkey :: "8 word"
  at_flags :: vma_flags
  at_backing :: vma_backing
  at_name :: "string option"
  at_uffd :: "obj option"
  at_policy :: "mem_policy option"

text \<open>\<open>map_kernel_frame\<close>, \<open>map_phys_range\<close>, \<open>map_kernel_pages\<close> and the file fault add the offset into the area.\<close>

fun backing_at :: "vma_backing \<Rightarrow> u64 \<Rightarrow> vma_backing" where
  "backing_at (FileB f off) o' = FileB f (off + o')"
| "backing_at (KernelBytes d off) o' = KernelBytes d (off + o')"
| "backing_at (KernelPages p off) o' = KernelPages p (off + o')"
| "backing_at (KernelFrame pa) o' = KernelFrame (pa + o')"
| "backing_at (PhysRange pa c) o' = PhysRange (pa + o') c"
| "backing_at other o' = other"

definition attr_at :: "vma \<Rightarrow> u64 \<Rightarrow> attr" where
  "attr_at v va = \<lparr>at_prot = v_prot v, at_may = may_prot v, at_pkey = pkey v, at_flags = v_flags v,
     at_backing = backing_at (backing v) (va - v_start v), at_name = anon_name v, at_uffd = uffd v, at_policy = mempolicy v\<rparr>"

definition rebased :: "vma_backing \<Rightarrow> bool" where
  "rebased b = (case b of KernelFrame _ \<Rightarrow> False | PhysRange _ _ \<Rightarrow> False | _ \<Rightarrow> True)"

lemma backing_eq_iff: "backing_eq a b \<longleftrightarrow> a = b"
  by (induction a b rule: backing_eq.induct) auto

lemma uffd_ptr_eq_iff [simp]: "uffd_ptr_eq a b \<longleftrightarrow> a = b"
  by (auto simp: uffd_ptr_eq_def split: option.splits)

lemma clone_fields [simp]:
  "v_start (clone_subrange v s e) = s" "v_end (clone_subrange v s e) = e" "v_flags (clone_subrange v s e) = v_flags v"
  "v_prot (clone_subrange v s e) = v_prot v" "may_prot (clone_subrange v s e) = may_prot v"
  by (simp_all add: clone_subrange_def)

lemma clone_attr:
  assumes "v_start v \<le> s" and "s \<le> va" and "rebased (backing v) \<or> s = v_start v"
  shows "attr_at (clone_subrange v s e) va = attr_at v va"
  using assms by (cases "backing v") (auto simp: attr_at_def clone_subrange_def rebased_def)

lemma merge_attr:
  assumes "mergeable_with_next v n" and "v_start v \<le> v_end v" and "v_start n \<le> va"
  shows "attr_at (v\<lparr>v_end := e, rss := r\<rparr>) va = attr_at n va"
proof -
  have "backing_at (backing v) (va - v_start v) = backing_at (backing n) (va - v_start n)"
    using assms unfolding mergeable_with_next_def mpol_equal_def
    by (cases "backing v"; cases "backing n") (auto simp: len_bytes_def split: if_splits option.splits)
  then show ?thesis
    using assms(1) by (auto simp: attr_at_def mergeable_with_next_def mpol_equal_def split: if_splits)
qed

lemma merge_same:
  assumes "mergeable_with_next v n"
  shows "v_end v = v_start n" "v_flags v = v_flags n"
  using assms by (auto simp: mergeable_with_next_def split: if_splits)

end
