(* ===== verification/Ordered_Map.thy ===== *)
theory Ordered_Map
  imports Prelude
begin

text \<open>
  The ordered map of the standard library (\<open>BTreeMap\<close>) as far as the VMA tree uses it: an association
  list in ascending key order, with point updates and neighbour queries.
\<close>

type_synonym ('k, 'v) omap = "('k \<times> 'v) list"

definition om_wf :: "('k::linorder, 'v) omap \<Rightarrow> bool" where
  "om_wf m \<longleftrightarrow> sorted_wrt (<) (map fst m)"

fun om_insert :: "'k::linorder \<Rightarrow> 'v \<Rightarrow> ('k, 'v) omap \<Rightarrow> ('k, 'v) omap" where
  "om_insert k v [] = [(k, v)]"
| "om_insert k v ((x, y) # m) =
     (if k < x then (k, v) # (x, y) # m else if k = x then (k, v) # m else (x, y) # om_insert k v m)"

fun om_remove :: "'k \<Rightarrow> ('k, 'v) omap \<Rightarrow> ('k, 'v) omap" where
  "om_remove k [] = []"
| "om_remove k ((x, y) # m) = (if k = x then m else (x, y) # om_remove k m)"

text \<open>\<open>range(..k).next_back()\<close>, \<open>range(..=k).next_back()\<close>, \<open>range((Excluded(k), Unbounded)).next()\<close>, \<open>range(k..).next()\<close>.\<close>

definition last_of :: "('k \<times> 'v) list \<Rightarrow> ('k \<times> 'v) option" where
  "last_of es = (if es = [] then None else Some (last es))"

definition om_below :: "('k::linorder, 'v) omap \<Rightarrow> 'k \<Rightarrow> ('k \<times> 'v) option" where
  "om_below m k = last_of (filter (\<lambda>e. fst e < k) m)"

definition om_floor :: "('k::linorder, 'v) omap \<Rightarrow> 'k \<Rightarrow> ('k \<times> 'v) option" where
  "om_floor m k = last_of (filter (\<lambda>e. fst e \<le> k) m)"

definition om_above :: "('k::linorder, 'v) omap \<Rightarrow> 'k \<Rightarrow> ('k \<times> 'v) option" where
  "om_above m k = find (\<lambda>e. k < fst e) m"

definition om_ceiling :: "('k::linorder, 'v) omap \<Rightarrow> 'k \<Rightarrow> ('k \<times> 'v) option" where
  "om_ceiling m k = find (\<lambda>e. k \<le> fst e) m"

definition om_range_to :: "('k::linorder, 'v) omap \<Rightarrow> 'k \<Rightarrow> ('k, 'v) omap" where
  "om_range_to m k = filter (\<lambda>e. fst e < k) m"

section \<open>Laws\<close>

lemma om_wf_simps [simp]: "om_wf []" "om_wf ((k, v) # m) \<longleftrightarrow> om_wf m \<and> (\<forall>e\<in>set m. k < fst e)"
  by (auto simp: om_wf_def)

lemma om_wf_distinct: "om_wf m \<Longrightarrow> distinct (map fst m)"
  by (simp add: om_wf_def strict_sorted_iff)

lemma om_insert_set: "set (om_insert k v m) \<subseteq> insert (k, v) (set m)"
  by (induction k v m rule: om_insert.induct) auto

lemma om_insert_wf [simp]: "om_wf m \<Longrightarrow> om_wf (om_insert k v m)"
  by (induction k v m rule: om_insert.induct) (auto dest!: subsetD [OF om_insert_set])

lemma om_insert_get: "om_wf m \<Longrightarrow> map_of (om_insert k v m) = (map_of m)(k \<mapsto> v)"
  by (induction k v m rule: om_insert.induct) (auto simp: fun_eq_iff)

lemma om_remove_set: "set (om_remove k m) \<subseteq> set m"
  by (induction k m rule: om_remove.induct) auto

lemma om_remove_wf [simp]: "om_wf m \<Longrightarrow> om_wf (om_remove k m)"
  by (induction k m rule: om_remove.induct) (auto dest!: subsetD [OF om_remove_set])

lemma om_remove_get: "om_wf m \<Longrightarrow> map_of (om_remove k m) = (map_of m)(k := None)"
proof (induction k m rule: om_remove.induct)
  case (2 k x y m)
  then have "map_of m x = None" by (auto simp: map_of_eq_None_iff)
  then show ?case using 2 by (auto simp: fun_eq_iff)
qed (simp add: fun_eq_iff)

lemma om_get_iff: "om_wf m \<Longrightarrow> map_of m k = Some v \<longleftrightarrow> (k, v) \<in> set m"
  by (simp add: om_wf_distinct)

lemma om_wf_filter: "om_wf m \<Longrightarrow> om_wf (filter P m)"
  unfolding om_wf_def sorted_wrt_map by (rule sorted_wrt_filter)

lemma last_of_Some:
  assumes "om_wf m" and "last_of m = Some (k, v)"
  shows "(k, v) \<in> set m \<and> (\<forall>e\<in>set m. fst e \<le> k)"
proof -
  have m: "m \<noteq> []" "last m = (k, v)" using assms(2) by (auto simp: last_of_def split: if_splits)
  then obtain es where es: "m = es @ [(k, v)]" by (metis append_butlast_last_id)
  then have "\<forall>e\<in>set es. fst e < k" using assms(1) by (auto simp: om_wf_def sorted_wrt_append)
  then show ?thesis by (auto simp: es less_imp_le)
qed

lemma om_below_None: "om_below m k = None \<longleftrightarrow> (\<forall>e\<in>set m. k \<le> fst e)"
  by (auto simp: om_below_def last_of_def filter_empty_conv not_less)

lemma om_floor_None: "om_floor m k = None \<longleftrightarrow> (\<forall>e\<in>set m. k < fst e)"
  by (auto simp: om_floor_def last_of_def filter_empty_conv not_le)

lemma om_below_Some: "om_wf m \<Longrightarrow> om_below m k = Some (x, v) \<Longrightarrow> (x, v) \<in> set m \<and> x < k \<and> (\<forall>e\<in>set m. fst e < k \<longrightarrow> fst e \<le> x)"
  using last_of_Some [OF om_wf_filter, of m "\<lambda>e. fst e < k" x v] by (auto simp: om_below_def)

lemma om_floor_Some: "om_wf m \<Longrightarrow> om_floor m k = Some (x, v) \<Longrightarrow> (x, v) \<in> set m \<and> x \<le> k \<and> (\<forall>e\<in>set m. fst e \<le> k \<longrightarrow> fst e \<le> x)"
  using last_of_Some [OF om_wf_filter, of m "\<lambda>e. fst e \<le> k" x v] by (auto simp: om_floor_def)

lemma find_first:
  assumes "om_wf m" and "find P m = Some (x, v)"
  shows "(x, v) \<in> set m \<and> P (x, v) \<and> (\<forall>e\<in>set m. P e \<longrightarrow> x \<le> fst e)"
  using assms by (induction m) (force split: if_splits)+

lemma om_above_None: "om_above m k = None \<longleftrightarrow> (\<forall>e\<in>set m. fst e \<le> k)"
  by (auto simp: om_above_def find_None_iff not_less)

lemma om_above_Some: "om_wf m \<Longrightarrow> om_above m k = Some (x, v) \<Longrightarrow> (x, v) \<in> set m \<and> k < x \<and> (\<forall>e\<in>set m. k < fst e \<longrightarrow> x \<le> fst e)"
  using find_first [of m "\<lambda>e. k < fst e" x v] by (auto simp: om_above_def)

lemma om_ceiling_None: "om_ceiling m k = None \<longleftrightarrow> (\<forall>e\<in>set m. fst e < k)"
  by (auto simp: om_ceiling_def find_None_iff not_le)

lemma om_ceiling_Some: "om_wf m \<Longrightarrow> om_ceiling m k = Some (x, v) \<Longrightarrow> (x, v) \<in> set m \<and> k \<le> x \<and> (\<forall>e\<in>set m. k \<le> fst e \<longrightarrow> x \<le> fst e)"
  using find_first [of m "\<lambda>e. k \<le> fst e" x v] by (auto simp: om_ceiling_def)

section \<open>The interface\<close>

text \<open>What a client may rely on, whatever the representation.\<close>

locale ordered_map =
  fixes wf :: "'m \<Rightarrow> bool" and get :: "'m \<Rightarrow> 'k::linorder \<Rightarrow> 'v option"
    and ins :: "'k \<Rightarrow> 'v \<Rightarrow> 'm \<Rightarrow> 'm" and del :: "'k \<Rightarrow> 'm \<Rightarrow> 'm"
    and below :: "'m \<Rightarrow> 'k \<Rightarrow> ('k \<times> 'v) option" and flr :: "'m \<Rightarrow> 'k \<Rightarrow> ('k \<times> 'v) option" and above :: "'m \<Rightarrow> 'k \<Rightarrow> ('k \<times> 'v) option"
  assumes wf_ins: "wf m \<Longrightarrow> wf (ins k v m)" and wf_del: "wf m \<Longrightarrow> wf (del k m)"
    and get_ins: "wf m \<Longrightarrow> get (ins k v m) = (get m)(k \<mapsto> v)" and get_del: "wf m \<Longrightarrow> get (del k m) = (get m)(k := None)"
    and below_law: "wf m \<Longrightarrow> below m k = Some (x, v) \<Longrightarrow> get m x = Some v \<and> x < k \<and> (\<forall>y w. get m y = Some w \<longrightarrow> y < k \<longrightarrow> y \<le> x)"
    and below_none: "wf m \<Longrightarrow> below m k = None \<Longrightarrow> get m y = Some w \<Longrightarrow> k \<le> y"
    and flr_law: "wf m \<Longrightarrow> flr m k = Some (x, v) \<Longrightarrow> get m x = Some v \<and> x \<le> k \<and> (\<forall>y w. get m y = Some w \<longrightarrow> y \<le> k \<longrightarrow> y \<le> x)"
    and flr_none: "wf m \<Longrightarrow> flr m k = None \<Longrightarrow> get m y = Some w \<Longrightarrow> k < y"
    and above_law: "wf m \<Longrightarrow> above m k = Some (x, v) \<Longrightarrow> get m x = Some v \<and> k < x \<and> (\<forall>y w. get m y = Some w \<longrightarrow> k < y \<longrightarrow> x \<le> y)"
    and above_none: "wf m \<Longrightarrow> above m k = None \<Longrightarrow> get m y = Some w \<Longrightarrow> y \<le> k"
begin

lemma flr_self: "wf m \<Longrightarrow> get m k = Some v \<Longrightarrow> flr m k = Some (k, v)"
proof -
  assume m: "wf m" and k: "get m k = Some v"
  obtain x w where xw: "flr m k = Some (x, w)" using flr_none [OF m _ k] by (cases "flr m k") auto
  then have "get m x = Some w" "x \<le> k" "k \<le> x" using flr_law [OF m xw] k by blast+
  then show "flr m k = Some (k, v)" using xw k by auto
qed

lemma flr_below: "wf m \<Longrightarrow> get m k = None \<Longrightarrow> flr m k = below m k"
proof -
  assume m: "wf m" and k: "get m k = None"
  show "flr m k = below m k"
  proof (cases "flr m k")
    case None
    then have "below m k = None" using below_law [OF m, of k] flr_none [OF m None] by (cases "below m k") (auto, meson less_asym)
    then show ?thesis using None by simp
  next
    case (Some e)
    obtain x w where e: "e = (x, w)" by (cases e)
    then have x: "get m x = Some w" "x < k" "\<forall>y w. get m y = Some w \<longrightarrow> y \<le> k \<longrightarrow> y \<le> x"
      using flr_law [OF m, of k x w] Some k by (auto simp: order_less_le)
    then obtain x' w' where b: "below m k = Some (x', w')" using below_none [OF m, of k x w] by (cases "below m k") auto
    then have "get m x' = Some w'" "x' < k" "x \<le> x'" using below_law [OF m b] x by blast+
    then have "x' = x" using x(3) by (meson antisym less_imp_le)
    then show ?thesis using Some e b x below_law [OF m b] by simp
  qed
qed

lemma ins_del: "wf m \<Longrightarrow> get (ins k v (del k m)) = (get m)(k \<mapsto> v)"
  by (simp add: get_ins get_del wf_del)

end

interpretation bt: ordered_map om_wf map_of om_insert om_remove om_below om_floor om_above
proof (unfold_locales, goal_cases)
  case (5 m k x v)
  then show ?case using om_below_Some [of m k x v] by (auto simp: om_get_iff)
next
  case (6 m k y w)
  then show ?case by (auto simp: om_below_None om_get_iff)
next
  case (7 m k x v)
  then show ?case using om_floor_Some [of m k x v] by (auto simp: om_get_iff)
next
  case (8 m k y w)
  then show ?case by (auto simp: om_floor_None om_get_iff)
next
  case (9 m k x v)
  then show ?case using om_above_Some [of m k x v] by (auto simp: om_get_iff)
next
  case (10 m k y w)
  then show ?case by (auto simp: om_above_None om_get_iff)
qed (simp_all add: om_insert_get om_remove_get)

end
