(* ===== verification/Vma_Tree.thy ===== *)
theory Vma_Tree
  imports Vma Ordered_Map
begin

text \<open>
  The VMA tree of an address space (\<open>mm-vmm/src/tree.rs\<close>, \<open>tree_ranges.rs\<close>, \<open>tree/\<close>, \<open>vm_ops.rs\<close>) and the two
  section-view operations of \<open>address_space/ops.rs\<close> that work on it. The map from start address to area
  is an \<^typ>\<open>(u64, vma) omap\<close>. The open and close hooks of the mapped objects are recorded in a log, in
  call order. \<^term>\<open>None\<close> is a panic: a failed \<open>expect\<close> or a missing index.
\<close>

section \<open>State and hooks\<close>

datatype vm_event = VmaOpen obj | VmaClose obj | ShmOpen obj | ShmClose obj

record vma_tree =
  vmap :: "(u64, vma) omap"
  vlog :: "vm_event list"
  shm_ops :: bool

definition tree_new :: "bool \<Rightarrow> vma_tree" where "tree_new ops = \<lparr>vmap = [], vlog = [], shm_ops = ops\<rparr>"

definition object_of :: "vma \<Rightarrow> obj option" where
  "object_of v = (case backing v of FileB b _ \<Rightarrow> Some b | _ \<Rightarrow> None)"

definition dispatch :: "bool \<Rightarrow> (obj \<Rightarrow> vm_event) \<Rightarrow> vma \<Rightarrow> vm_event list" where
  "dispatch installed slot v =
     (if \<not> fl_contains (v_flags v) VM_SYSVSHM then []
      else case backing v of FileB b _ \<Rightarrow> if installed then [slot b] else [] | _ \<Rightarrow> [])"

definition vma_opened :: "vma_tree \<Rightarrow> vma \<Rightarrow> vma_tree" where
  "vma_opened t v =
     t\<lparr>vlog := vlog t @ (case object_of v of Some b \<Rightarrow> [VmaOpen b] | None \<Rightarrow> []) @ dispatch (shm_ops t) ShmOpen v\<rparr>"

definition vma_closed :: "vma_tree \<Rightarrow> vma \<Rightarrow> vma_tree" where
  "vma_closed t v =
     t\<lparr>vlog := vlog t @ (case object_of v of Some b \<Rightarrow> [VmaClose b] | None \<Rightarrow> []) @ dispatch (shm_ops t) ShmClose v\<rparr>"

definition vma_may_split :: "(obj \<Rightarrow> bool) \<Rightarrow> vma \<Rightarrow> bool" where
  "vma_may_split may_split v = (case object_of v of None \<Rightarrow> True | Some b \<Rightarrow> may_split b)"

definition tree_drop :: "vma_tree \<Rightarrow> vma_tree" where
  "tree_drop t = (fold (\<lambda>e t. vma_closed t (snd e)) (vmap t) t)\<lparr>vmap := []\<rparr>"

section \<open>Point operations\<close>

definition map_put :: "vma_tree \<Rightarrow> u64 \<Rightarrow> vma \<Rightarrow> vma_tree" where
  "map_put t key v = (let t = vma_opened t v in t\<lparr>vmap := om_insert key v (vmap t)\<rparr>)"

definition map_reinsert :: "vma_tree \<Rightarrow> u64 \<Rightarrow> vma \<Rightarrow> vma_tree" where
  "map_reinsert t key v = t\<lparr>vmap := om_insert key v (vmap t)\<rparr>"

definition map_take :: "vma_tree \<Rightarrow> u64 \<Rightarrow> (vma_tree \<times> vma) option" where
  "map_take t key = (case map_of (vmap t) key of None \<Rightarrow> None | Some v \<Rightarrow> Some (t\<lparr>vmap := om_remove key (vmap t)\<rparr>, v))"

definition find_containing :: "vma_tree \<Rightarrow> u64 \<Rightarrow> vma option" where
  "find_containing t va = do { (_, v) \<leftarrow> om_floor (vmap t) va; (if vma_contains v va then Some v else None) }"

definition find_containing_mut :: "vma_tree \<Rightarrow> u64 \<Rightarrow> (u64 \<times> vma) option" where
  "find_containing_mut t va = do {
     (key, _) \<leftarrow> om_floor (vmap t) va;
     v \<leftarrow> map_of (vmap t) key;
     (if vma_contains v va then Some (key, v) else None)
   }"

definition find_growsdown_above :: "vma_tree \<Rightarrow> u64 \<Rightarrow> u64 \<Rightarrow> vma option" where
  "find_growsdown_above t va max_gap = do {
     (_, v) \<leftarrow> om_ceiling (vmap t) va;
     (if \<not> fl_contains (v_flags v) VM_GROWSDOWN then None
      else do { gap \<leftarrow> checked_sub (v_start v) va; (if gap > max_gap then None else Some v) })
   }"

definition extend_growsdown_start :: "vma_tree \<Rightarrow> u64 \<Rightarrow> u64 \<Rightarrow> vma_tree \<times> (vm_error + unit)" where
  "extend_growsdown_start t current_start new_start =
     (if new_start \<ge> current_start then (t, Inl Inval)
      else if page_offset new_start \<noteq> 0 then (t, Inl Inval)
      else if (case om_below (vmap t) current_start of Some (_, lower) \<Rightarrow> v_end lower > new_start | None \<Rightarrow> False) then (t, Inl Inval)
      else case map_take t current_start of
        None \<Rightarrow> (t, Inl Inval)
      | Some (t, v) \<Rightarrow>
          if \<not> fl_contains (v_flags v) VM_GROWSDOWN then (map_reinsert t current_start v, Inl Inval)
          else (map_reinsert t new_start (v\<lparr>v_start := new_start\<rparr>), Inr ()))"

definition absorb :: "vma_tree \<Rightarrow> u64 \<Rightarrow> u64 \<Rightarrow> vma_tree option" where
  "absorb t lk rk = do {
     (t, r) \<leftarrow> map_take t rk;
     let t = vma_closed t r;
     l \<leftarrow> map_of (vmap t) lk;
     Some (t\<lparr>vmap := om_insert lk (l\<lparr>v_end := v_end r, rss := rss l + rss r\<rparr>) (vmap t)\<rparr>)
   }"

definition try_merge_left :: "vma_tree \<Rightarrow> u64 \<Rightarrow> vma_tree option" where
  "try_merge_left t key =
     (case om_below (vmap t) key of
        None \<Rightarrow> Some t
      | Some (lk, _) \<Rightarrow> do {
          left \<leftarrow> map_of (vmap t) lk;
          cur \<leftarrow> map_of (vmap t) key;
          (if \<not> mergeable_with_next left cur then Some t else absorb t lk key)
        })"

definition try_merge_right :: "vma_tree \<Rightarrow> u64 \<Rightarrow> vma_tree option" where
  "try_merge_right t key =
     (case om_above (vmap t) key of
        None \<Rightarrow> Some t
      | Some (rk, _) \<Rightarrow> do {
          cur \<leftarrow> map_of (vmap t) key;
          right \<leftarrow> map_of (vmap t) rk;
          (if \<not> mergeable_with_next cur right then Some t else absorb t key rk)
        })"

definition after_left :: "vma_tree \<Rightarrow> u64 \<Rightarrow> u64" where
  "after_left t key =
     (if map_of (vmap t) key \<noteq> None then key
      else case om_below (vmap t) key of Some (k, _) \<Rightarrow> k | None \<Rightarrow> key)"

definition merge_around :: "vma_tree \<Rightarrow> u64 \<Rightarrow> vma_tree option" where
  "merge_around t key = do { t \<leftarrow> try_merge_left t key; try_merge_right t (after_left t key) }"

definition tree_insert :: "vma_tree \<Rightarrow> vma \<Rightarrow> (vma_tree \<times> (vm_error + unit)) option" where
  "tree_insert t v =
     (if v_start v \<ge> v_end v then Some (t, Inl Inval)
      else if (case om_floor (vmap t) (v_start v) of Some (_, prev) \<Rightarrow> v_end prev > v_start v | None \<Rightarrow> False) then Some (t, Inl Inval)
      else if (case om_above (vmap t) (v_start v) of Some (_, nxt) \<Rightarrow> v_start nxt < v_end v | None \<Rightarrow> False) then Some (t, Inl Inval)
      else do { t \<leftarrow> merge_around (map_put t (v_start v) v) (v_start v); Some (t, Inr ()) })"

section \<open>Range operations\<close>

definition raw_end_key :: "u64 \<Rightarrow> u64 option" where
  "raw_end_key fin = (case uva_new fin of Some k \<Rightarrow> Some k | None \<Rightarrow> if fin = USER_VA_END then uva_new (USER_VA_END - 1) else None)"

definition overlap_keys :: "vma_tree \<Rightarrow> u64 \<Rightarrow> u64 \<Rightarrow> u64 list" where
  "overlap_keys t start end_key = map fst (filter (\<lambda>e. v_end (snd e) > start) (om_range_to (vmap t) end_key))"

definition put_left :: "vma_tree \<Rightarrow> vma \<Rightarrow> u64 \<Rightarrow> vma_tree option" where
  "put_left t v s =
     (if v_start v < s then do { lend \<leftarrow> uva_new s; Some (map_put t (v_start v) (clone_subrange v (v_start v) lend)) } else Some t)"

definition put_right :: "vma_tree \<Rightarrow> vma \<Rightarrow> u64 \<Rightarrow> vma_tree option" where
  "put_right t v e =
     (if e < v_end v then do { rstart \<leftarrow> uva_new e; Some (map_put t rstart (clone_subrange v rstart (v_end v))) } else Some t)"

text \<open>One area of \<open>remove_range_raw_end\<close>: keep the fragments outside, return the middle.\<close>

definition cut_out :: "vma_tree \<Rightarrow> vma \<Rightarrow> u64 \<Rightarrow> u64 \<Rightarrow> (vma_tree \<times> vma) option" where
  "cut_out t v start fin = do {
     let s = max start (v_start v);
     let e = min fin (v_end v);
     t \<leftarrow> put_left t v s;
     ms \<leftarrow> uva_new s;
     me \<leftarrow> uva_new e;
     t \<leftarrow> put_right t v e;
     Some (vma_closed t v, clone_subrange v ms me)
   }"

fun remove_loop :: "vma_tree \<Rightarrow> u64 \<Rightarrow> u64 \<Rightarrow> u64 list \<Rightarrow> vma list \<Rightarrow> (vma_tree \<times> vma list) option" where
  "remove_loop t start fin [] removed = Some (t, removed)"
| "remove_loop t start fin (k # ks) removed = do {
     (t, v) \<leftarrow> map_take t k;
     (t, m) \<leftarrow> cut_out t v start fin;
     remove_loop t start fin ks (removed @ [m])
   }"

definition remove_range_raw_end :: "vma_tree \<Rightarrow> u64 \<Rightarrow> u64 \<Rightarrow> (vma_tree \<times> vma list) option" where
  "remove_range_raw_end t start fin =
     (if start \<ge> fin then Some (t, [])
      else case raw_end_key fin of
        None \<Rightarrow> Some (t, [])
      | Some end_key \<Rightarrow> remove_loop t start fin (overlap_keys t start end_key) [])"

definition remove_range :: "vma_tree \<Rightarrow> u64 \<Rightarrow> u64 \<Rightarrow> (vma_tree \<times> vma list) option" where
  "remove_range t start fin = remove_range_raw_end t start fin"

text \<open>The walk that checks coverage before a range is changed.\<close>

fun cover_walk :: "vm_error \<Rightarrow> (vma \<Rightarrow> vm_error option) \<Rightarrow> u64 \<Rightarrow> vma list \<Rightarrow> u64 \<Rightarrow> vm_error + u64" where
  "cover_walk hole chk fin [] cursor = Inr cursor"
| "cover_walk hole chk fin (v # vs) cursor =
     (if v_end v \<le> cursor then cover_walk hole chk fin vs cursor
      else if v_start v > cursor then Inl hole
      else case chk v of
        Some err \<Rightarrow> Inl err
      | None \<Rightarrow> if v_end v \<ge> fin then Inr (v_end v) else cover_walk hole chk fin vs (v_end v))"

definition check_cover :: "vm_error \<Rightarrow> (vma \<Rightarrow> vm_error option) \<Rightarrow> vma_tree \<Rightarrow> u64 \<Rightarrow> u64 \<Rightarrow> vm_error + unit" where
  "check_cover hole chk t start fin =
     (case cover_walk hole chk fin (map snd (om_range_to (vmap t) fin)) start of
        Inl err \<Rightarrow> Inl err
      | Inr cursor \<Rightarrow> if cursor < fin then Inl hole else Inr ())"

text \<open>The body the range writers share: fragments outside the range as they were, the middle changed by \<open>f\<close>.\<close>

definition split_put :: "(vma \<Rightarrow> vma) \<Rightarrow> vma_tree \<Rightarrow> vma \<Rightarrow> u64 \<Rightarrow> u64 \<Rightarrow> (vma_tree \<times> u64) option" where
  "split_put f t v start fin = do {
     let s = max start (v_start v);
     let e = min fin (v_end v);
     t \<leftarrow> put_left t v s;
     ms \<leftarrow> uva_new s;
     me \<leftarrow> uva_new e;
     let mid = f (clone_subrange v ms me);
     let t = map_put t (v_start mid) mid;
     t \<leftarrow> put_right t v e;
     Some (vma_closed t v, v_start mid)
   }"

fun mprotect_loop :: "(vma \<Rightarrow> vma) \<Rightarrow> vma_tree \<Rightarrow> u64 \<Rightarrow> u64 \<Rightarrow> u64 list \<Rightarrow> vma_tree option" where
  "mprotect_loop f t start fin [] = Some t"
| "mprotect_loop f t start fin (k # ks) =
     (case map_take t k of
        None \<Rightarrow> mprotect_loop f t start fin ks
      | Some (t, v) \<Rightarrow> do {
          (t, mid_key) \<leftarrow> split_put f t v start fin;
          t \<leftarrow> merge_around t mid_key;
          mprotect_loop f t start fin ks
        })"

definition set_prot :: "vma_prot \<Rightarrow> 8 word option \<Rightarrow> vma \<Rightarrow> vma" where
  "set_prot new_prot key v = (let v = v\<lparr>v_prot := new_prot\<rparr> in case key of Some k \<Rightarrow> v\<lparr>pkey := k\<rparr> | None \<Rightarrow> v)"

definition mprotect_range_with_pkey ::
    "vma_tree \<Rightarrow> u64 \<Rightarrow> u64 \<Rightarrow> vma_prot \<Rightarrow> 8 word option \<Rightarrow> (vma_tree \<times> (vm_error + unit)) option" where
  "mprotect_range_with_pkey t start fin new_prot key =
     (if start \<ge> fin then Some (t, Inl Inval)
      else case check_cover Inval (\<lambda>v. if \<not> fl_contains (may_prot v) new_prot then Some Access else None) t start fin of
        Inl err \<Rightarrow> Some (t, Inl err)
      | Inr _ \<Rightarrow> do {
          t \<leftarrow> mprotect_loop (set_prot new_prot key) t start fin (overlap_keys t start fin);
          Some (t, Inr ())
        })"

definition mprotect_range :: "vma_tree \<Rightarrow> u64 \<Rightarrow> u64 \<Rightarrow> vma_prot \<Rightarrow> (vma_tree \<times> (vm_error + unit)) option" where
  "mprotect_range t start fin new_prot = mprotect_range_with_pkey t start fin new_prot None"

fun expect_loop :: "(vma \<Rightarrow> vma) \<Rightarrow> vma_tree \<Rightarrow> u64 \<Rightarrow> u64 \<Rightarrow> u64 list \<Rightarrow> vma_tree option" where
  "expect_loop f t start fin [] = Some t"
| "expect_loop f t start fin (k # ks) = do {
     (t, v) \<leftarrow> map_take t k;
     (t, mid_key) \<leftarrow> split_put f t v start fin;
     t \<leftarrow> merge_around t mid_key;
     expect_loop f t start fin ks
   }"

definition set_flags :: "vma_flags \<Rightarrow> vma_flags \<Rightarrow> vma \<Rightarrow> vma" where
  "set_flags set_f clear_f v =
     (let (s, c) = (if fl_contains (v_flags v) VM_SECRETMEM then (fl_difference set_f LOCKED_MASK, fl_difference clear_f LOCKED_MASK)
                    else (set_f, clear_f))
      in v\<lparr>v_flags := fl_difference (v_flags v OR s) c\<rparr>)"

definition update_flags_range :: "vma_tree \<Rightarrow> u64 \<Rightarrow> u64 \<Rightarrow> vma_flags \<Rightarrow> vma_flags \<Rightarrow> vma_tree option" where
  "update_flags_range t start fin set_f clear_f =
     (if start \<ge> fin then Some t else expect_loop (set_flags set_f clear_f) t start fin (overlap_keys t start fin))"

definition set_uffd :: "obj option \<Rightarrow> vma_flags \<Rightarrow> vma \<Rightarrow> vma" where
  "set_uffd ctx modes v =
     (case ctx of
        Some c \<Rightarrow> v\<lparr>uffd := Some c, v_flags := fl_difference (v_flags v) UFFD_MASK OR (modes AND UFFD_MASK)\<rparr>
      | None \<Rightarrow> v\<lparr>uffd := None, v_flags := fl_difference (v_flags v) UFFD_MASK\<rparr>)"

definition set_uffd_range :: "vma_tree \<Rightarrow> u64 \<Rightarrow> u64 \<Rightarrow> obj option \<Rightarrow> vma_flags \<Rightarrow> vma_tree option" where
  "set_uffd_range t start fin ctx modes =
     (if start \<ge> fin then Some t else expect_loop (set_uffd ctx modes) t start fin (overlap_keys t start fin))"

definition set_anon_name_range :: "vma_tree \<Rightarrow> u64 \<Rightarrow> u64 \<Rightarrow> string option \<Rightarrow> (vma_tree \<times> (vm_error + unit)) option" where
  "set_anon_name_range t start fin nm =
     (if start \<ge> fin then Some (t, Inl Inval)
      else case check_cover NoMem (\<lambda>v. if backing v \<noteq> Anonymous then Some Access else None) t start fin of
        Inl err \<Rightarrow> Some (t, Inl err)
      | Inr _ \<Rightarrow> do {
          t \<leftarrow> expect_loop (\<lambda>v. v\<lparr>anon_name := nm\<rparr>) t start fin (overlap_keys t start fin);
          Some (t, Inr ())
        })"

fun audit_walk :: "vma list \<Rightarrow> u64 \<Rightarrow> vm_error + unit" where
  "audit_walk [] prev_end = Inr ()"
| "audit_walk (v # vs) prev_end =
     (if v_start v < prev_end then Inl Inval
      else if v_end v \<le> v_start v then Inl Inval
      else audit_walk vs (v_end v))"

definition audit_no_overlap :: "vma_tree \<Rightarrow> vm_error + unit" where
  "audit_no_overlap t = audit_walk (map snd (vmap t)) 0"

fun seal_loop :: "vma_tree \<Rightarrow> u64 \<Rightarrow> u64 \<Rightarrow> u64 list \<Rightarrow> vma_tree option" where
  "seal_loop t start fin [] = Some t"
| "seal_loop t start fin (k # ks) = do {
     (t, v) \<leftarrow> map_take t k;
     (t, _) \<leftarrow> split_put (\<lambda>v. v\<lparr>v_flags := v_flags v OR VM_SEALED\<rparr>) t v start fin;
     seal_loop t start fin ks
   }"

definition seal_range :: "vma_tree \<Rightarrow> u64 \<Rightarrow> u64 \<Rightarrow> (vma_tree \<times> (vm_error + unit)) option" where
  "seal_range t start fin =
     (if start \<ge> fin then Some (t, Inl Inval)
      else case check_cover Inval (\<lambda>_. None) t start fin of
        Inl err \<Rightarrow> Some (t, Inl err)
      | Inr _ \<Rightarrow> do { t \<leftarrow> seal_loop t start fin (overlap_keys t start fin); Some (t, Inr ()) })"

definition any_sealed_raw_end :: "vma_tree \<Rightarrow> u64 \<Rightarrow> u64 \<Rightarrow> bool" where
  "any_sealed_raw_end t start fin =
     (case raw_end_key fin of
        None \<Rightarrow> False
      | Some end_key \<Rightarrow> list_ex (\<lambda>e. v_end (snd e) > start \<and> fl_contains (v_flags (snd e)) VM_SEALED) (om_range_to (vmap t) end_key))"

definition any_sealed :: "vma_tree \<Rightarrow> u64 \<Rightarrow> u64 \<Rightarrow> bool" where
  "any_sealed t start fin = any_sealed_raw_end t start fin"

definition range_may_raw_end :: "vma_tree \<Rightarrow> u64 \<Rightarrow> u64 \<Rightarrow> vma_prot \<Rightarrow> bool" where
  "range_may_raw_end t start fin prot =
     (case raw_end_key fin of
        None \<Rightarrow> False
      | Some end_key \<Rightarrow>
          (case cover_walk Inval (\<lambda>v. if \<not> fl_contains (may_prot v) prot then Some Access else None) fin
                  (map snd (om_range_to (vmap t) end_key)) start of
             Inl _ \<Rightarrow> False
           | Inr cursor \<Rightarrow> cursor \<ge> fin))"

definition refuses_split_raw_end :: "(obj \<Rightarrow> bool) \<Rightarrow> vma_tree \<Rightarrow> u64 \<Rightarrow> u64 \<Rightarrow> bool" where
  "refuses_split_raw_end may_split t start fin =
     (case raw_end_key fin of
        None \<Rightarrow> False
      | Some end_key \<Rightarrow>
          list_ex (\<lambda>e. v_end (snd e) > start \<and> (v_start (snd e) < start \<or> fin < v_end (snd e)) \<and> \<not> vma_may_split may_split (snd e))
            (om_range_to (vmap t) end_key))"

definition refuses_split :: "(obj \<Rightarrow> bool) \<Rightarrow> vma_tree \<Rightarrow> u64 \<Rightarrow> u64 \<Rightarrow> bool" where
  "refuses_split may_split t start fin = refuses_split_raw_end may_split t start fin"

section \<open>Policies\<close>

datatype home_node_err = HnNoEnt | HnOpNotSupp

text \<open>\<open>rewrite_range\<close> writes the map directly: it runs no hook.\<close>

definition rewrite_one :: "(vma \<Rightarrow> vma) \<Rightarrow> vma_tree \<Rightarrow> vma \<Rightarrow> u64 \<Rightarrow> u64 \<Rightarrow> vma_tree option" where
  "rewrite_one f t v start fin = do {
     let s = max start (v_start v);
     let e = min fin (v_end v);
     t \<leftarrow> (if v_start v < s then do { lend \<leftarrow> uva_new s; Some (map_reinsert t (v_start v) (clone_subrange v (v_start v) lend)) } else Some t);
     ms \<leftarrow> uva_new s;
     me \<leftarrow> uva_new e;
     let mid = f (clone_subrange v ms me);
     let t = map_reinsert t (v_start mid) mid;
     (if e < v_end v then do { rstart \<leftarrow> uva_new e; Some (map_reinsert t rstart (clone_subrange v rstart (v_end v))) } else Some t)
   }"

fun rewrite_loop :: "(vma \<Rightarrow> vma) \<Rightarrow> vma_tree \<Rightarrow> u64 \<Rightarrow> u64 \<Rightarrow> u64 list \<Rightarrow> vma_tree option" where
  "rewrite_loop f t start fin [] = Some t"
| "rewrite_loop f t start fin (k # ks) = do {
     (t, v) \<leftarrow> map_take t k;
     t \<leftarrow> rewrite_one f t v start fin;
     rewrite_loop f t start fin ks
   }"

definition rewrite_range :: "(vma \<Rightarrow> vma) \<Rightarrow> vma_tree \<Rightarrow> u64 \<Rightarrow> u64 \<Rightarrow> vma_tree option" where
  "rewrite_range f t start fin =
     (if start \<ge> fin then Some t else rewrite_loop f t start fin (overlap_keys t start fin))"

definition set_policy_range :: "vma_tree \<Rightarrow> u64 \<Rightarrow> u64 \<Rightarrow> mem_policy option \<Rightarrow> vma_tree option" where
  "set_policy_range t start fin pol = rewrite_range (\<lambda>v. v\<lparr>mempolicy := pol\<rparr>) t start fin"

fun home_ranges :: "u64 \<Rightarrow> u64 \<Rightarrow> vma list \<Rightarrow> (home_node_err + (u64 \<times> u64) list) option" where
  "home_ranges start fin [] = Some (Inr [])"
| "home_ranges start fin (v # vs) =
     (if v_end v \<le> start then home_ranges start fin vs
      else case mempolicy v of
        None \<Rightarrow> home_ranges start fin vs
      | Some p \<Rightarrow>
          if pol_mode p = MPOL_BIND \<or> pol_mode p = MPOL_PREFERRED_MANY then do {
            s \<leftarrow> uva_new (max (v_start v) start);
            e \<leftarrow> uva_new (min (v_end v) fin);
            r \<leftarrow> home_ranges start fin vs;
            Some (case r of Inl err \<Rightarrow> Inl err | Inr rs \<Rightarrow> Inr ((s, e) # rs))
          } else Some (Inl HnOpNotSupp))"

definition set_home :: "32 word \<Rightarrow> vma \<Rightarrow> vma" where
  "set_home node v = v\<lparr>mempolicy := map_option (\<lambda>p. p\<lparr>home_node := node\<rparr>) (mempolicy v)\<rparr>"

fun home_loop :: "32 word \<Rightarrow> vma_tree \<Rightarrow> (u64 \<times> u64) list \<Rightarrow> vma_tree option" where
  "home_loop node t [] = Some t"
| "home_loop node t ((s, e) # rs) = do { t \<leftarrow> rewrite_range (set_home node) t s e; home_loop node t rs }"

definition set_home_node_range :: "vma_tree \<Rightarrow> u64 \<Rightarrow> u64 \<Rightarrow> 32 word \<Rightarrow> (vma_tree \<times> (home_node_err + unit)) option" where
  "set_home_node_range t start fin node = do {
     r \<leftarrow> home_ranges start fin (map snd (om_range_to (vmap t) fin));
     (case r of
        Inl err \<Rightarrow> Some (t, Inl err)
      | Inr rs \<Rightarrow> do {
          t \<leftarrow> home_loop node t rs;
          Some (t, if rs = [] then Inl HnNoEnt else Inr ())
        })
   }"

section \<open>Section views\<close>

definition set_mapping_origin :: "vma_tree \<Rightarrow> u64 \<Rightarrow> vma_tree \<times> bool" where
  "set_mapping_origin t va =
     (case find_containing_mut t va of
        None \<Rightarrow> (t, False)
      | Some (key, v) \<Rightarrow> (t\<lparr>vmap := om_insert key (v\<lparr>mapping_origin := Some va\<rparr>) (vmap t)\<rparr>, True))"

fun extent_walk :: "u64 \<Rightarrow> vma list \<Rightarrow> u64 \<Rightarrow> vm_error + u64" where
  "extent_walk org [] cursor = Inr cursor"
| "extent_walk org (v # vs) cursor =
     (if v_start v \<noteq> cursor \<or> mapping_origin v \<noteq> Some org then Inl Inval else extent_walk org vs (v_end v))"

definition mapping_origin_extent :: "vma_tree \<Rightarrow> u64 \<Rightarrow> vm_error + u64 \<times> u64" where
  "mapping_origin_extent t org =
     (let vmas = map snd (vmap t); members = filter (\<lambda>v. mapping_origin v = Some org) vmas in
      if members = [] then Inl Inval
      else
        let start = Min (set (map v_start members)); fin = Max (set (map v_end members)) in
        case extent_walk org (filter (\<lambda>v. v_end v > start \<and> v_start v < fin) vmas) start of
          Inl err \<Rightarrow> Inl err
        | Inr cursor \<Rightarrow>
            if cursor \<noteq> fin then Inl Inval
            else case uva_new start of None \<Rightarrow> Inl Inval | Some s \<Rightarrow> Inr (s, fin - start))"

end
