(* ===== verification/Vma_View.thy ===== *)
theory Vma_View
  imports Vma_Tree
begin

text \<open>
  The invariant of the VMA tree and its abstraction: the function from addresses to page attributes.
  Every point update of the map is one of three changes of that function: remove an area, add an area
  in free space, or join two mergeable neighbours, which changes nothing.
\<close>

section \<open>Invariant and view\<close>

definition area_ok :: "u64 \<Rightarrow> vma \<Rightarrow> bool" where
  "area_ok k v \<longleftrightarrow> v_start v = k \<and> v_start v < v_end v \<and> v_end v < USER_VA_END"

definition map_ok :: "(u64 \<rightharpoonup> vma) \<Rightarrow> bool" where
  "map_ok g \<longleftrightarrow> (\<forall>k v. g k = Some v \<longrightarrow> area_ok k v) \<and>
     (\<forall>k v k' v'. g k = Some v \<longrightarrow> g k' = Some v' \<longrightarrow> k < k' \<longrightarrow> v_end v \<le> k')"

definition tree_ok :: "vma_tree \<Rightarrow> bool" where
  "tree_ok t \<longleftrightarrow> om_wf (vmap t) \<and> map_ok (map_of (vmap t))"

definition view :: "vma_tree \<Rightarrow> u64 \<Rightarrow> attr option" where
  "view t va = (case find_containing t va of None \<Rightarrow> None | Some v \<Rightarrow> Some (attr_at v va))"

definition inside :: "vma \<Rightarrow> u64 \<Rightarrow> bool" where
  "inside v va \<longleftrightarrow> v_start v \<le> va \<and> va < v_end v"

lemma ex_upd: "(\<exists>x w. (g(k := o')) x = Some w \<and> P w) \<longleftrightarrow> (\<exists>w. o' = Some w \<and> P w) \<or> (\<exists>x w. x \<noteq> k \<and> g x = Some w \<and> P w)"
  unfolding fun_upd_apply by metis

lemma map_okD:
  assumes "map_ok g" and "g k = Some v"
  shows "v_start v = k" "k < v_end v" "v_end v < USER_VA_END"
    and "g k' = Some v' \<Longrightarrow> k < k' \<Longrightarrow> v_end v \<le> k'" "g k' = Some v' \<Longrightarrow> k' < k \<Longrightarrow> v_end v' \<le> k"
  using assms unfolding map_ok_def area_ok_def by blast+

lemma map_ok_unique:
  assumes "map_ok g" "g k = Some v" "g k' = Some v'" "inside v va" "inside v' va"
  shows "k = k' \<and> v = v'"
proof -
  have "k = k'"
  proof (rule ccontr)
    assume "k \<noteq> k'"
    then consider "k < k'" | "k' < k" by linarith
    then show False
      using assms map_okD(4) [OF assms(1-3)] map_okD(5) [OF assms(1-3)] map_okD(1) [OF assms(1,2)] map_okD(1) [OF assms(1,3)]
      by cases (auto simp: inside_def)
  qed
  then show ?thesis using assms by simp
qed

lemma find_containing_iff:
  assumes "tree_ok t"
  shows "find_containing t va = Some v \<longleftrightarrow> (\<exists>k. map_of (vmap t) k = Some v \<and> inside v va)"
proof -
  have wf: "om_wf (vmap t)" and ok: "map_ok (map_of (vmap t))" using assms by (auto simp: tree_ok_def)
  show ?thesis
  proof
    assume "find_containing t va = Some v"
    then obtain x where "om_floor (vmap t) va = Some (x, v)" "vma_contains v va"
      by (auto simp: find_containing_def bind_eq_Some_conv split: if_splits)
    then show "\<exists>k. map_of (vmap t) k = Some v \<and> inside v va"
      using bt.flr_law [OF wf] by (auto simp: vma_contains_def inside_def)
  next
    assume "\<exists>k. map_of (vmap t) k = Some v \<and> inside v va"
    then obtain k where k: "map_of (vmap t) k = Some v" "inside v va" by blast
    then have kva: "k \<le> va" using map_okD(1) [OF ok k(1)] by (simp add: inside_def)
    obtain x w where x: "om_floor (vmap t) va = Some (x, w)"
      using bt.flr_none [OF wf _ k(1), of va] kva by (cases "om_floor (vmap t) va") auto
    then have fl: "map_of (vmap t) x = Some w" "x \<le> va" "k \<le> x" using bt.flr_law [OF wf x] k(1) kva by blast+
    have "k = x"
    proof (rule ccontr)
      assume "k \<noteq> x"
      then have "v_end v \<le> x" using map_okD(4) [OF ok k(1) fl(1)] fl(3) by simp
      then show False using k(2) fl(2) by (simp add: inside_def)
    qed
    then have "w = v" using fl(1) k(1) by simp
    then show "find_containing t va = Some v" using x k(2) by (simp add: find_containing_def vma_contains_def inside_def)
  qed
qed

lemma view_Some:
  assumes "tree_ok t"
  shows "view t va = Some x \<longleftrightarrow> (\<exists>k v. map_of (vmap t) k = Some v \<and> inside v va \<and> x = attr_at v va)"
proof -
  have "view t va = Some x \<longleftrightarrow> (\<exists>v. find_containing t va = Some v \<and> x = attr_at v va)"
    by (auto simp: view_def split: option.splits)
  then show ?thesis unfolding find_containing_iff [OF assms] by blast
qed

lemma view_at:
  assumes "tree_ok t" and "map_of (vmap t) k = Some v" and "inside v va"
  shows "view t va = Some (attr_at v va)"
  using view_Some [OF assms(1)] assms(2,3) by blast

lemma view_None:
  assumes "tree_ok t"
  shows "view t va = None \<longleftrightarrow> (\<forall>k v. map_of (vmap t) k = Some v \<longrightarrow> \<not> inside v va)"
  using view_Some [OF assms, of va] by (metis not_None_eq)

lemma view_cong:
  assumes "vmap t = vmap t'"
  shows "view t = view t'" "tree_ok t \<longleftrightarrow> tree_ok t'"
  using assms by (simp_all add: fun_eq_iff view_def find_containing_def tree_ok_def)

section \<open>The three changes\<close>

lemma remove_view:
  assumes ok: "tree_ok t" and k: "map_of (vmap t) k = Some v" and t': "vmap t' = om_remove k (vmap t)"
  shows "tree_ok t'" "view t' = (\<lambda>va. if inside v va then None else view t va)" "map_of (vmap t') = (map_of (vmap t))(k := None)"
proof -
  have wf: "om_wf (vmap t)" and mo: "map_ok (map_of (vmap t))" using ok by (auto simp: tree_ok_def)
  show g: "map_of (vmap t') = (map_of (vmap t))(k := None)" using t' bt.get_del [OF wf] by simp
  show ok': "tree_ok t'" using wf mo t' g unfolding tree_ok_def map_ok_def by (auto split: if_splits)
  show "view t' = (\<lambda>va. if inside v va then None else view t va)"
  proof
    fix va
    show "view t' va = (if inside v va then None else view t va)"
    proof (cases "inside v va")
      case True
      then have "\<not> inside w va" if "map_of (vmap t') x = Some w" for x w
        using that g map_ok_unique [OF mo k, of x w va] by (auto split: if_splits)
      then show ?thesis using True view_None [OF ok', of va] by auto
    next
      case False
      have "view t' va = Some x \<longleftrightarrow> view t va = Some x" for x
        unfolding view_Some [OF ok'] view_Some [OF ok] g ex_upd using False k by (metis option.distinct(1) option.inject)
      then show ?thesis using False by (metis option.exhaust)
    qed
  qed
qed

lemma insert_view:
  assumes ok: "tree_ok t" and v: "area_ok k v" and free: "\<And>va. inside v va \<Longrightarrow> view t va = None"
    and t': "vmap t' = om_insert k v (vmap t)"
  shows "tree_ok t'" "view t' = (\<lambda>va. if inside v va then Some (attr_at v va) else view t va)"
    "map_of (vmap t') = (map_of (vmap t))(k \<mapsto> v)" "map_of (vmap t) k = None"
proof -
  have wf: "om_wf (vmap t)" and mo: "map_ok (map_of (vmap t))" using ok by (auto simp: tree_ok_def)
  show g: "map_of (vmap t') = (map_of (vmap t))(k \<mapsto> v)" using t' bt.get_ins [OF wf] by simp
  have apart: "v_end w \<le> k \<or> v_end v \<le> x" if w: "map_of (vmap t) x = Some w" for x w
  proof (rule ccontr)
    assume a: "\<not> ?thesis"
    have "inside v (max k x)" "inside w (max k x)"
      using a v map_okD(1,2) [OF mo w] by (auto simp: inside_def area_ok_def max_def)
    then show False using free view_None [OF ok] w by blast
  qed
  show new: "map_of (vmap t) k = None"
    using apart [of k] map_okD(2) [OF mo, of k] v by (cases "map_of (vmap t) k") (auto simp: area_ok_def)
  have "map_ok ((map_of (vmap t))(k \<mapsto> v))"
    unfolding map_ok_def
  proof (intro conjI allI impI)
    fix x w assume "((map_of (vmap t))(k \<mapsto> v)) x = Some w"
    then show "area_ok x w" using mo v by (auto simp: map_ok_def split: if_splits)
  next
    fix x w x' w'
    assume w: "((map_of (vmap t))(k \<mapsto> v)) x = Some w" "((map_of (vmap t))(k \<mapsto> v)) x' = Some w'" "x < x'"
    show "v_end w \<le> x'"
    proof (cases "x = k \<or> x' = k")
      case False
      then show ?thesis using w map_okD(4) [OF mo] by auto
    next
      case True
      then show ?thesis
        using w apart [of x w] apart [of x' w'] map_okD(2) [OF mo, of x w] map_okD(2) [OF mo, of x' w'] v
        by (auto simp: area_ok_def split: if_splits)
    qed
  qed
  then show ok': "tree_ok t'" using wf t' g by (simp add: tree_ok_def)
  show "view t' = (\<lambda>va. if inside v va then Some (attr_at v va) else view t va)"
  proof
    fix va
    show "view t' va = (if inside v va then Some (attr_at v va) else view t va)"
    proof (cases "inside v va")
      case True
      then show ?thesis using view_at [OF ok', of k v va] g by simp
    next
      case False
      have "view t' va = Some x \<longleftrightarrow> view t va = Some x" for x
        unfolding view_Some [OF ok'] view_Some [OF ok] g ex_upd using False new by (metis option.distinct(1) option.inject)
      then show ?thesis using False by (metis option.exhaust)
    qed
  qed
qed

lemma absorb_ok:
  assumes ok: "tree_ok t" and l: "map_of (vmap t) lk = Some l" and r: "map_of (vmap t) rk = Some r" and m: "mergeable_with_next l r"
  shows "\<exists>t'. absorb t lk rk = Some t' \<and> tree_ok t' \<and> view t' = view t \<and> v_start r = rk \<and>
    map_of (vmap t') = (map_of (vmap t))(rk := None, lk \<mapsto> l\<lparr>v_end := v_end r, rss := rss l + rss r\<rparr>)"
proof -
  have wf: "om_wf (vmap t)" and mo: "map_ok (map_of (vmap t))" using ok by (auto simp: tree_ok_def)
  have lr: "v_end l = v_start r" "v_start r = rk" "v_start l = lk" "lk < rk" "rk < v_end r"
    using merge_same(1) [OF m] map_okD [OF mo l] map_okD [OF mo r] by auto
  define t1 where "t1 = vma_closed (t\<lparr>vmap := om_remove rk (vmap t)\<rparr>) r"
  define l' where "l' = l\<lparr>v_end := v_end r, rss := rss l + rss r\<rparr>"
  have t1: "vmap t1 = om_remove rk (vmap t)" by (simp add: t1_def vma_closed_def)
  note R = remove_view [OF ok r t1]
  have l1: "map_of (vmap t1) lk = Some l" using R(3) l lr by simp
  define t2 where "t2 = t1\<lparr>vmap := om_remove lk (vmap t1)\<rparr>"
  have t2: "vmap t2 = om_remove lk (vmap t1)" by (simp add: t2_def)
  note R2 = remove_view [OF R(1) l1 t2]
  define t' where "t' = t1\<lparr>vmap := om_insert lk l' (vmap t1)\<rparr>"
  have wf1: "om_wf (vmap t1)" using R(1) by (simp add: tree_ok_def)
  have same: "map_of (vmap t') = map_of (om_insert lk l' (vmap t2))"
    using wf1 by (simp add: t'_def t2 bt.get_ins bt.get_del)
  have l'_ok: "area_ok lk l'" using lr map_okD [OF mo r] by (simp add: area_ok_def l'_def)
  have in': "inside l' va \<longleftrightarrow> inside l va \<or> inside r va" for va using lr by (auto simp: inside_def l'_def)
  define t3 where "t3 = t2\<lparr>vmap := om_insert lk l' (vmap t2)\<rparr>"
  have free: "view t2 va = None" if "inside l' va" for va using that R2(2) R(2) in' by auto
  have t3: "vmap t3 = om_insert lk l' (vmap t2)" by (simp add: t3_def)
  note I = insert_view(1,2) [OF R2(1) l'_ok free t3]
  have ok': "tree_ok t'" using I(1) wf1 same t3 by (simp add: tree_ok_def t'_def)
  have "view t' va = view t3 va" for va
  proof -
    have "view t' va = Some x \<longleftrightarrow> view t3 va = Some x" for x
      using view_Some [OF ok', of va x] view_Some [OF I(1), of va x] same t3 by simp
    then show ?thesis by (metis option.exhaust)
  qed
  moreover have "view t3 va = view t va" for va
  proof -
    have "attr_at l' va = attr_at l va" by (simp add: l'_def attr_at_def)
    moreover have "attr_at l' va = attr_at r va" if "inside r va"
      using merge_attr [OF m, of va] that lr by (simp add: l'_def inside_def)
    ultimately show ?thesis
      using fun_cong [OF I(2), of va] fun_cong [OF R(2), of va] fun_cong [OF R2(2), of va] in' [of va]
        view_at [OF ok l, of va] view_at [OF ok r, of va] by (auto split: if_splits)
  qed
  ultimately have "view t' = view t" by auto
  moreover have "absorb t lk rk = Some t'"
    using r l1 by (simp add: absorb_def map_take_def t1_def t'_def l'_def vma_closed_def)
  moreover have "map_of (vmap t') = (map_of (vmap t))(rk := None, lk \<mapsto> l')"
    using wf1 R(3) by (simp add: t'_def bt.get_ins)
  ultimately show ?thesis using ok' lr by (auto simp: l'_def)
qed

end
