(* ===== verification/Vma_Hooks.thy ===== *)
theory Vma_Hooks
  imports Vma_View
begin

text \<open>
  The accounting of the open and close hooks: the opens that an object has seen, less the closes, are the
  areas of the tree that map it, plus the areas a range operation has taken out and not yet closed.
\<close>

definition areas :: "(vma \<Rightarrow> bool) \<Rightarrow> (u64, vma) omap \<Rightarrow> int" where
  "areas P m = int (length (filter (\<lambda>e. P (snd e)) m))"

definition maps_obj :: "obj \<Rightarrow> vma \<Rightarrow> bool" where "maps_obj b v \<longleftrightarrow> object_of v = Some b"

definition attaches :: "obj \<Rightarrow> vma \<Rightarrow> bool" where
  "attaches b v \<longleftrightarrow> object_of v = Some b \<and> fl_contains (v_flags v) VM_SYSVSHM"

definition net_open :: "obj \<Rightarrow> vm_event list \<Rightarrow> int" where
  "net_open b lg = int (count_list lg (VmaOpen b)) - int (count_list lg (VmaClose b))"

definition net_shm :: "obj \<Rightarrow> vm_event list \<Rightarrow> int" where
  "net_shm b lg = int (count_list lg (ShmOpen b)) - int (count_list lg (ShmClose b))"

definition one :: "bool \<Rightarrow> int" where "one p = (if p then 1 else 0)"

definition owed :: "vma_tree \<Rightarrow> vma list \<Rightarrow> bool" where
  "owed t vs \<longleftrightarrow> (\<forall>b. net_open b (vlog t) = areas (maps_obj b) (vmap t) + (\<Sum>v\<leftarrow>vs. one (maps_obj b v)) \<and>
     (shm_ops t \<longrightarrow> net_shm b (vlog t) = areas (attaches b) (vmap t) + (\<Sum>v\<leftarrow>vs. one (attaches b v))))"

lemma areas_insert: "om_wf m \<Longrightarrow> map_of m k = None \<Longrightarrow> areas P (om_insert k v m) = areas P m + one (P v)"
  by (induction k v m rule: om_insert.induct) (auto simp: areas_def one_def split: if_splits)

lemma areas_remove: "om_wf m \<Longrightarrow> map_of m k = Some v \<Longrightarrow> areas P (om_remove k m) = areas P m - one (P v)"
  by (induction k m rule: om_remove.induct) (auto simp: areas_def one_def split: if_splits)

lemma areas_replace: "om_wf m \<Longrightarrow> map_of m k = Some v \<Longrightarrow> areas P (om_insert k w m) = areas P m - one (P v) + one (P w)"
proof (induction k w m rule: om_insert.induct)
  case (2 k w x y m)
  have "x < k" if "map_of m k = Some v" using that 2(2) map_of_SomeD [OF that] by auto
  then show ?case using 2 by (auto simp: areas_def one_def split: if_splits)
qed simp

lemma object_backing: "object_of v = Some b \<longleftrightarrow> (\<exists>off. backing v = FileB b off)"
  by (auto simp: object_of_def split: vma_backing.splits)

lemma opened_net:
  "net_open b (vlog (vma_opened t v)) = net_open b (vlog t) + one (maps_obj b v)"
  "shm_ops t \<Longrightarrow> net_shm b (vlog (vma_opened t v)) = net_shm b (vlog t) + one (attaches b v)"
  by (auto simp: vma_opened_def net_open_def net_shm_def dispatch_def maps_obj_def attaches_def one_def object_of_def count_list_append
      split: option.splits vma_backing.splits)

lemma closed_net:
  "net_open b (vlog (vma_closed t v)) = net_open b (vlog t) - one (maps_obj b v)"
  "shm_ops t \<Longrightarrow> net_shm b (vlog (vma_closed t v)) = net_shm b (vlog t) - one (attaches b v)"
  by (auto simp: vma_closed_def net_open_def net_shm_def dispatch_def maps_obj_def attaches_def one_def object_of_def count_list_append
      split: option.splits vma_backing.splits)

lemma hook_fields [simp]:
  "vmap (vma_opened t v) = vmap t" "shm_ops (vma_opened t v) = shm_ops t"
  "vmap (vma_closed t v) = vmap t" "shm_ops (vma_closed t v) = shm_ops t"
  by (simp_all add: vma_opened_def vma_closed_def)

lemma owed_put: "owed t vs \<Longrightarrow> om_wf (vmap t) \<Longrightarrow> map_of (vmap t) k = None \<Longrightarrow> owed (map_put t k v) vs"
  by (simp add: owed_def map_put_def opened_net areas_insert Let_def)

lemma owed_take: "owed t vs \<Longrightarrow> om_wf (vmap t) \<Longrightarrow> map_take t k = Some (t', v) \<Longrightarrow> owed t' (v # vs)"
  by (auto simp: owed_def map_take_def areas_remove split: option.splits)

lemma owed_close: "owed t (v # vs) \<Longrightarrow> owed (vma_closed t v) vs"
  by (simp add: owed_def closed_net)

lemma owed_replace:
  "owed t vs \<Longrightarrow> om_wf (vmap t) \<Longrightarrow> map_of (vmap t) k = Some v \<Longrightarrow> backing w = backing v \<Longrightarrow> v_flags w = v_flags v \<Longrightarrow>
     owed (t\<lparr>vmap := om_insert k w (vmap t)\<rparr>) vs"
  by (simp add: owed_def areas_replace maps_obj_def attaches_def object_of_def)

lemma owed_absorb:
  assumes "owed t vs" and "om_wf (vmap t)" and "absorb t lk rk = Some t'"
  shows "owed t' vs"
proof -
  obtain t1 r l where t1: "map_take t rk = Some (t1, r)" and l: "map_of (vmap (vma_closed t1 r)) lk = Some l"
      "t' = (vma_closed t1 r)\<lparr>vmap := om_insert lk (l\<lparr>v_end := v_end r, rss := rss l + rss r\<rparr>) (vmap (vma_closed t1 r))\<rparr>"
    using assms(3) by (auto simp: absorb_def bind_eq_Some_conv)
  have "om_wf (vmap t1)" using t1 assms(2) by (auto simp: map_take_def split: option.splits)
  then show ?thesis
    using owed_replace [OF owed_close [OF owed_take [OF assms(1,2) t1]] _ l(1)] l(2) by simp
qed

end
