(* ===== verification/Vma_Pieces.thy ===== *)
theory Vma_Pieces
  imports Vma_Hooks
begin

text \<open>
  One area under a range operation: the fragments outside the range go back as they were, the middle
  goes back changed or not at all, and then the middle may join its neighbours. What each of these does to the
  view of the tree, to the keys above the area and to the hook accounting.
\<close>

definition overlaps :: "vma \<Rightarrow> u64 \<Rightarrow> u64 \<Rightarrow> bool" where
  "overlaps v start fin \<longleftrightarrow> start < v_end v \<and> v_start v < fin"

text \<open>A boundary strictly inside an area is harmless where \<^const>\<open>clone_subrange\<close> moves the backing along.\<close>

definition cut_ok :: "vma \<Rightarrow> u64 \<Rightarrow> u64 \<Rightarrow> bool" where
  "cut_ok v start fin \<longleftrightarrow> rebased (backing v) \<or> (\<not> (v_start v < start \<and> start < v_end v) \<and> \<not> (v_start v < fin \<and> fin < v_end v))"

definition frag :: "bool \<Rightarrow> u64 \<Rightarrow> vma \<Rightarrow> (u64, vma) omap \<Rightarrow> (u64, vma) omap" where
  "frag p k w m = (if p then om_insert k w m else m)"

lemma frag_ok:
  assumes ok: "tree_ok t" and w: "p \<Longrightarrow> area_ok k w" and free: "\<And>va. p \<Longrightarrow> inside w va \<Longrightarrow> view t va = None"
    and t': "vmap t' = frag p k w (vmap t)"
  shows "tree_ok t'" "view t' = (\<lambda>va. if p \<and> inside w va then Some (attr_at w va) else view t va)"
    "map_of (vmap t') = (if p then (map_of (vmap t))(k \<mapsto> w) else map_of (vmap t))" "p \<Longrightarrow> map_of (vmap t) k = None"
proof -
  have T: "vmap t' = om_insert k w (vmap t)" if p using t' that by (simp add: frag_def)
  have N: "vmap t' = vmap t" if "\<not> p" using t' that by (simp add: frag_def)
  show "tree_ok t'" using insert_view(1) [OF ok w free T] view_cong(2) [OF N] ok by (cases p) auto
  show "view t' = (\<lambda>va. if p \<and> inside w va then Some (attr_at w va) else view t va)"
    using insert_view(2) [OF ok w free T] view_cong(1) [OF N] by (cases p) (auto simp: fun_eq_iff)
  show "map_of (vmap t') = (if p then (map_of (vmap t))(k \<mapsto> w) else map_of (vmap t))"
    using insert_view(3) [OF ok w free T] N by (cases p) auto
  show "p \<Longrightarrow> map_of (vmap t) k = None" using insert_view(4) [OF ok w free T] by simp
qed

lemma pieces:
  fixes t0 t1 t2 t3 :: vma_tree
  assumes ok: "tree_ok t" and k: "map_of (vmap t) k = Some v" and ov: "overlaps v start fin" "start < fin" and cut: "cut_ok v start fin"
    and s: "s = max start (v_start v)" and e: "e = min fin (v_end v)"
    and w: "q \<Longrightarrow> v_start w = s" "q \<Longrightarrow> v_end w = e"
    and t0: "vmap t0 = om_remove k (vmap t)"
    and t1: "vmap t1 = frag (v_start v < s) (v_start v) (clone_subrange v (v_start v) s) (vmap t0)"
    and t2: "vmap t2 = frag q s w (vmap t1)"
    and t3: "vmap t3 = frag (e < v_end v) e (clone_subrange v e (v_end v)) (vmap t2)"
  shows "tree_ok t3"
    and "view t3 = (\<lambda>va. if inside v va \<and> start \<le> va \<and> va < fin then (if q then Some (attr_at w va) else None) else view t va)"
    and "k' \<notin> {v_start v..<v_end v} \<Longrightarrow> map_of (vmap t3) k' = map_of (vmap t) k'"
    and "q \<Longrightarrow> map_of (vmap t3) s = Some w"
    and "v_start v < s \<Longrightarrow> map_of (vmap t0) (v_start v) = None" "q \<Longrightarrow> map_of (vmap t1) s = None"
    and "e < v_end v \<Longrightarrow> map_of (vmap t2) e = None"
    and "om_wf (vmap t0)" "om_wf (vmap t1)" "om_wf (vmap t2)"
proof -
  have mo: "map_ok (map_of (vmap t))" using ok by (simp add: tree_ok_def)
  have v: "v_start v = k" "k < v_end v" "v_end v < USER_VA_END" using map_okD [OF mo k] by auto
  have se: "v_start v \<le> s" "s < e" "e \<le> v_end v" using v ov s e by (auto simp: overlaps_def)
  note R = remove_view [OF ok k t0]
  define l where "l = clone_subrange v (v_start v) s"
  define r where "r = clone_subrange v e (v_end v)"
  have inl: "inside l va \<longleftrightarrow> v_start v \<le> va \<and> va < s" and inr: "inside r va \<longleftrightarrow> e \<le> va \<and> va < v_end v" for va
    by (auto simp: inside_def l_def r_def)
  have inv: "inside v va \<longleftrightarrow> v_start v \<le> va \<and> va < v_end v" for va by (simp add: inside_def)
  have inw: "inside w va \<longleftrightarrow> s \<le> va \<and> va < e" if q for va using w that by (auto simp: inside_def)
  note L = frag_ok [OF R(1) _ _ t1 [folded l_def]]
  have L': "area_ok (v_start v) l" if "v_start v < s" using that v se by (simp add: area_ok_def l_def)
  have Lf: "view t0 va = None" if "inside l va" for va using that R(2) inl se by (auto simp: inside_def)
  note L1 = L [OF L' Lf]
  have W': "area_ok s w" if q using that w v se by (simp add: area_ok_def)
  have Wf: "view t1 va = None" if q "inside w va" for va
    using that(2) L1(2) R(2) se inl unfolding inw [OF that(1)] by (auto simp: inside_def)
  note W1 = frag_ok [OF L1(1) W' Wf t2]
  have R': "area_ok e r" if "e < v_end v" using that v by (simp add: area_ok_def r_def)
  have Rf: "view t2 va = None" if "inside r va" for va
    using that W1(2) L1(2) R(2) se inl inr inw by (cases q) (auto simp: inside_def)
  note R1 = frag_ok [OF W1(1) R' Rf t3 [folded r_def]]
  show "tree_ok t3" by (rule R1(1))
  show "view t3 = (\<lambda>va. if inside v va \<and> start \<le> va \<and> va < fin then (if q then Some (attr_at w va) else None) else view t va)"
  proof
    fix va
    have al: "attr_at l va = attr_at v va" if "inside l va"
      unfolding l_def using clone_attr [of v "v_start v" va s] that inl by simp
    have ar: "attr_at r va = attr_at v va" if "inside r va" "e < v_end v"
      unfolding r_def using clone_attr [of v e va "v_end v"] that inr cut se e s by (auto simp: cut_ok_def min_def split: if_splits)
    have vv: "view t va = Some (attr_at v va)" if "inside v va" using view_at [OF ok k that] .
    show "view t3 va = (if inside v va \<and> start \<le> va \<and> va < fin then (if q then Some (attr_at w va) else None) else view t va)"
    proof -
      consider "\<not> inside v va" | "inside v va" "va < s" | "s \<le> va" "va < e" | "inside v va" "e \<le> va" by (metis not_le)
      then show ?thesis
      proof cases
        case 1
        have "\<not> inside l va" "\<not> inside r va" "\<not> (q \<and> inside w va)" using 1 se by (auto simp: inl inr inw inv)
        then show ?thesis using 1 by (auto simp: R1(2) W1(2) L1(2) R(2))
      next
        case 2
        have "inside l va" "\<not> inside r va" "\<not> (q \<and> inside w va)" "va < start" "v_start v < s" using 2 se s by (auto simp: inl inr inw inv)
        then show ?thesis using 2 al vv by (auto simp: R1(2) W1(2) L1(2))
      next
        case 3
        have "\<not> inside l va" "\<not> inside r va" "q \<and> inside w va \<longleftrightarrow> q" "inside v va" "start \<le> va" "va < fin"
          using 3 se s e by (auto simp: inl inr inw inv)
        then show ?thesis by (auto simp: R1(2) W1(2) L1(2) R(2))
      next
        case 4
        have "inside r va" "e < v_end v" "\<not> va < fin" using 4 e by (auto simp: inr inv)
        then show ?thesis using 4 ar vv by (simp add: R1(2))
      qed
    qed
  qed
  show "map_of (vmap t3) k' = map_of (vmap t) k'" if "k' \<notin> {v_start v..<v_end v}"
    using that R1(3) W1(3) L1(3) R(3) v se by (auto split: if_splits)
  show "map_of (vmap t3) s = Some w" if q using that R1(3) W1(3) se by (auto split: if_splits)
  show "v_start v < s \<Longrightarrow> map_of (vmap t0) (v_start v) = None" "q \<Longrightarrow> map_of (vmap t1) s = None" "e < v_end v \<Longrightarrow> map_of (vmap t2) e = None"
    using L1(4) W1(4) R1(4) by auto
  show "om_wf (vmap t0)" "om_wf (vmap t1)" "om_wf (vmap t2)" using R(1) L1(1) W1(1) by (simp_all add: tree_ok_def)
qed

end
