(* ===== verification/Vma_Merge.thy ===== *)
theory Vma_Merge
  imports Vma_Pieces
begin

text \<open>
  Merging an area with its neighbours changes neither the view nor the accounting. It may take away one
  key above the area, and then the absorbed area had the attributes of this one.
\<close>

definition plain :: "attr \<Rightarrow> attr \<Rightarrow> bool" where
  "plain a b \<longleftrightarrow> a\<lparr>at_backing := Anonymous\<rparr> = b\<lparr>at_backing := Anonymous\<rparr>"

lemma plain_trans: "plain a b \<Longrightarrow> plain b c \<Longrightarrow> plain a c"
  by (simp add: plain_def)

lemma plain_same: "plain (attr_at v x) (attr_at v y)"
  by (simp add: plain_def attr_at_def)

lemma plain_merge: "mergeable_with_next v n \<Longrightarrow> plain (attr_at v x) (attr_at n y)"
  by (auto simp: plain_def attr_at_def mergeable_with_next_def mpol_equal_def split: if_splits)

lemma plain_grow: "plain (attr_at (v\<lparr>v_end := e, rss := r\<rparr>) x) (attr_at v y)"
  by (simp add: plain_def attr_at_def)

definition only_absorbs :: "vma_tree \<Rightarrow> vma_tree \<Rightarrow> u64 \<Rightarrow> vma \<Rightarrow> bool" where
  "only_absorbs t t' key c \<longleftrightarrow> (\<forall>k'. key < k' \<longrightarrow> map_of (vmap t') k' = map_of (vmap t) k' \<or>
     map_of (vmap t') k' = None \<and> (\<exists>r. map_of (vmap t) k' = Some r \<and> (\<forall>x y. plain (attr_at c x) (attr_at r y))))"

lemma merge_right_ok:
  assumes ok: "tree_ok t" and c: "map_of (vmap t) key = Some c"
  shows "\<exists>t'. try_merge_right t key = Some t' \<and> tree_ok t' \<and> view t' = view t \<and> (\<forall>vs. owed t vs \<longrightarrow> owed t' vs) \<and> only_absorbs t t' key c"
proof -
  have wf: "om_wf (vmap t)" using ok by (simp add: tree_ok_def)
  show ?thesis
  proof (cases "om_above (vmap t) key")
    case None
    then show ?thesis using ok by (simp add: try_merge_right_def only_absorbs_def)
  next
    case (Some e)
    obtain rk r where e: "e = (rk, r)" by (cases e)
    then have r: "map_of (vmap t) rk = Some r" "key < rk" using bt.above_law [OF wf, of key rk r] Some by auto
    show ?thesis
    proof (cases "mergeable_with_next c r")
      case False
      then show ?thesis using ok c r Some e by (simp add: try_merge_right_def only_absorbs_def)
    next
      case True
      obtain t' where t': "absorb t key rk = Some t'" "tree_ok t'" "view t' = view t"
          "map_of (vmap t') = (map_of (vmap t))(rk := None, key \<mapsto> c\<lparr>v_end := v_end r, rss := rss c + rss r\<rparr>)"
        using absorb_ok [OF ok c r(1) True] by blast
      have "try_merge_right t key = Some t'" using c r Some e t'(1) True by (simp add: try_merge_right_def)
      moreover have "only_absorbs t t' key c" using t'(4) r plain_merge [OF True] by (auto simp: only_absorbs_def)
      ultimately show ?thesis using t' owed_absorb [OF _ wf t'(1)] by blast
    qed
  qed
qed

lemma merge_left_ok:
  assumes ok: "tree_ok t" and c: "map_of (vmap t) key = Some c"
  shows "\<exists>t' c'. try_merge_left t key = Some t' \<and> tree_ok t' \<and> view t' = view t \<and> (\<forall>vs. owed t vs \<longrightarrow> owed t' vs) \<and>
    map_of (vmap t') (after_left t' key) = Some c' \<and> after_left t' key \<le> key \<and> (\<forall>x y. plain (attr_at c x) (attr_at c' y)) \<and>
    (\<forall>k'>key. map_of (vmap t') k' = map_of (vmap t) k')"
proof -
  have wf: "om_wf (vmap t)" using ok by (simp add: tree_ok_def)
  have stay: ?thesis if "try_merge_left t key = Some t"
    using that ok c plain_same [of c] by (intro exI [of _ t] exI [of _ c]) (simp add: after_left_def)
  show ?thesis
  proof (cases "om_below (vmap t) key")
    case None
    then show ?thesis using stay by (simp add: try_merge_left_def)
  next
    case (Some e)
    obtain lk l where e: "e = (lk, l)" by (cases e)
    then have l: "map_of (vmap t) lk = Some l" "lk < key" "\<And>y w. map_of (vmap t) y = Some w \<Longrightarrow> y < key \<Longrightarrow> y \<le> lk"
      using bt.below_law [OF wf, of key lk l] Some by blast+
    show ?thesis
    proof (cases "mergeable_with_next l c")
      case False
      then show ?thesis using stay c l Some e by (simp add: try_merge_left_def)
    next
      case True
      let ?l = "l\<lparr>v_end := v_end c, rss := rss l + rss c\<rparr>"
      obtain t' where t': "absorb t lk key = Some t'" "tree_ok t'" "view t' = view t"
          "map_of (vmap t') = (map_of (vmap t))(key := None, lk \<mapsto> ?l)"
        using absorb_ok [OF ok l(1) c True] by blast
      have wf': "om_wf (vmap t')" using t'(2) by (simp add: tree_ok_def)
      have lk: "map_of (vmap t') lk = Some ?l" using t'(4) by simp
      obtain x w where xw: "om_below (vmap t') key = Some (x, w)"
        using bt.below_none [OF wf' _ lk, of key] l(2) by (cases "om_below (vmap t') key") auto
      have "x < key" "lk \<le> x" "map_of (vmap t') x = Some w" using bt.below_law [OF wf' xw] lk l(2) by blast+
      then have "x = lk" using l(3) [of x] t'(4) by (auto split: if_splits)
      then have "after_left t' key = lk" using xw t'(4) l(2) by (simp add: after_left_def)
      moreover have "plain (attr_at c x) (attr_at ?l y)" for x y
        using plain_trans plain_merge [OF True] plain_grow by (metis plain_def)
      moreover have "try_merge_left t key = Some t'" using c l Some e t'(1) True by (simp add: try_merge_left_def)
      ultimately show ?thesis using t' lk l(2) owed_absorb [OF _ wf t'(1)] by (intro exI [of _ t'] exI [of _ ?l]) auto
    qed
  qed
qed

lemma merge_around_ok:
  assumes ok: "tree_ok t" and c: "map_of (vmap t) key = Some c"
  shows "\<exists>t'. merge_around t key = Some t' \<and> tree_ok t' \<and> view t' = view t \<and> (\<forall>vs. owed t vs \<longrightarrow> owed t' vs) \<and> only_absorbs t t' key c"
proof -
  obtain t1 c1 where l: "try_merge_left t key = Some t1" "tree_ok t1" "view t1 = view t" "\<forall>vs. owed t vs \<longrightarrow> owed t1 vs"
      "map_of (vmap t1) (after_left t1 key) = Some c1" "after_left t1 key \<le> key" "\<forall>x y. plain (attr_at c x) (attr_at c1 y)"
      "\<forall>k'>key. map_of (vmap t1) k' = map_of (vmap t) k'"
    using merge_left_ok [OF ok c] by blast
  obtain t2 where r: "try_merge_right t1 (after_left t1 key) = Some t2" "tree_ok t2" "view t2 = view t1" "\<forall>vs. owed t1 vs \<longrightarrow> owed t2 vs"
      "only_absorbs t1 t2 (after_left t1 key) c1"
    using merge_right_ok [OF l(2,5)] by blast
  have "only_absorbs t t2 key c"
    unfolding only_absorbs_def
  proof (intro allI impI)
    fix k' assume k': "key < k'"
    then have "after_left t1 key < k'" "map_of (vmap t1) k' = map_of (vmap t) k'" using l(6,8) by auto
    then show "map_of (vmap t2) k' = map_of (vmap t) k' \<or>
        map_of (vmap t2) k' = None \<and> (\<exists>r. map_of (vmap t) k' = Some r \<and> (\<forall>x y. plain (attr_at c x) (attr_at r y)))"
      using r(5) l(7) plain_trans unfolding only_absorbs_def by metis
  qed
  then show ?thesis using l r by (simp add: merge_around_def)
qed

end
