(* ===== verification/Vma_Walk.thy ===== *)
theory Vma_Walk
  imports Vma_Merge
begin

text \<open>
  The range operations of \<open>tree_ranges.rs\<close> collect the keys of the areas that overlap the range and then work
  through that list. The locale below is the contract of the work done on one area; its lemma says what the
  whole walk does, also when an earlier merge has taken a collected key away.
  The flag \<open>booked\<close> says that the step runs the hooks, \<open>merging\<close> that it may absorb a neighbour.
\<close>

fun walk :: "bool \<Rightarrow> (vma_tree \<Rightarrow> vma \<Rightarrow> vma_tree option) \<Rightarrow> vma_tree \<Rightarrow> u64 list \<Rightarrow> vma_tree option" where
  "walk skip step t [] = Some t"
| "walk skip step t (k # ks) =
     (case map_take t k of
        None \<Rightarrow> if skip then walk skip step t ks else None
      | Some (t, v) \<Rightarrow> do { t \<leftarrow> step t v; walk skip step t ks })"

definition touched :: "(u64 \<rightharpoonup> vma) \<Rightarrow> u64 list \<Rightarrow> u64 \<Rightarrow> bool" where
  "touched m ks va \<longleftrightarrow> (\<exists>k\<in>set ks. \<exists>v. m k = Some v \<and> inside v va)"

definition fixed :: "(attr \<Rightarrow> attr option) \<Rightarrow> vma \<Rightarrow> bool" where
  "fixed G v \<longleftrightarrow> (\<forall>x. G (attr_at v x) = Some (attr_at v x))"

lemma overlap_keys_iff:
  assumes "om_wf (vmap t)"
  shows "k \<in> set (overlap_keys t start end_key) \<longleftrightarrow> (\<exists>v. map_of (vmap t) k = Some v \<and> start < v_end v \<and> k < end_key)"
proof -
  have "map_of (vmap t) k = Some v \<longleftrightarrow> (k, v) \<in> set (vmap t)" for v
    using map_of_eq_Some_iff [OF om_wf_distinct [OF assms]] by simp
  then show ?thesis by (force simp: overlap_keys_def om_range_to_def)
qed

lemma overlap_keys_sorted: "om_wf (vmap t) \<Longrightarrow> sorted_wrt (<) (overlap_keys t start end_key)"
  by (auto simp: overlap_keys_def om_range_to_def om_wf_def sorted_wrt_map intro!: sorted_wrt_filter)

locale range_walk =
  fixes step :: "vma_tree \<Rightarrow> vma \<Rightarrow> vma_tree option" and G :: "attr \<Rightarrow> attr option" and start fin :: u64 and booked merging :: bool
  assumes step_law: "\<lbrakk>tree_ok t; map_of (vmap t) k = Some v; overlaps v start fin; start < fin; cut_ok v start fin\<rbrakk> \<Longrightarrow>
    \<exists>t'. step (t\<lparr>vmap := om_remove k (vmap t)\<rparr>) v = Some t' \<and> tree_ok t' \<and>
      view t' = (\<lambda>va. if inside v va \<and> start \<le> va \<and> va < fin then G (attr_at v va) else view t va) \<and>
      (booked \<longrightarrow> owed t [] \<longrightarrow> owed t' []) \<and>
      (\<forall>k'\<ge>v_end v. map_of (vmap t') k' = map_of (vmap t) k' \<or>
         merging \<and> map_of (vmap t') k' = None \<and> (\<exists>r. map_of (vmap t) k' = Some r \<and> fixed G r))"
begin

definition pending :: "bool \<Rightarrow> (u64 \<rightharpoonup> vma) \<Rightarrow> vma_tree \<Rightarrow> u64 \<Rightarrow> bool" where
  "pending skip m t k \<longleftrightarrow> (\<exists>v. m k = Some v \<and> overlaps v start fin \<and> cut_ok v start fin \<and> (skip \<or> \<not> merging \<or> \<not> fixed G v) \<and>
     (map_of (vmap t) k = Some v \<or> merging \<and> map_of (vmap t) k = None \<and> fixed G v))"

definition partial_view :: "(u64 \<rightharpoonup> vma) \<Rightarrow> (u64 \<Rightarrow> attr option) \<Rightarrow> u64 list \<Rightarrow> u64 \<Rightarrow> attr option" where
  "partial_view m view0 ks va = (if start \<le> va \<and> va < fin \<and> \<not> touched m ks va then view0 va \<bind> G else view0 va)"

lemma partial_skip:
  assumes ok: "tree_ok t0" and v: "map_of (vmap t0) k = Some v" and fx: "fixed G v"
  shows "partial_view (map_of (vmap t0)) (view t0) (k # ks) = partial_view (map_of (vmap t0)) (view t0) ks"
proof
  fix va
  have "view t0 va \<bind> G = view t0 va" if "inside v va" using view_at [OF ok v that] fx by (simp add: fixed_def)
  then show "partial_view (map_of (vmap t0)) (view t0) (k # ks) va = partial_view (map_of (vmap t0)) (view t0) ks va"
    using v by (auto simp: partial_view_def touched_def)
qed

lemma partial_step:
  assumes ok: "tree_ok t0" and v: "map_of (vmap t0) k = Some v" and new: "k \<notin> set ks"
  shows "partial_view (map_of (vmap t0)) (view t0) ks =
    (\<lambda>va. if inside v va \<and> start \<le> va \<and> va < fin then G (attr_at v va) else partial_view (map_of (vmap t0)) (view t0) (k # ks) va)"
proof
  fix va
  have mo: "map_ok (map_of (vmap t0))" using ok by (simp add: tree_ok_def)
  have "\<not> touched (map_of (vmap t0)) ks va" if "inside v va"
    using map_ok_unique [OF mo v _ that] new by (auto simp: touched_def)
  then show "partial_view (map_of (vmap t0)) (view t0) ks va =
      (if inside v va \<and> start \<le> va \<and> va < fin then G (attr_at v va) else partial_view (map_of (vmap t0)) (view t0) (k # ks) va)"
    using v view_at [OF ok v, of va] by (auto simp: partial_view_def touched_def)
qed

lemma walk_inv:
  assumes ok0: "tree_ok t0" and lt: "start < fin"
  shows "tree_ok t \<Longrightarrow> sorted_wrt (<) ks \<Longrightarrow> (\<And>k. k \<in> set ks \<Longrightarrow> pending skip (map_of (vmap t0)) t k) \<Longrightarrow>
    view t = partial_view (map_of (vmap t0)) (view t0) ks \<Longrightarrow>
    \<exists>t'. walk skip step t ks = Some t' \<and> tree_ok t' \<and> view t' = partial_view (map_of (vmap t0)) (view t0) [] \<and> (booked \<longrightarrow> owed t [] \<longrightarrow> owed t' [])"
proof (induction ks arbitrary: t)
  case Nil
  then show ?case by simp
next
  case (Cons k ks)
  have mo: "map_ok (map_of (vmap t0))" using ok0 by (simp add: tree_ok_def)
  obtain v where v: "map_of (vmap t0) k = Some v" "overlaps v start fin" "cut_ok v start fin" "skip \<or> \<not> merging \<or> \<not> fixed G v"
      "map_of (vmap t) k = Some v \<or> merging \<and> map_of (vmap t) k = None \<and> fixed G v"
    using Cons.prems(3) [of k] by (auto simp: pending_def)
  show ?case
  proof (cases "map_of (vmap t) k")
    case None
    then have "view t = partial_view (map_of (vmap t0)) (view t0) ks" using Cons.prems(4) partial_skip [OF ok0 v(1)] v(5) by simp
    then show ?thesis using Cons.IH [OF Cons.prems(1)] Cons.prems(2,3) None v(4,5) by (auto simp: map_take_def)
  next
    case (Some v')
    then have tv: "map_of (vmap t) k = Some v" using v(5) by auto
    obtain t1 where t1: "step (t\<lparr>vmap := om_remove k (vmap t)\<rparr>) v = Some t1" "tree_ok t1"
        "view t1 = (\<lambda>va. if inside v va \<and> start \<le> va \<and> va < fin then G (attr_at v va) else view t va)" "booked \<longrightarrow> owed t [] \<longrightarrow> owed t1 []"
        "\<And>k'. v_end v \<le> k' \<Longrightarrow> map_of (vmap t1) k' = map_of (vmap t) k' \<or>
          merging \<and> map_of (vmap t1) k' = None \<and> (\<exists>r. map_of (vmap t) k' = Some r \<and> fixed G r)"
      using step_law [OF Cons.prems(1) tv v(2) lt v(3)] by blast
    have "pending skip (map_of (vmap t0)) t1 x" if x: "x \<in> set ks" for x
    proof -
      obtain w where w: "map_of (vmap t0) x = Some w" "overlaps w start fin" "cut_ok w start fin" "skip \<or> \<not> merging \<or> \<not> fixed G w"
          "map_of (vmap t) x = Some w \<or> merging \<and> map_of (vmap t) x = None \<and> fixed G w"
        using Cons.prems(3) [of x] x by (auto simp: pending_def)
      have "v_end v \<le> x" using map_okD(4) [OF mo v(1) w(1)] Cons.prems(2) x by simp
      then have "map_of (vmap t1) x = Some w \<or> merging \<and> map_of (vmap t1) x = None \<and> fixed G w" using t1(5) [of x] w(5) by auto
      then show ?thesis using w by (auto simp: pending_def)
    qed
    moreover have "view t1 = partial_view (map_of (vmap t0)) (view t0) ks"
      using partial_step [OF ok0 v(1), of ks] Cons.prems(2,4) t1(3) by fastforce
    ultimately show ?thesis using Cons.IH [OF t1(2)] Cons.prems(2) t1(1,4) tv by (auto simp: map_take_def)
  qed
qed

lemma walk_ok:
  assumes ok: "tree_ok t" and lt: "start < fin" and ek: "raw_end_key fin = Some end_key"
    and cut: "\<And>k v. map_of (vmap t) k = Some v \<Longrightarrow> overlaps v start fin \<Longrightarrow> cut_ok v start fin \<and> (skip \<or> \<not> merging \<or> \<not> fixed G v)"
  shows "\<exists>t'. walk skip step t (overlap_keys t start end_key) = Some t' \<and> tree_ok t' \<and>
    view t' = (\<lambda>va. if start \<le> va \<and> va < fin then view t va \<bind> G else view t va) \<and> (booked \<longrightarrow> owed t [] \<longrightarrow> owed t' [])"
proof -
  have wf: "om_wf (vmap t)" and mo: "map_ok (map_of (vmap t))" using ok by (auto simp: tree_ok_def)
  note iff = overlap_keys_iff [OF wf, of _ start end_key]
  have below: "k < end_key \<longleftrightarrow> k < fin" if "map_of (vmap t) k = Some v" for k v
    using map_okD [OF mo that] ek by (auto simp: raw_end_key_def uva_new_def split: if_splits)
  let ?ks = "overlap_keys t start end_key"
  have pend: "pending skip (map_of (vmap t)) t k" if "k \<in> set ?ks" for k
    using that iff [of k] below cut map_okD(1) [OF mo] by (force simp: pending_def overlaps_def)
  have "view t va \<bind> G = view t va" if r: "start \<le> va" "va < fin" and n: "\<not> touched (map_of (vmap t)) ?ks va" for va
  proof -
    have "\<not> inside v va" if v: "map_of (vmap t) k = Some v" for k v
    proof
      assume i: "inside v va"
      have "v_start v = k" using map_okD(1) [OF mo v] .
      then have "k \<in> set ?ks" using iff [of k] v below [OF v] i r by (auto simp: inside_def)
      then show False using n v i by (auto simp: touched_def)
    qed
    then show ?thesis using view_None [OF ok, of va] by auto
  qed
  then have "view t = partial_view (map_of (vmap t)) (view t) ?ks" by (auto simp: partial_view_def fun_eq_iff)
  then show ?thesis
    using walk_inv [OF ok lt ok overlap_keys_sorted [OF wf] pend] by (auto simp: partial_view_def touched_def fun_eq_iff)
qed

end

end
