(* ===== verification/Vma_Ranges.thy ===== *)
theory Vma_Ranges
  imports Vma_Walk
begin

text \<open>
  The steps of the range operations satisfy the contract of the walk: cutting an area out, changing its middle with and
  without a merge, and the rewrite of the policy writers. Each loop of the model is such a walk.
\<close>

section \<open>The fragments\<close>

lemma uva_below: "va < USER_VA_END \<Longrightarrow> uva_new va = Some va"
  by (simp add: uva_new_def)

lemma put_left_frag:
  assumes "s < USER_VA_END"
  obtains t' where "put_left t v s = Some t'" "vmap t' = frag (v_start v < s) (v_start v) (clone_subrange v (v_start v) s) (vmap t)"
    "\<And>vs. owed t vs \<Longrightarrow> om_wf (vmap t) \<Longrightarrow> (v_start v < s \<Longrightarrow> map_of (vmap t) (v_start v) = None) \<Longrightarrow> owed t' vs"
  by (cases "v_start v < s") (auto simp: put_left_def frag_def uva_below assms map_put_def Let_def owed_put [unfolded map_put_def Let_def, simplified])

lemma put_right_frag:
  assumes "e < USER_VA_END"
  obtains t' where "put_right t v e = Some t'" "vmap t' = frag (e < v_end v) e (clone_subrange v e (v_end v)) (vmap t)"
    "\<And>vs. owed t vs \<Longrightarrow> om_wf (vmap t) \<Longrightarrow> (e < v_end v \<Longrightarrow> map_of (vmap t) e = None) \<Longrightarrow> owed t' vs"
  by (cases "e < v_end v") (auto simp: put_right_def frag_def uva_below assms map_put_def Let_def owed_put [unfolded map_put_def Let_def, simplified])

lemma owed_removed: "owed t [] \<Longrightarrow> om_wf (vmap t) \<Longrightarrow> map_of (vmap t) k = Some v \<Longrightarrow> owed (t\<lparr>vmap := om_remove k (vmap t)\<rparr>) [v]"
  using owed_take [of t "[]" k] by (simp add: map_take_def)

lemma bounds:
  assumes "tree_ok t" "map_of (vmap t) k = Some v" "overlaps v start fin" "start < fin"
  shows "max start (v_start v) < USER_VA_END" "min fin (v_end v) < USER_VA_END" "om_wf (vmap t)"
proof -
  have mo: "map_ok (map_of (vmap t))" using assms(1) by (simp add: tree_ok_def)
  show "max start (v_start v) < USER_VA_END" "min fin (v_end v) < USER_VA_END"
    using map_okD(1-3) [OF mo assms(2)] assms(3) by (auto simp: overlaps_def)
  show "om_wf (vmap t)" using assms(1) by (simp add: tree_ok_def)
qed

definition keeps_range :: "(vma \<Rightarrow> vma) \<Rightarrow> bool" where
  "keeps_range f \<longleftrightarrow> (\<forall>w. v_start (f w) = v_start w \<and> v_end (f w) = v_end w)"

lemma split_put_ok:
  assumes a: "tree_ok t" "map_of (vmap t) k = Some v" "overlaps v start fin" "start < fin" and cut: "cut_ok v start fin" and f: "keeps_range f"
  defines "s \<equiv> max start (v_start v)" and "w \<equiv> f (clone_subrange v (max start (v_start v)) (min fin (v_end v)))"
  obtains t' where "split_put f (t\<lparr>vmap := om_remove k (vmap t)\<rparr>) v start fin = Some (t', s)" "tree_ok t'"
    "view t' = (\<lambda>va. if inside v va \<and> start \<le> va \<and> va < fin then Some (attr_at w va) else view t va)"
    "\<And>k'. k' \<notin> {v_start v..<v_end v} \<Longrightarrow> map_of (vmap t') k' = map_of (vmap t) k'" "map_of (vmap t') s = Some w" "owed t [] \<Longrightarrow> owed t' []"
proof -
  define e where "e = min fin (v_end v)"
  define t0 where "t0 = t\<lparr>vmap := om_remove k (vmap t)\<rparr>"
  note b = bounds [OF a]
  have fw: "f (clone_subrange v s e) = w" by (simp add: w_def s_def e_def)
  have w: "v_start w = s" "v_end w = e" using f by (simp_all add: keeps_range_def w_def s_def e_def)
  obtain t1 where t1: "put_left t0 v s = Some t1" "vmap t1 = frag (v_start v < s) (v_start v) (clone_subrange v (v_start v) s) (vmap t0)"
      "\<And>vs. owed t0 vs \<Longrightarrow> om_wf (vmap t0) \<Longrightarrow> (v_start v < s \<Longrightarrow> map_of (vmap t0) (v_start v) = None) \<Longrightarrow> owed t1 vs"
    using put_left_frag [of s t0 v] b by (auto simp: s_def)
  define t2 where "t2 = map_put t1 s w"
  have t2: "vmap t2 = frag True s w (vmap t1)" by (simp add: t2_def map_put_def Let_def frag_def)
  obtain t3 where t3: "put_right t2 v e = Some t3" "vmap t3 = frag (e < v_end v) e (clone_subrange v e (v_end v)) (vmap t2)"
      "\<And>vs. owed t2 vs \<Longrightarrow> om_wf (vmap t2) \<Longrightarrow> (e < v_end v \<Longrightarrow> map_of (vmap t2) e = None) \<Longrightarrow> owed t3 vs"
    using put_right_frag [of e t2 v] b by (auto simp: e_def)
  have t0: "vmap t0 = om_remove k (vmap t)" by (simp add: t0_def)
  note P = pieces [OF a cut s_def [THEN meta_eq_to_obj_eq] e_def w t0 t1(2) t2 t3(2)]
  define t' where "t' = vma_closed t3 v"
  have [simp]: "vmap t' = vmap t3" by (simp add: t'_def)
  have "split_put f t0 v start fin = Some (t', s)"
    using t1(1) t3(1) b w by (simp add: split_put_def Let_def uva_below s_def [symmetric] e_def [symmetric] fw t2_def t'_def)
  moreover have "owed t' []" if "owed t []"
  proof -
    have "owed t1 [v]" using t1(3) [OF owed_removed [OF that b(3) a(2), folded t0_def] P(8,5)] .
    then have "owed t2 [v]" unfolding t2_def by (rule owed_put [OF _ P(9) P(6) [OF TrueI]])
    then have "owed t3 [v]" using t3(3) P(10,7) by blast
    then show ?thesis unfolding t'_def by (rule owed_close)
  qed
  ultimately show thesis
    using that [of t'] P(1,3) P(2) [unfolded if_True] P(4) [OF TrueI] view_cong [of t' t3] by (simp add: t0_def)
qed


lemma rewrite_one_ok:
  assumes a: "tree_ok t" "map_of (vmap t) k = Some v" "overlaps v start fin" "start < fin" and cut: "cut_ok v start fin" and f: "keeps_range f"
  defines "w \<equiv> f (clone_subrange v (max start (v_start v)) (min fin (v_end v)))"
  obtains t' where "rewrite_one f (t\<lparr>vmap := om_remove k (vmap t)\<rparr>) v start fin = Some t'" "tree_ok t'"
    "view t' = (\<lambda>va. if inside v va \<and> start \<le> va \<and> va < fin then Some (attr_at w va) else view t va)"
    "\<And>k'. k' \<notin> {v_start v..<v_end v} \<Longrightarrow> map_of (vmap t') k' = map_of (vmap t) k'"
proof -
  define s where "s = max start (v_start v)"
  define e where "e = min fin (v_end v)"
  note b = bounds [OF a]
  have fw: "f (clone_subrange v s e) = w" by (simp add: w_def s_def e_def)
  have w: "v_start w = s" "v_end w = e" using f by (simp_all add: keeps_range_def w_def s_def e_def)
  define t0 where "t0 = t\<lparr>vmap := om_remove k (vmap t)\<rparr>"
  define t1 where "t1 = t0\<lparr>vmap := frag (v_start v < s) (v_start v) (clone_subrange v (v_start v) s) (vmap t0)\<rparr>"
  define t2 where "t2 = t1\<lparr>vmap := frag True s w (vmap t1)\<rparr>"
  define t3 where "t3 = t2\<lparr>vmap := frag (e < v_end v) e (clone_subrange v e (v_end v)) (vmap t2)\<rparr>"
  have eqs: "vmap t0 = om_remove k (vmap t)" "vmap t1 = frag (v_start v < s) (v_start v) (clone_subrange v (v_start v) s) (vmap t0)"
      "vmap t2 = frag True s w (vmap t1)" "vmap t3 = frag (e < v_end v) e (clone_subrange v e (v_end v)) (vmap t2)"
    by (simp_all add: t0_def t1_def t2_def t3_def)
  note P = pieces [OF a cut s_def e_def w eqs]
  have "rewrite_one f t0 v start fin = Some t3"
    using b w by (simp add: rewrite_one_def Let_def uva_below s_def [symmetric] e_def [symmetric] fw map_reinsert_def t1_def t2_def t3_def frag_def)
  then show thesis using that [of t3] P(1,3) P(2) [unfolded if_True] by (simp add: t0_def)
qed

lemma cut_out_ok:
  assumes a: "tree_ok t" "map_of (vmap t) k = Some v" "overlaps v start fin" "start < fin" and cut: "cut_ok v start fin"
  obtains t' where "cut_out (t\<lparr>vmap := om_remove k (vmap t)\<rparr>) v start fin = Some (t', clone_subrange v (max start (v_start v)) (min fin (v_end v)))"
    "tree_ok t'" "view t' = (\<lambda>va. if inside v va \<and> start \<le> va \<and> va < fin then None else view t va)"
    "\<And>k'. k' \<notin> {v_start v..<v_end v} \<Longrightarrow> map_of (vmap t') k' = map_of (vmap t) k'" "owed t [] \<Longrightarrow> owed t' []"
proof -
  define s where "s = max start (v_start v)"
  define e where "e = min fin (v_end v)"
  define t0 where "t0 = t\<lparr>vmap := om_remove k (vmap t)\<rparr>"
  note b = bounds [OF a]
  obtain t1 where t1: "put_left t0 v s = Some t1" "vmap t1 = frag (v_start v < s) (v_start v) (clone_subrange v (v_start v) s) (vmap t0)"
      "\<And>vs. owed t0 vs \<Longrightarrow> om_wf (vmap t0) \<Longrightarrow> (v_start v < s \<Longrightarrow> map_of (vmap t0) (v_start v) = None) \<Longrightarrow> owed t1 vs"
    using put_left_frag [of s t0 v] b by (auto simp: s_def)
  obtain t3 where t3: "put_right t1 v e = Some t3" "vmap t3 = frag (e < v_end v) e (clone_subrange v e (v_end v)) (vmap t1)"
      "\<And>vs. owed t1 vs \<Longrightarrow> om_wf (vmap t1) \<Longrightarrow> (e < v_end v \<Longrightarrow> map_of (vmap t1) e = None) \<Longrightarrow> owed t3 vs"
    using put_right_frag [of e t1 v] b by (auto simp: e_def)
  have t0: "vmap t0 = om_remove k (vmap t)" by (simp add: t0_def)
  have nomid: "vmap t1 = frag False s v (vmap t1)" by (simp add: frag_def)
  note P = pieces [OF a cut s_def e_def _ _ t0 t1(2) nomid t3(2), simplified]
  define t' where "t' = vma_closed t3 v"
  have [simp]: "vmap t' = vmap t3" by (simp add: t'_def)
  have "cut_out t0 v start fin = Some (t', clone_subrange v s e)"
    using t1(1) t3(1) b by (simp add: cut_out_def Let_def uva_below s_def [symmetric] e_def [symmetric] t'_def)
  moreover have "owed t' []" if "owed t []"
  proof -
    have "owed t1 [v]" using t1(3) [OF owed_removed [OF that b(3) a(2), folded t0_def]] P by blast
    then have "owed t3 [v]" using t3(3) P by blast
    then show ?thesis unfolding t'_def by (rule owed_close)
  qed
  ultimately show thesis
    using that [of t'] P(1,3) P(2) [unfolded if_False] view_cong [of t' t3] by (simp add: t0_def s_def e_def)
qed


section \<open>The loops as walks\<close>

definition lifts :: "(vma \<Rightarrow> vma) \<Rightarrow> (attr \<Rightarrow> attr) \<Rightarrow> bool" where
  "lifts f g \<longleftrightarrow> keeps_range f \<and> (\<forall>w va. attr_at (f w) va = g (attr_at w va)) \<and> (\<forall>a b. g (a\<lparr>at_backing := b\<rparr>) = (g a)\<lparr>at_backing := b\<rparr>)"

definition merge_step :: "(vma \<Rightarrow> vma) \<Rightarrow> u64 \<Rightarrow> u64 \<Rightarrow> vma_tree \<Rightarrow> vma \<Rightarrow> vma_tree option" where
  "merge_step f start fin t v = do { (t, mid_key) \<leftarrow> split_put f t v start fin; merge_around t mid_key }"

definition plain_step :: "(vma \<Rightarrow> vma) \<Rightarrow> u64 \<Rightarrow> u64 \<Rightarrow> vma_tree \<Rightarrow> vma \<Rightarrow> vma_tree option" where
  "plain_step f start fin t v = map_option fst (split_put f t v start fin)"

definition rewrite_step :: "(vma \<Rightarrow> vma) \<Rightarrow> u64 \<Rightarrow> u64 \<Rightarrow> vma_tree \<Rightarrow> vma \<Rightarrow> vma_tree option" where
  "rewrite_step f start fin t v = rewrite_one f t v start fin"

definition cut_step :: "u64 \<Rightarrow> u64 \<Rightarrow> vma_tree \<Rightarrow> vma \<Rightarrow> vma_tree option" where
  "cut_step start fin t v = map_option fst (cut_out t v start fin)"

lemma mprotect_walk: "mprotect_loop f t start fin ks = walk True (merge_step f start fin) t ks"
  by (induction ks arbitrary: t) (auto simp: merge_step_def split: option.splits prod.splits intro!: Option.bind_cong)

lemma expect_walk: "expect_loop f t start fin ks = walk False (merge_step f start fin) t ks"
  by (induction ks arbitrary: t) (auto simp: merge_step_def split: option.splits prod.splits intro!: Option.bind_cong)

lemma seal_walk: "seal_loop t start fin ks = walk False (plain_step (\<lambda>v. v\<lparr>v_flags := v_flags v OR VM_SEALED\<rparr>) start fin) t ks"
  by (induction ks arbitrary: t) (auto simp: plain_step_def split: option.splits prod.splits Option.bind_splits)

lemma rewrite_walk: "rewrite_loop f t start fin ks = walk False (rewrite_step f start fin) t ks"
  by (induction ks arbitrary: t) (auto simp: rewrite_step_def split: option.splits prod.splits intro!: Option.bind_cong)

lemma clone_attr_mid:
  assumes "map_ok m" "m k = Some v" "overlaps v start fin" "cut_ok v start fin" "start \<le> va" "inside v va"
  shows "attr_at (clone_subrange v (max start (v_start v)) e) va = attr_at v va"
  using assms clone_attr [of v "max start (v_start v)" va e] by (auto simp: cut_ok_def inside_def max_def)

lemma merge_step_law:
  assumes l: "lifts f g" and idem: "\<And>a. g (g a) = g a"
    and a: "tree_ok t" "map_of (vmap t) k = Some v" "overlaps v start fin" "start < fin" and cut: "cut_ok v start fin"
  shows "\<exists>t'. merge_step f start fin (t\<lparr>vmap := om_remove k (vmap t)\<rparr>) v = Some t' \<and> tree_ok t' \<and>
      view t' = (\<lambda>va. if inside v va \<and> start \<le> va \<and> va < fin then Some (g (attr_at v va)) else view t va) \<and>
      (True \<longrightarrow> owed t [] \<longrightarrow> owed t' []) \<and>
      (\<forall>k'\<ge>v_end v. map_of (vmap t') k' = map_of (vmap t) k' \<or>
         True \<and> map_of (vmap t') k' = None \<and> (\<exists>r. map_of (vmap t) k' = Some r \<and> fixed (\<lambda>a. Some (g a)) r))"
proof -
  let ?c = "clone_subrange v (max start (v_start v)) (min fin (v_end v))"
  have mo: "map_ok (map_of (vmap t))" using a(1) by (simp add: tree_ok_def)
  have f: "keeps_range f" "\<And>va. attr_at (f ?c) va = g (attr_at ?c va)" and g: "\<And>a b. g (a\<lparr>at_backing := b\<rparr>) = (g a)\<lparr>at_backing := b\<rparr>"
    using l by (auto simp: lifts_def)
  obtain t1 where t1: "split_put f (t\<lparr>vmap := om_remove k (vmap t)\<rparr>) v start fin = Some (t1, max start (v_start v))" "tree_ok t1"
      "view t1 = (\<lambda>va. if inside v va \<and> start \<le> va \<and> va < fin then Some (attr_at (f ?c) va) else view t va)"
      "\<And>k'. k' \<notin> {v_start v..<v_end v} \<Longrightarrow> map_of (vmap t1) k' = map_of (vmap t) k'"
      "map_of (vmap t1) (max start (v_start v)) = Some (f ?c)" "owed t [] \<Longrightarrow> owed t1 []"
    using split_put_ok [OF a cut f(1)] by blast
  obtain t2 where t2: "merge_around t1 (max start (v_start v)) = Some t2" "tree_ok t2" "view t2 = view t1" "\<forall>vs. owed t1 vs \<longrightarrow> owed t2 vs"
      "only_absorbs t1 t2 (max start (v_start v)) (f ?c)"
    using merge_around_ok [OF t1(2,5)] by blast
  have view: "view t2 = (\<lambda>va. if inside v va \<and> start \<le> va \<and> va < fin then Some (g (attr_at v va)) else view t va)"
    using t1(3) t2(3) f(2) clone_attr_mid [OF mo a(2,3) cut] by (simp add: fun_eq_iff)
  have fx: "fixed (\<lambda>a. Some (g a)) r" if "\<forall>x y. plain (attr_at (f ?c) x) (attr_at r y)" for r
    unfolding fixed_def
  proof
    fix y
    have "attr_at r y = (g (attr_at ?c y))\<lparr>at_backing := at_backing (attr_at r y)\<rparr>"
      using that f(2) unfolding plain_def by (metis (no_types, lifting) attr.surjective attr.update_convs(5))
    then show "Some (g (attr_at r y)) = Some (attr_at r y)" using g idem by metis
  qed
  have keys: "map_of (vmap t2) k' = map_of (vmap t) k' \<or>
      map_of (vmap t2) k' = None \<and> (\<exists>r. map_of (vmap t) k' = Some r \<and> fixed (\<lambda>a. Some (g a)) r)" if "v_end v \<le> k'" for k'
  proof -
    have "max start (v_start v) < k'" using that a(3) map_okD(1,2) [OF mo a(2)] by (auto simp: overlaps_def)
    then show ?thesis using t2(5) t1(4) [of k'] that fx unfolding only_absorbs_def by force
  qed
  have "merge_step f start fin (t\<lparr>vmap := om_remove k (vmap t)\<rparr>) v = Some t2" using t1(1) t2(1) by (simp add: merge_step_def)
  then show ?thesis using t2(2,4) view keys t1(6) by blast
qed

end
