(* ===== verification/Vma_Updates.thy ===== *)
theory Vma_Updates
  imports Vma_Ranges
begin

text \<open>
  What each range operation writes, as a function on attributes, and the walk of each operation as an instance of
  the contract. The coverage check that precedes a change succeeds exactly when every address of the
  range is mapped and admitted.
\<close>

section \<open>The written attributes\<close>

definition attr_prot :: "vma_prot \<Rightarrow> 8 word option \<Rightarrow> attr \<Rightarrow> attr" where
  "attr_prot p key a = a\<lparr>at_prot := p, at_pkey := (case key of Some k \<Rightarrow> k | None \<Rightarrow> at_pkey a)\<rparr>"

definition attr_name :: "string option \<Rightarrow> attr \<Rightarrow> attr" where "attr_name nm a = a\<lparr>at_name := nm\<rparr>"

definition attr_seal :: "attr \<Rightarrow> attr" where "attr_seal a = a\<lparr>at_flags := at_flags a OR VM_SEALED\<rparr>"

definition attr_policy :: "mem_policy option \<Rightarrow> attr \<Rightarrow> attr" where "attr_policy p a = a\<lparr>at_policy := p\<rparr>"

definition attr_home :: "32 word \<Rightarrow> attr \<Rightarrow> attr" where
  "attr_home node a = a\<lparr>at_policy := map_option (\<lambda>p. p\<lparr>home_node := node\<rparr>) (at_policy a)\<rparr>"

definition attr_uffd :: "obj option \<Rightarrow> vma_flags \<Rightarrow> attr \<Rightarrow> attr" where
  "attr_uffd ctx modes a =
     a\<lparr>at_uffd := ctx, at_flags := (case ctx of Some _ \<Rightarrow> fl_difference (at_flags a) UFFD_MASK OR (modes AND UFFD_MASK)
                                               | None \<Rightarrow> fl_difference (at_flags a) UFFD_MASK)\<rparr>"

definition new_flags :: "vma_flags \<Rightarrow> vma_flags \<Rightarrow> vma_flags \<Rightarrow> vma_flags" where
  "new_flags set_f clear_f fl =
     (if fl_contains fl VM_SECRETMEM then fl_difference (fl OR fl_difference set_f LOCKED_MASK) (fl_difference clear_f LOCKED_MASK)
      else fl_difference (fl OR set_f) clear_f)"

definition attr_flags :: "vma_flags \<Rightarrow> vma_flags \<Rightarrow> attr \<Rightarrow> attr" where
  "attr_flags set_f clear_f a = a\<lparr>at_flags := new_flags set_f clear_f (at_flags a)\<rparr>"

lemma lifts_prot: "lifts (set_prot p key) (attr_prot p key)"
  by (auto simp: lifts_def keeps_range_def set_prot_def attr_prot_def attr_at_def Let_def split: option.splits)

lemma lifts_name: "lifts (\<lambda>v. v\<lparr>anon_name := nm\<rparr>) (attr_name nm)"
  by (simp add: lifts_def keeps_range_def attr_name_def attr_at_def)

lemma lifts_seal: "lifts (\<lambda>v. v\<lparr>v_flags := v_flags v OR VM_SEALED\<rparr>) attr_seal"
  by (simp add: lifts_def keeps_range_def attr_seal_def attr_at_def)

lemma lifts_policy: "lifts (\<lambda>v. v\<lparr>mempolicy := p\<rparr>) (attr_policy p)"
  by (simp add: lifts_def keeps_range_def attr_policy_def attr_at_def)

lemma lifts_home: "lifts (set_home node) (attr_home node)"
  by (simp add: lifts_def keeps_range_def set_home_def attr_home_def attr_at_def)

lemma lifts_uffd: "lifts (set_uffd ctx modes) (attr_uffd ctx modes)"
  by (auto simp: lifts_def keeps_range_def set_uffd_def attr_uffd_def attr_at_def split: option.splits)

lemma lifts_flags: "lifts (set_flags S C) (attr_flags S C)"
  by (auto simp: lifts_def keeps_range_def set_flags_def attr_flags_def new_flags_def attr_at_def Let_def)

lemma idem_prot: "attr_prot p key (attr_prot p key a) = attr_prot p key a"
  by (simp add: attr_prot_def split: option.splits)

lemma idem_name: "attr_name nm (attr_name nm a) = attr_name nm a"
  by (simp add: attr_name_def)

lemma idem_uffd: "attr_uffd ctx modes (attr_uffd ctx modes a) = attr_uffd ctx modes a"
proof -
  have "fl_difference (fl_difference x M) M = fl_difference x M"
    "fl_difference (fl_difference x M OR (y AND M)) M OR (y AND M) = fl_difference x M OR (y AND M)" for x y M :: "32 word"
    by (rule bit_word_eqI, auto simp: fl_difference_def bit_simps)+
  then show ?thesis by (simp add: attr_uffd_def split: option.splits)
qed

lemma fl_contains_bit: "n < 32 \<Longrightarrow> fl_contains (w :: 32 word) (push_bit n 1) \<longleftrightarrow> bit w n"
proof
  assume n: "n < 32" and "fl_contains w (push_bit n 1)"
  then have "bit (w AND push_bit n 1) n" unfolding fl_contains_def by (simp add: bit_simps)
  then show "bit w n" by (simp add: bit_simps)
next
  assume "n < 32" "bit w n"
  then show "fl_contains w (push_bit n 1)"
    unfolding fl_contains_def by (intro bit_word_eqI) (auto simp: bit_simps bit_1_iff simp del: push_bit_of_1)
qed

lemma idem_flags:
  assumes "S AND VM_SECRETMEM = 0" "C AND VM_SECRETMEM = 0"
  shows "attr_flags S C (attr_flags S C a) = attr_flags S C a"
proof -
  have twice: "fl_difference (fl_difference (x OR S) C OR S) C = fl_difference (x OR S) C" for x S C :: "32 word"
    by (rule bit_word_eqI) (auto simp: fl_difference_def bit_simps)
  have keep: "bit S 19 = False" "bit C 19 = False"
    using assms unfolding VM_SECRETMEM_def bit_iff_and_push_bit_not_eq_0 [of _ 19] by blast+
  have c: "fl_contains x VM_SECRETMEM \<longleftrightarrow> bit x 19" for x unfolding VM_SECRETMEM_def by (rule fl_contains_bit) simp
  have "fl_contains (new_flags S C x) VM_SECRETMEM \<longleftrightarrow> fl_contains x VM_SECRETMEM" for x
    using keep unfolding c new_flags_def by (simp add: fl_difference_def bit_simps)
  then show ?thesis using twice by (simp add: attr_flags_def new_flags_def)
qed


section \<open>Instances of the walk\<close>

lemma plain_step_law:
  assumes l: "lifts f g" and a: "tree_ok t" "map_of (vmap t) k = Some v" "overlaps v start fin" "start < fin" and cut: "cut_ok v start fin"
  shows "\<exists>t'. plain_step f start fin (t\<lparr>vmap := om_remove k (vmap t)\<rparr>) v = Some t' \<and> tree_ok t' \<and>
      view t' = (\<lambda>va. if inside v va \<and> start \<le> va \<and> va < fin then Some (g (attr_at v va)) else view t va) \<and>
      (True \<longrightarrow> owed t [] \<longrightarrow> owed t' []) \<and>
      (\<forall>k'\<ge>v_end v. map_of (vmap t') k' = map_of (vmap t) k' \<or>
         False \<and> map_of (vmap t') k' = None \<and> (\<exists>r. map_of (vmap t) k' = Some r \<and> fixed (\<lambda>a. Some (g a)) r))"
proof -
  let ?c = "clone_subrange v (max start (v_start v)) (min fin (v_end v))"
  have mo: "map_ok (map_of (vmap t))" using a(1) by (simp add: tree_ok_def)
  have f: "keeps_range f" "\<And>va. attr_at (f ?c) va = g (attr_at ?c va)" using l by (auto simp: lifts_def)
  obtain t1 where t1: "split_put f (t\<lparr>vmap := om_remove k (vmap t)\<rparr>) v start fin = Some (t1, max start (v_start v))" "tree_ok t1"
      "view t1 = (\<lambda>va. if inside v va \<and> start \<le> va \<and> va < fin then Some (attr_at (f ?c) va) else view t va)"
      "\<And>k'. k' \<notin> {v_start v..<v_end v} \<Longrightarrow> map_of (vmap t1) k' = map_of (vmap t) k'" "owed t [] \<Longrightarrow> owed t1 []"
    using split_put_ok [OF a cut f(1)] by blast
  have "view t1 = (\<lambda>va. if inside v va \<and> start \<le> va \<and> va < fin then Some (g (attr_at v va)) else view t va)"
    using t1(3) f(2) clone_attr_mid [OF mo a(2,3) cut] by (simp add: fun_eq_iff)
  then show ?thesis using t1 by (auto simp: plain_step_def)
qed

lemma rewrite_step_law:
  assumes l: "lifts f g" and a: "tree_ok t" "map_of (vmap t) k = Some v" "overlaps v start fin" "start < fin" and cut: "cut_ok v start fin"
  shows "\<exists>t'. rewrite_step f start fin (t\<lparr>vmap := om_remove k (vmap t)\<rparr>) v = Some t' \<and> tree_ok t' \<and>
      view t' = (\<lambda>va. if inside v va \<and> start \<le> va \<and> va < fin then Some (g (attr_at v va)) else view t va) \<and>
      (False \<longrightarrow> owed t [] \<longrightarrow> owed t' []) \<and>
      (\<forall>k'\<ge>v_end v. map_of (vmap t') k' = map_of (vmap t) k' \<or>
         False \<and> map_of (vmap t') k' = None \<and> (\<exists>r. map_of (vmap t) k' = Some r \<and> fixed (\<lambda>a. Some (g a)) r))"
proof -
  let ?c = "clone_subrange v (max start (v_start v)) (min fin (v_end v))"
  have mo: "map_ok (map_of (vmap t))" using a(1) by (simp add: tree_ok_def)
  have f: "keeps_range f" "\<And>va. attr_at (f ?c) va = g (attr_at ?c va)" using l by (auto simp: lifts_def)
  obtain t1 where t1: "rewrite_one f (t\<lparr>vmap := om_remove k (vmap t)\<rparr>) v start fin = Some t1" "tree_ok t1"
      "view t1 = (\<lambda>va. if inside v va \<and> start \<le> va \<and> va < fin then Some (attr_at (f ?c) va) else view t va)"
      "\<And>k'. k' \<notin> {v_start v..<v_end v} \<Longrightarrow> map_of (vmap t1) k' = map_of (vmap t) k'"
    using rewrite_one_ok [OF a cut f(1)] by blast
  have "view t1 = (\<lambda>va. if inside v va \<and> start \<le> va \<and> va < fin then Some (g (attr_at v va)) else view t va)"
    using t1(3) f(2) clone_attr_mid [OF mo a(2,3) cut] by (simp add: fun_eq_iff)
  then show ?thesis using t1 by (auto simp: rewrite_step_def)
qed

interpretation protect: range_walk "merge_step (set_prot p key) start fin" "\<lambda>a. Some (attr_prot p key a)" start fin True True
  for p key start fin
  by (rule range_walk.intro) (rule merge_step_law [OF lifts_prot idem_prot])

interpretation naming: range_walk "merge_step (\<lambda>v. v\<lparr>anon_name := nm\<rparr>) start fin" "\<lambda>a. Some (attr_name nm a)" start fin True True
  for nm start fin
  by (rule range_walk.intro) (rule merge_step_law [OF lifts_name idem_name])

interpretation userfault: range_walk "merge_step (set_uffd ctx modes) start fin" "\<lambda>a. Some (attr_uffd ctx modes a)" start fin True True
  for ctx modes start fin
  by (rule range_walk.intro) (rule merge_step_law [OF lifts_uffd idem_uffd])

interpretation sealing: range_walk "plain_step (\<lambda>v. v\<lparr>v_flags := v_flags v OR VM_SEALED\<rparr>) start fin" "\<lambda>a. Some (attr_seal a)" start fin True False
  for start fin
  by (rule range_walk.intro) (rule plain_step_law [OF lifts_seal])

interpretation binding: range_walk "rewrite_step (\<lambda>v. v\<lparr>mempolicy := pol\<rparr>) start fin" "\<lambda>a. Some (attr_policy pol a)" start fin False False
  for pol start fin
  by (rule range_walk.intro) (rule rewrite_step_law [OF lifts_policy])

interpretation homing: range_walk "rewrite_step (set_home node) start fin" "\<lambda>a. Some (attr_home node a)" start fin False False
  for node start fin
  by (rule range_walk.intro) (rule rewrite_step_law [OF lifts_home])

lemma flags_walk:
  assumes "S AND VM_SECRETMEM = 0" "C AND VM_SECRETMEM = 0"
  shows "range_walk (merge_step (set_flags S C) start fin) (\<lambda>a. Some (attr_flags S C a)) start fin True True"
  by (rule range_walk.intro) (rule merge_step_law [OF lifts_flags idem_flags [OF assms]])

interpretation cutting: range_walk "cut_step start fin" "\<lambda>a. None" start fin True False
  for start fin
proof (rule range_walk.intro)
  fix t k v
  assume a: "tree_ok t" "map_of (vmap t) k = Some v" "overlaps v start fin" "start < fin" "cut_ok v start fin"
  obtain t' where "cut_out (t\<lparr>vmap := om_remove k (vmap t)\<rparr>) v start fin = Some (t', clone_subrange v (max start (v_start v)) (min fin (v_end v)))"
      "tree_ok t'" "view t' = (\<lambda>va. if inside v va \<and> start \<le> va \<and> va < fin then None else view t va)"
      "\<And>k'. k' \<notin> {v_start v..<v_end v} \<Longrightarrow> map_of (vmap t') k' = map_of (vmap t) k'" "owed t [] \<Longrightarrow> owed t' []"
    using cut_out_ok [OF a] by blast
  then show "\<exists>t'. cut_step start fin (t\<lparr>vmap := om_remove k (vmap t)\<rparr>) v = Some t' \<and> tree_ok t' \<and>
      view t' = (\<lambda>va. if inside v va \<and> start \<le> va \<and> va < fin then None else view t va) \<and>
      (True \<longrightarrow> owed t [] \<longrightarrow> owed t' []) \<and>
      (\<forall>k'\<ge>v_end v. map_of (vmap t') k' = map_of (vmap t) k' \<or>
         False \<and> map_of (vmap t') k' = None \<and> (\<exists>r. map_of (vmap t) k' = Some r \<and> fixed (\<lambda>a. None) r))"
    by (auto simp: cut_step_def)
qed

section \<open>Coverage\<close>

definition in_sequence :: "vma list \<Rightarrow> bool" where
  "in_sequence vs \<longleftrightarrow> sorted_wrt (\<lambda>v w. v_end v \<le> v_start w) vs \<and> (\<forall>v\<in>set vs. v_start v < v_end v)"

lemma cover_walk_iff:
  "in_sequence vs \<Longrightarrow> (\<And>v. v \<in> set vs \<Longrightarrow> v_start v < fin) \<Longrightarrow> cursor < fin \<Longrightarrow>
     (\<exists>c. cover_walk hole chk fin vs cursor = Inr c \<and> fin \<le> c) \<longleftrightarrow>
     (\<forall>va. cursor \<le> va \<longrightarrow> va < fin \<longrightarrow> (\<exists>v\<in>set vs. inside v va \<and> chk v = None))"
proof (induction vs arbitrary: cursor)
  case Nil
  then show ?case by auto
next
  case (Cons v vs)
  have seq: "in_sequence vs" "v_start v < v_end v" "\<And>w. w \<in> set vs \<Longrightarrow> v_end v \<le> v_start w"
    using Cons.prems(1) by (auto simp: in_sequence_def)
  note IH = Cons.IH [OF seq(1)]
  consider "v_end v \<le> cursor" | "cursor < v_start v" | "v_start v \<le> cursor" "cursor < v_end v" by linarith
  then show ?case
  proof cases
    case 1
    then have "\<not> inside v va" if "cursor \<le> va" for va using that by (simp add: inside_def)
    then show ?thesis using 1 IH [of cursor] Cons.prems(2,3) by auto
  next
    case 2
    then have "\<not> inside w cursor" if "w \<in> set (v # vs)" for w using that seq by (force simp: inside_def)
    then show ?thesis using 2 seq(2) Cons.prems(3) by (auto intro!: exI [of _ cursor])
  next
    case 3
    have only: "\<not> inside w va" if "w \<in> set vs" "va < v_end v" for w va using that seq(3) by (force simp: inside_def)
    show ?thesis
    proof (cases "chk v")
      case (Some err)
      then show ?thesis using 3 only Cons.prems(3) by (auto intro!: exI [of _ cursor])
    next
      case None
      have here: "inside v va" if "cursor \<le> va" "va < v_end v" for va using that 3 by (simp add: inside_def)
      show ?thesis
      proof (cases "fin \<le> v_end v")
        case True
        have "\<exists>w\<in>set (v # vs). inside w va \<and> chk w = None" if "cursor \<le> va" "va < fin" for va
          using here [of va] that True None by auto
        then show ?thesis using 3 None True by simp
      next
        case False
        have "(\<forall>va. cursor \<le> va \<longrightarrow> va < fin \<longrightarrow> (\<exists>w\<in>set (v # vs). inside w va \<and> chk w = None)) \<longleftrightarrow>
            (\<forall>va. v_end v \<le> va \<longrightarrow> va < fin \<longrightarrow> (\<exists>w\<in>set vs. inside w va \<and> chk w = None))" (is "?L \<longleftrightarrow> ?R")
        proof
          assume L: ?L
          show ?R
          proof (intro allI impI)
            fix va assume va: "v_end v \<le> va" "va < fin"
            then have "\<not> inside v va" "cursor \<le> va" using 3 by (auto simp: inside_def)
            then show "\<exists>w\<in>set vs. inside w va \<and> chk w = None" using L va by auto
          qed
        next
          assume R: ?R
          show ?L using R here None by (metis list.set_intros not_less)
        qed
        then show ?thesis using 3 None False IH [of "v_end v"] Cons.prems(2) by simp
      qed
    qed
  qed
qed

end
