(* ===== verification/Vma_Spec.thy ===== *)
theory Vma_Spec
  imports Vma_Updates
begin

text \<open>
  The range operations of the tree against their specification on the view: what each writes, when it
  fails, and that it keeps the invariant and the hook accounting.
\<close>

section \<open>The tree as a sequence of areas\<close>

lemma entry_iff: "om_wf m \<Longrightarrow> (k, v) \<in> set m \<longleftrightarrow> map_of m k = Some v"
  by (drule om_wf_distinct) simp

lemma tree_ok_iff:
  "tree_ok t \<longleftrightarrow> om_wf (vmap t) \<and> list_all (\<lambda>e. area_ok (fst e) (snd e)) (vmap t) \<and> in_sequence (map snd (vmap t))"
proof -
  have S: "sorted_wrt (\<lambda>e e'. v_end (snd e) \<le> v_start (snd e')) (vmap t)" if w: "om_wf (vmap t)" "map_ok (map_of (vmap t))"
  proof (rule sorted_wrt_mono_rel [of _ "\<lambda>e e'. fst e < fst e'"])
    fix e e' assume e: "e \<in> set (vmap t)" "e' \<in> set (vmap t)" "fst e < fst e'"
    then have "map_of (vmap t) (fst e) = Some (snd e)" "map_of (vmap t) (fst e') = Some (snd e')"
      using entry_iff [OF w(1)] by (metis prod.collapse)+
    then show "v_end (snd e) \<le> v_start (snd e')" using map_okD(4) [OF w(2)] map_okD(1) [OF w(2)] e(3) by metis
  qed (use w(1) in \<open>simp add: om_wf_def sorted_wrt_map\<close>)
  have A: "list_all (\<lambda>e. area_ok (fst e) (snd e)) (vmap t)" if w: "om_wf (vmap t)" "map_ok (map_of (vmap t))"
    using w(2) entry_iff [OF w(1)] by (auto simp: list_all_iff map_ok_def)
  have B: "map_ok (map_of (vmap t))" if w: "om_wf (vmap t)" "list_all (\<lambda>e. area_ok (fst e) (snd e)) (vmap t)" "in_sequence (map snd (vmap t))"
    unfolding map_ok_def
  proof (intro conjI allI impI)
    fix k v assume "map_of (vmap t) k = Some v"
    then show "area_ok k v" using w(2) entry_iff [OF w(1)] by (fastforce simp: list_all_iff)
  next
    fix k v k' v' assume k: "map_of (vmap t) k = Some v" "map_of (vmap t) k' = Some v'" "k < k'"
    obtain i j where ij: "i < length (vmap t)" "vmap t ! i = (k, v)" "j < length (vmap t)" "vmap t ! j = (k', v')"
      using k(1,2) entry_iff [OF w(1)] by (metis in_set_conv_nth)
    have "\<not> j \<le> i"
    proof
      assume "j \<le> i"
      have "sorted_wrt (\<lambda>e e'. fst e < fst e') (vmap t)" using w(1) by (simp add: om_wf_def sorted_wrt_map)
      then have "j < i \<Longrightarrow> fst (vmap t ! j) < fst (vmap t ! i)" using ij(1) by (simp add: sorted_wrt_iff_nth_less)
      then have "j = i \<or> fst (vmap t ! j) < fst (vmap t ! i)" using \<open>j \<le> i\<close> by linarith
      then show False using ij k(3) by auto
    qed
    moreover have "sorted_wrt (\<lambda>e e'. v_end (snd e) \<le> v_start (snd e')) (vmap t)" using w(3) by (simp add: in_sequence_def sorted_wrt_map)
    then have "i < j \<Longrightarrow> v_end (snd (vmap t ! i)) \<le> v_start (snd (vmap t ! j))" using ij(3) by (simp add: sorted_wrt_iff_nth_less)
    ultimately have "v_end v \<le> v_start v'" using ij by (simp add: not_le)
    moreover have "v_start v' = k'" using w(2) ij nth_mem [OF ij(3)] by (auto simp: list_all_iff area_ok_def)
    ultimately show "v_end v \<le> k'" by simp
  qed
  have "in_sequence (map snd (vmap t))" if w: "om_wf (vmap t)" "map_ok (map_of (vmap t))"
    using S [OF w] A [OF w] by (auto simp: in_sequence_def sorted_wrt_map list_all_iff area_ok_def)
  then show ?thesis using A B by (auto simp: tree_ok_def)
qed

lemma tree_sequence:
  assumes "tree_ok t"
  shows "in_sequence (map snd (om_range_to (vmap t) fin))"
    and "v \<in> set (map snd (om_range_to (vmap t) fin)) \<longleftrightarrow> (\<exists>k. map_of (vmap t) k = Some v \<and> v_start v < fin)"
proof -
  have wf: "om_wf (vmap t)" "in_sequence (map snd (vmap t))" and mo: "map_ok (map_of (vmap t))" using assms tree_ok_iff [of t] by (auto simp: tree_ok_def)
  show "in_sequence (map snd (om_range_to (vmap t) fin))"
    using wf(2) by (auto simp: in_sequence_def om_range_to_def sorted_wrt_map intro!: sorted_wrt_filter)
  show "v \<in> set (map snd (om_range_to (vmap t) fin)) \<longleftrightarrow> (\<exists>k. map_of (vmap t) k = Some v \<and> v_start v < fin)"
    using entry_iff [OF wf(1)] map_okD(1) [OF mo] by (force simp: om_range_to_def)
qed

definition covered :: "vma_tree \<Rightarrow> u64 \<Rightarrow> u64 \<Rightarrow> (attr \<Rightarrow> bool) \<Rightarrow> bool" where
  "covered t start fin P \<longleftrightarrow> (\<forall>va. start \<le> va \<longrightarrow> va < fin \<longrightarrow> (\<exists>a. view t va = Some a \<and> P a))"

lemma check_cover_iff:
  assumes ok: "tree_ok t" and lt: "start < fin" and chk: "\<And>v va. chk v = None \<longleftrightarrow> P (attr_at v va)"
  shows "check_cover hole chk t start fin = Inr () \<longleftrightarrow> covered t start fin P"
proof -
  let ?vs = "map snd (om_range_to (vmap t) fin)"
  have "check_cover hole chk t start fin = Inr () \<longleftrightarrow> (\<exists>c. cover_walk hole chk fin ?vs start = Inr c \<and> fin \<le> c)"
    by (auto simp: check_cover_def split: sum.splits)
  also have "\<dots> \<longleftrightarrow> (\<forall>va. start \<le> va \<longrightarrow> va < fin \<longrightarrow> (\<exists>v\<in>set ?vs. inside v va \<and> chk v = None))"
    using cover_walk_iff [OF tree_sequence(1) [OF ok] _ lt] tree_sequence(2) [OF ok] by blast
  also have "\<dots> \<longleftrightarrow> covered t start fin P"
  proof -
    have "(\<exists>v\<in>set ?vs. inside v va \<and> chk v = None) \<longleftrightarrow> (\<exists>a. view t va = Some a \<and> P a)" if "va < fin" for va
      unfolding Bex_def tree_sequence(2) [OF ok] view_Some [OF ok] using chk that by (auto simp: inside_def intro: order.strict_trans1)
    then show ?thesis by (simp add: covered_def)
  qed
  finally show ?thesis .
qed

definition cuts_fine :: "vma_tree \<Rightarrow> u64 \<Rightarrow> u64 \<Rightarrow> bool" where
  "cuts_fine t start fin \<longleftrightarrow> list_all (\<lambda>e. cut_ok (snd e) start fin) (vmap t)"

lemma cuts_fineD: "cuts_fine t start fin \<Longrightarrow> map_of (vmap t) k = Some v \<Longrightarrow> cut_ok v start fin"
  by (drule map_of_SomeD) (force simp: cuts_fine_def list_all_iff)

definition range_update :: "u64 \<Rightarrow> u64 \<Rightarrow> (attr \<Rightarrow> attr) \<Rightarrow> (u64 \<Rightarrow> attr option) \<Rightarrow> u64 \<Rightarrow> attr option" where
  "range_update start fin g view0 va = (if start \<le> va \<and> va < fin then map_option g (view0 va) else view0 va)"

lemma range_update_bind: "(\<lambda>va. if start \<le> va \<and> va < fin then V va \<bind> (\<lambda>a. Some (g a)) else V va) = range_update start fin g V"
  by (auto simp: fun_eq_iff range_update_def map_option_case split: option.splits)

definition sound :: "vma_tree \<Rightarrow> bool" where "sound t \<longleftrightarrow> tree_ok t \<and> owed t []"

lemma raw_key: "fin < USER_VA_END \<Longrightarrow> raw_end_key fin = Some fin"
  by (simp add: raw_end_key_def uva_new_def)


section \<open>The operations\<close>

lemma walk_strict: "walk False step t ks = Some t' \<Longrightarrow> walk True step t ks = Some t'"
  by (induction ks arbitrary: t) (auto split: option.splits prod.splits simp: bind_eq_Some_conv)

lemma protect_ok:
  assumes t: "sound t" and e: "fin < USER_VA_END" and cut: "cuts_fine t start fin"
  shows "\<exists>t' r. mprotect_range_with_pkey t start fin p key = Some (t', r) \<and> sound t' \<and>
    (r = Inr () \<longleftrightarrow> start < fin \<and> covered t start fin (\<lambda>a. fl_contains (at_may a) p)) \<and>
    (if r = Inr () then view t' = range_update start fin (attr_prot p key) (view t) else t' = t)"
proof (cases "start < fin")
  case False
  then show ?thesis using t by (simp add: mprotect_range_with_pkey_def)
next
  case True
  let ?chk = "\<lambda>v. if \<not> fl_contains (may_prot v) p then Some Access else None"
  have ok: "tree_ok t" "owed t []" using t by (auto simp: sound_def)
  have c: "check_cover Inval ?chk t start fin = Inr () \<longleftrightarrow> covered t start fin (\<lambda>a. fl_contains (at_may a) p)"
    by (rule check_cover_iff [OF ok(1) True]) (simp add: attr_at_def)
  obtain t' where t': "walk True (merge_step (set_prot p key) start fin) t (overlap_keys t start fin) = Some t'" "tree_ok t'"
      "view t' = range_update start fin (attr_prot p key) (view t)" "owed t' []"
    using protect.walk_ok [OF ok(1) True raw_key [OF e], where skip = True] cuts_fineD [OF cut] ok(2) unfolding range_update_bind by blast
  show ?thesis
  proof (cases "check_cover Inval ?chk t start fin")
    case (Inl err)
    then show ?thesis using True t c by (simp add: mprotect_range_with_pkey_def)
  next
    case (Inr u)
    then show ?thesis using True c t' by (simp add: mprotect_range_with_pkey_def mprotect_walk sound_def)
  qed
qed

lemma name_ok:
  assumes t: "sound t" and e: "fin < USER_VA_END" and cut: "cuts_fine t start fin" and s: "set_anon_name_range t start fin nm = Some (t', r)"
  shows "sound t' \<and> (r = Inr () \<longleftrightarrow> start < fin \<and> covered t start fin (\<lambda>a. at_backing a = Anonymous)) \<and>
    (if r = Inr () then view t' = range_update start fin (attr_name nm) (view t) else t' = t)"
proof (cases "start < fin")
  case False
  then show ?thesis using t s by (auto simp: set_anon_name_range_def)
next
  case True
  let ?chk = "\<lambda>v. if backing v \<noteq> Anonymous then Some Access else None"
  have ok: "tree_ok t" "owed t []" using t by (auto simp: sound_def)
  have anon: "backing_at b x = Anonymous \<longleftrightarrow> b = Anonymous" for b x by (cases b) auto
  have c: "check_cover NoMem ?chk t start fin = Inr () \<longleftrightarrow> covered t start fin (\<lambda>a. at_backing a = Anonymous)"
    by (rule check_cover_iff [OF ok(1) True]) (simp add: attr_at_def anon)
  obtain t1 where t1: "walk True (merge_step (\<lambda>v. v\<lparr>anon_name := nm\<rparr>) start fin) t (overlap_keys t start fin) = Some t1" "tree_ok t1"
      "view t1 = range_update start fin (attr_name nm) (view t)" "owed t1 []"
    using naming.walk_ok [OF ok(1) True raw_key [OF e], where skip = True] cuts_fineD [OF cut] ok(2) unfolding range_update_bind by blast
  show ?thesis
  proof (cases "check_cover NoMem ?chk t start fin")
    case (Inl err)
    then show ?thesis using True t c s by (auto simp: set_anon_name_range_def)
  next
    case (Inr u)
    then show ?thesis
      using True c t1 s walk_strict [of "merge_step (\<lambda>v. v\<lparr>anon_name := nm\<rparr>) start fin" t "overlap_keys t start fin"]
      by (auto simp: set_anon_name_range_def expect_walk sound_def bind_eq_Some_conv)
  qed
qed

lemma uffd_ok:
  assumes t: "sound t" and e: "fin < USER_VA_END" and cut: "cuts_fine t start fin" and s: "set_uffd_range t start fin ctx modes = Some t'"
  shows "sound t' \<and> view t' = range_update start fin (attr_uffd ctx modes) (view t)"
proof (cases "start < fin")
  case False
  then show ?thesis using t s by (auto simp: set_uffd_range_def range_update_def fun_eq_iff)
next
  case True
  have ok: "tree_ok t" "owed t []" using t by (auto simp: sound_def)
  obtain t1 where t1: "walk True (merge_step (set_uffd ctx modes) start fin) t (overlap_keys t start fin) = Some t1" "tree_ok t1"
      "view t1 = range_update start fin (attr_uffd ctx modes) (view t)" "owed t1 []"
    using userfault.walk_ok [OF ok(1) True raw_key [OF e], where skip = True] cuts_fineD [OF cut] ok(2) unfolding range_update_bind by blast
  then show ?thesis using True s walk_strict [of "merge_step (set_uffd ctx modes) start fin" t "overlap_keys t start fin"]
    by (auto simp: set_uffd_range_def expect_walk sound_def)
qed

text \<open>\<open>update_flags_range\<close> returns when the update changes every area it meets; whenever it returns it has written the range.\<close>

lemma flags_ok:
  assumes t: "sound t" and e: "fin < USER_VA_END" and cut: "cuts_fine t start fin"
    and sec: "S AND VM_SECRETMEM = 0" "C AND VM_SECRETMEM = 0"
  shows "update_flags_range t start fin S C = Some t' \<Longrightarrow> sound t' \<and> view t' = range_update start fin (attr_flags S C) (view t)"
    and "list_all (\<lambda>e. overlaps (snd e) start fin \<longrightarrow> new_flags S C (v_flags (snd e)) \<noteq> v_flags (snd e)) (vmap t) \<Longrightarrow>
      \<exists>t'. update_flags_range t start fin S C = Some t'"
proof -
  have ok: "tree_ok t" "owed t []" using t by (auto simp: sound_def)
  note W = range_walk.walk_ok [OF flags_walk [OF sec] ok(1)]
  show "sound t' \<and> view t' = range_update start fin (attr_flags S C) (view t)" if s: "update_flags_range t start fin S C = Some t'"
  proof (cases "start < fin")
    case False
    then show ?thesis using t s by (auto simp: update_flags_range_def range_update_def fun_eq_iff)
  next
    case True
    obtain t1 where t1: "walk True (merge_step (set_flags S C) start fin) t (overlap_keys t start fin) = Some t1" "tree_ok t1"
        "view t1 = range_update start fin (attr_flags S C) (view t)" "owed t1 []"
      using W [OF True raw_key [OF e], where skip = True] cuts_fineD [OF cut] ok(2) unfolding range_update_bind by blast
    then show ?thesis using True s walk_strict [of "merge_step (set_flags S C) start fin" t "overlap_keys t start fin"]
      by (auto simp: update_flags_range_def expect_walk sound_def)
  qed
  assume ch: "list_all (\<lambda>e. overlaps (snd e) start fin \<longrightarrow> new_flags S C (v_flags (snd e)) \<noteq> v_flags (snd e)) (vmap t)"
  have nf: "\<not> fixed (\<lambda>a. Some (attr_flags S C a)) v" if v: "map_of (vmap t) k = Some v" "overlaps v start fin" for k v
  proof -
    have "new_flags S C (v_flags v) \<noteq> v_flags v" using ch v(2) map_of_SomeD [OF v(1)] by (auto simp: list_all_iff)
    then have "at_flags (attr_flags S C (attr_at v 0)) \<noteq> at_flags (attr_at v 0)" by (simp add: attr_flags_def attr_at_def)
    then show ?thesis unfolding fixed_def by (metis option.inject)
  qed
  show "\<exists>t'. update_flags_range t start fin S C = Some t'"
  proof (cases "start < fin")
    case False
    then show ?thesis by (simp add: update_flags_range_def)
  next
    case True
    have "cut_ok v start fin \<and> (False \<or> \<not> True \<or> \<not> fixed (\<lambda>a. Some (attr_flags S C a)) v)"
      if "map_of (vmap t) k = Some v" "overlaps v start fin" for k v using cuts_fineD [OF cut that(1)] nf that by blast
    then show ?thesis using W [OF True raw_key [OF e], of False] True by (auto simp: update_flags_range_def expect_walk)
  qed
qed

lemma seal_ok:
  assumes t: "sound t" and e: "fin < USER_VA_END" and cut: "cuts_fine t start fin"
  shows "\<exists>t' r. seal_range t start fin = Some (t', r) \<and> sound t' \<and> (r = Inr () \<longleftrightarrow> start < fin \<and> covered t start fin (\<lambda>_. True)) \<and>
    (if r = Inr () then view t' = range_update start fin attr_seal (view t) else t' = t)"
proof (cases "start < fin")
  case False
  then show ?thesis using t by (simp add: seal_range_def)
next
  case True
  have ok: "tree_ok t" "owed t []" using t by (auto simp: sound_def)
  have c: "check_cover Inval (\<lambda>_. None) t start fin = Inr () \<longleftrightarrow> covered t start fin (\<lambda>_. True)"
    by (rule check_cover_iff [OF ok(1) True]) simp
  let ?step = "plain_step (\<lambda>v. v\<lparr>v_flags := v_flags v OR VM_SEALED\<rparr>) start fin"
  obtain t' where t': "walk False ?step t (overlap_keys t start fin) = Some t'" "tree_ok t'"
      "view t' = range_update start fin attr_seal (view t)" "owed t' []"
    using sealing.walk_ok [OF ok(1) True raw_key [OF e], where skip = False] cuts_fineD [OF cut] ok(2) unfolding range_update_bind by blast
  show ?thesis
  proof (cases "check_cover Inval (\<lambda>_. None) t start fin")
    case (Inl err)
    then show ?thesis using True t c by (simp add: seal_range_def)
  next
    case (Inr u)
    then show ?thesis using True c t' by (simp add: seal_range_def seal_walk sound_def)
  qed
qed

end
