(* ===== verification/Vma_Ops.thy ===== *)
theory Vma_Ops
  imports Vma_Spec
begin

text \<open>
  Insertion, removal, stack growth, policies and the end of an address space: the remaining operations of the tree against the view.
\<close>

section \<open>Insertion\<close>

definition free_range :: "vma_tree \<Rightarrow> u64 \<Rightarrow> u64 \<Rightarrow> bool" where
  "free_range t start fin \<longleftrightarrow> (\<forall>va. start \<le> va \<longrightarrow> va < fin \<longrightarrow> view t va = None)"

text \<open>Only the area at or below the start and the next one above can overlap a range.\<close>

lemma neighbours_free:
  assumes ok: "tree_ok t" and lt: "start < fin"
  shows "\<not> (case om_floor (vmap t) start of Some (_, prev) \<Rightarrow> v_end prev > start | None \<Rightarrow> False) \<and>
    \<not> (case om_above (vmap t) start of Some (_, nxt) \<Rightarrow> v_start nxt < fin | None \<Rightarrow> False) \<longleftrightarrow> free_range t start fin"
    (is "\<not> ?F \<and> \<not> ?A \<longleftrightarrow> _")
proof -
  have wf: "om_wf (vmap t)" and mo: "map_ok (map_of (vmap t))" using ok by (auto simp: tree_ok_def)
  have F: "\<not> free_range t start fin" if "om_floor (vmap t) start = Some (x, prev)" "start < v_end prev" for x prev
  proof -
    have x: "map_of (vmap t) x = Some prev" "x \<le> start" using bt.flr_law [OF wf that(1)] by auto
    then have "inside prev start" using map_okD(1) [OF mo x(1)] that(2) by (simp add: inside_def)
    then show ?thesis using view_at [OF ok x(1)] lt unfolding free_range_def by (metis option.distinct(1) order_refl)
  qed
  have A: "\<not> free_range t start fin" if "om_above (vmap t) start = Some (x, nxt)" "v_start nxt < fin" for x nxt
  proof -
    have x: "map_of (vmap t) x = Some nxt" "start < x" using bt.above_law [OF wf that(1)] by auto
    then have "inside nxt (v_start nxt)" "start \<le> v_start nxt" using map_okD(1,2) [OF mo x(1)] by (auto simp: inside_def)
    then show ?thesis using view_at [OF ok x(1)] that(2) unfolding free_range_def by (metis option.distinct(1))
  qed
  have "\<not> inside w va" if n: "\<not> ?F" "\<not> ?A" and va: "start \<le> va" "va < fin" and w: "map_of (vmap t) x = Some w" for x w va
  proof (cases "x \<le> start")
    case True
    then obtain y prev where y: "om_floor (vmap t) start = Some (y, prev)" using bt.flr_none [OF wf _ w, of start] by (cases "om_floor (vmap t) start") auto
    have "map_of (vmap t) y = Some prev" "x \<le> y" "y \<le> start" using bt.flr_law [OF wf y] w True by blast+
    then have "v_end w \<le> start" using n(1) y map_okD(4) [OF mo w, of y prev] w by (cases "x = y") auto
    then show ?thesis using va by (auto simp: inside_def)
  next
    case False
    then obtain y nxt where y: "om_above (vmap t) start = Some (y, nxt)" using bt.above_none [OF wf _ w, of start] by (cases "om_above (vmap t) start") auto
    have "map_of (vmap t) y = Some nxt" "y \<le> x" using bt.above_law [OF wf y] w False by auto
    then have "fin \<le> x" using n(2) y map_okD(1) [OF mo, of y nxt] by simp
    then show ?thesis using va map_okD(1) [OF mo w] by (auto simp: inside_def)
  qed
  then have "free_range t start fin" if "\<not> ?F" "\<not> ?A" using that view_None [OF ok] by (auto simp: free_range_def)
  then show ?thesis using F A by (auto split: option.splits)
qed

lemma insert_ok:
  assumes t: "sound t" and v: "v_end v < USER_VA_END"
  shows "\<exists>t' r. tree_insert t v = Some (t', r) \<and> sound t' \<and> (r = Inr () \<longleftrightarrow> v_start v < v_end v \<and> free_range t (v_start v) (v_end v)) \<and>
    (if r = Inr () then view t' = (\<lambda>va. if inside v va then Some (attr_at v va) else view t va) else t' = t)"
proof (cases "v_start v < v_end v")
  case False
  then show ?thesis using t by (simp add: tree_insert_def)
next
  case True
  have ok: "tree_ok t" "owed t []" using t by (auto simp: sound_def)
  note N = neighbours_free [OF ok(1) True]
  show ?thesis
  proof (cases "free_range t (v_start v) (v_end v)")
    case False
    then show ?thesis using t N by (auto simp: tree_insert_def)
  next
    case fr: True
    define t1 where "t1 = map_put t (v_start v) v"
    have t1: "vmap t1 = om_insert (v_start v) v (vmap t)" by (simp add: t1_def map_put_def Let_def)
    have "area_ok (v_start v) v" using True v by (simp add: area_ok_def)
    note I = insert_view [OF ok(1) this _ t1]
    have I': "tree_ok t1" "view t1 = (\<lambda>va. if inside v va then Some (attr_at v va) else view t va)"
        "map_of (vmap t1) = (map_of (vmap t))(v_start v \<mapsto> v)" "map_of (vmap t) (v_start v) = None"
      using I fr by (simp_all add: free_range_def inside_def)
    have "owed t1 []" using owed_put [OF ok(2) _ I'(4)] ok(1) by (simp add: t1_def tree_ok_def)
    moreover have "map_of (vmap t1) (v_start v) = Some v" using I'(3) by simp
    ultimately obtain t' where "merge_around t1 (v_start v) = Some t'" "tree_ok t'" "view t' = view t1" "owed t' []"
      using merge_around_ok [OF I'(1)] by blast
    then show ?thesis using N fr True I'(2) by (simp add: tree_insert_def t1_def sound_def)
  qed
qed

section \<open>Removal\<close>

definition middle :: "u64 \<Rightarrow> u64 \<Rightarrow> vma \<Rightarrow> vma" where
  "middle start fin v = clone_subrange v (max start (v_start v)) (min fin (v_end v))"

lemma remove_loop_walk:
  assumes lt: "start < fin"
  shows "tree_ok t \<Longrightarrow> sorted_wrt (<) ks \<Longrightarrow>
    (\<And>k. k \<in> set ks \<Longrightarrow> \<exists>v. map_of (vmap t) k = Some v \<and> overlaps v start fin \<and> cut_ok v start fin) \<Longrightarrow>
    remove_loop t start fin ks acc =
      map_option (\<lambda>t'. (t', acc @ map (\<lambda>k. middle start fin (the (map_of (vmap t) k))) ks)) (walk False (cut_step start fin) t ks)"
proof (induction ks arbitrary: t acc)
  case Nil
  then show ?case by simp
next
  case (Cons k ks)
  obtain v where v: "map_of (vmap t) k = Some v" "overlaps v start fin" "cut_ok v start fin" using Cons.prems(3) [of k] by auto
  have mo: "map_ok (map_of (vmap t))" using Cons.prems(1) by (simp add: tree_ok_def)
  obtain t1 where t1: "cut_out (t\<lparr>vmap := om_remove k (vmap t)\<rparr>) v start fin = Some (t1, middle start fin v)" "tree_ok t1"
      "\<And>k'. k' \<notin> {v_start v..<v_end v} \<Longrightarrow> map_of (vmap t1) k' = map_of (vmap t) k'"
    using cut_out_ok [OF Cons.prems(1) v(1,2) lt v(3)] unfolding middle_def by blast
  have same: "map_of (vmap t1) x = map_of (vmap t) x" if x: "x \<in> set ks" for x
  proof -
    obtain w where w: "map_of (vmap t) x = Some w" using Cons.prems(3) [of x] x by auto
    have "v_end v \<le> x" using map_okD(4) [OF mo v(1) w] Cons.prems(2) x by simp
    then show ?thesis using t1(3) [of x] by simp
  qed
  have "remove_loop t1 start fin ks (acc @ [middle start fin v]) =
      map_option (\<lambda>t'. (t', (acc @ [middle start fin v]) @ map (\<lambda>k. middle start fin (the (map_of (vmap t1) k))) ks)) (walk False (cut_step start fin) t1 ks)"
    using Cons.IH [OF t1(2)] Cons.prems(2,3) same by simp
  moreover have "map (\<lambda>k. middle start fin (the (map_of (vmap t1) k))) ks = map (\<lambda>k. middle start fin (the (map_of (vmap t) k))) ks"
    using same by simp
  moreover have "cut_step start fin (t\<lparr>vmap := om_remove k (vmap t)\<rparr>) v = Some t1" using t1(1) by (simp add: cut_step_def)
  ultimately show ?case using t1(1) v(1) by (simp add: map_take_def)
qed

lemma remove_ok:
  assumes t: "sound t" and e: "fin \<le> USER_VA_END" and cut: "cuts_fine t start fin"
  shows "\<exists>t' rs. remove_range_raw_end t start fin = Some (t', rs) \<and> sound t' \<and>
    view t' = (\<lambda>va. if start \<le> va \<and> va < fin then None else view t va) \<and>
    (\<forall>va a. (\<exists>m\<in>set rs. inside m va \<and> attr_at m va = a) \<longleftrightarrow> start \<le> va \<and> va < fin \<and> view t va = Some a)"
proof (cases "start < fin")
  case False
  then show ?thesis using t by (auto simp: remove_range_raw_end_def fun_eq_iff)
next
  case True
  have ok: "tree_ok t" "owed t []" using t by (auto simp: sound_def)
  have wf: "om_wf (vmap t)" and mo: "map_ok (map_of (vmap t))" using ok by (auto simp: tree_ok_def)
  obtain ek where ek: "raw_end_key fin = Some ek"
    using e by (cases "fin = USER_VA_END") (auto simp: raw_end_key_def uva_new_def USER_VA_END_def)
  have below: "k < ek \<longleftrightarrow> k < fin" if "map_of (vmap t) k = Some v" for k v
    using map_okD [OF mo that] ek by (auto simp: raw_end_key_def uva_new_def split: if_splits)
  have keys: "k \<in> set (overlap_keys t start ek) \<longleftrightarrow> (\<exists>v. map_of (vmap t) k = Some v \<and> overlaps v start fin)" for k
    using overlap_keys_iff [OF wf, of k start ek] below map_okD(1) [OF mo] by (auto simp: overlaps_def)
  let ?ks = "overlap_keys t start ek" and ?rs = "map (\<lambda>k. middle start fin (the (map_of (vmap t) k))) (overlap_keys t start ek)"
  obtain t' where t': "walk False (cut_step start fin) t ?ks = Some t'" "tree_ok t'" "owed t' []"
      "view t' = (\<lambda>va. if start \<le> va \<and> va < fin then view t va \<bind> (\<lambda>a. None) else view t va)"
    using cutting.walk_ok [OF ok(1) True ek, where skip = False] cuts_fineD [OF cut] ok(2) by blast
  have "remove_loop t start fin ?ks [] = Some (t', ?rs)"
    using remove_loop_walk [OF True ok(1) overlap_keys_sorted [OF wf], of start ek "[]"] keys cuts_fineD [OF cut] t'(1) by auto
  then have "remove_range_raw_end t start fin = Some (t', ?rs)" using True ek by (simp add: remove_range_raw_end_def)
  moreover have "view t' = (\<lambda>va. if start \<le> va \<and> va < fin then None else view t va)" using t'(4) by (auto simp: fun_eq_iff split: Option.bind_splits)
  moreover have "(\<exists>m\<in>set ?rs. inside m va \<and> attr_at m va = a) \<longleftrightarrow> start \<le> va \<and> va < fin \<and> view t va = Some a" for va a
  proof -
    have in_mid: "inside (middle start fin v) va \<longleftrightarrow> inside v va \<and> start \<le> va \<and> va < fin" for v
      by (auto simp: inside_def middle_def)
    have at_mid: "attr_at (middle start fin v) va = attr_at v va" if "map_of (vmap t) k = Some v" "overlaps v start fin" "inside v va" "start \<le> va" for k v
      unfolding middle_def using clone_attr_mid [OF mo that(1,2) cuts_fineD [OF cut that(1)] that(4,3)] .
    have ov: "overlaps v start fin" if "inside v va" "start \<le> va" "va < fin" for v using that by (auto simp: overlaps_def inside_def)
    have "(\<exists>m\<in>set ?rs. inside m va \<and> attr_at m va = a) \<longleftrightarrow>
        (\<exists>k v. map_of (vmap t) k = Some v \<and> overlaps v start fin \<and> inside (middle start fin v) va \<and> attr_at (middle start fin v) va = a)"
      using keys by force
    also have "\<dots> \<longleftrightarrow> start \<le> va \<and> va < fin \<and> (\<exists>k v. map_of (vmap t) k = Some v \<and> inside v va \<and> a = attr_at v va)"
      unfolding in_mid using at_mid ov by metis
    finally show ?thesis unfolding view_Some [OF ok(1)] .
  qed
  ultimately show ?thesis using t' by (auto simp: sound_def)
qed


section \<open>Stack growth\<close>

lemma om_reinsert: "om_wf m \<Longrightarrow> map_of m k = Some v \<Longrightarrow> om_insert k v (om_remove k m) = m"
proof (induction k m rule: om_remove.induct)
  case (2 k x y m)
  have first: "om_insert x y m = (x, y) # m" if "\<forall>e\<in>set m. x < fst e" using that by (cases m) auto
  have "x < k" if "map_of m k = Some v" using 2(2) map_of_SomeD [OF that] by auto
  then show ?case using 2 first by (cases "k = x") auto
qed simp

lemma below_free:
  assumes ok: "tree_ok t" and lt: "new < cur"
  shows "\<not> (case om_below (vmap t) cur of Some (_, lower) \<Rightarrow> v_end lower > new | None \<Rightarrow> False) \<longleftrightarrow> free_range t new cur" (is "\<not> ?B \<longleftrightarrow> _")
proof -
  have wf: "om_wf (vmap t)" and mo: "map_ok (map_of (vmap t))" using ok by (auto simp: tree_ok_def)
  have "\<not> free_range t new cur" if b: "om_below (vmap t) cur = Some (x, w)" "new < v_end w" for x w
  proof -
    have x: "map_of (vmap t) x = Some w" "x < cur" using bt.below_law [OF wf b(1)] by auto
    have "inside w (max new x)" using map_okD(1,2) [OF mo x(1)] b(2) by (auto simp: inside_def)
    then have "view t (max new x) \<noteq> None" using view_at [OF ok x(1)] by simp
    then show ?thesis using x(2) lt unfolding free_range_def by (metis max.cobounded1 max_less_iff_conj)
  qed
  moreover have "\<not> inside w va" if n: "\<not> ?B" and va: "new \<le> va" "va < cur" and w: "map_of (vmap t) x = Some w" for x w va
  proof
    assume i: "inside w va"
    then have "x < cur" using va map_okD(1) [OF mo w] by (simp add: inside_def)
    then obtain y l where y: "om_below (vmap t) cur = Some (y, l)" using bt.below_none [OF wf _ w, of cur] by (cases "om_below (vmap t) cur") auto
    have l: "map_of (vmap t) y = Some l" "x \<le> y" "v_end l \<le> new" using bt.below_law [OF wf y] w \<open>x < cur\<close> n y by auto
    then have "v_end w \<le> new" using map_okD(4) [OF mo w l(1)] map_okD(2) [OF mo l(1)] w by (cases "x = y") auto
    then show False using i va by (simp add: inside_def)
  qed
  ultimately show ?thesis using view_None [OF ok] unfolding free_range_def by (auto split: option.splits)
qed

lemma grow_ok:
  assumes t: "sound t" and x: "extend_growsdown_start t cur new = (t', r)"
  shows "sound t' \<and> (r = Inr () \<longleftrightarrow> new < cur \<and> page_offset new = 0 \<and> free_range t new cur \<and>
      (\<exists>v. map_of (vmap t) cur = Some v \<and> fl_contains (v_flags v) VM_GROWSDOWN)) \<and>
    (if r = Inr () then \<forall>v. map_of (vmap t) cur = Some v \<longrightarrow>
         view t' = (\<lambda>va. if new \<le> va \<and> va < v_end v then Some (attr_at (v\<lparr>v_start := new\<rparr>) va) else view t va) else t' = t)"
proof -
  have ok: "tree_ok t" "owed t []" using t by (auto simp: sound_def)
  have wf: "om_wf (vmap t)" and mo: "map_ok (map_of (vmap t))" using ok by (auto simp: tree_ok_def)
  note B = below_free [OF ok(1), of new cur]
  show ?thesis
  proof (cases "new < cur \<and> page_offset new = 0 \<and> free_range t new cur \<and> (\<exists>v. map_of (vmap t) cur = Some v \<and> fl_contains (v_flags v) VM_GROWSDOWN)")
    case False
    then have "t' = t \<and> r = Inl Inval"
      using x B om_reinsert [OF wf] by (auto simp: extend_growsdown_start_def map_take_def map_reinsert_def split: if_splits option.splits)
    then show ?thesis using False t by auto
  next
    case True
    then obtain v where v: "map_of (vmap t) cur = Some v" "fl_contains (v_flags v) VM_GROWSDOWN" by blast
    let ?v = "v\<lparr>v_start := new\<rparr>"
    define t0 where "t0 = t\<lparr>vmap := om_remove cur (vmap t)\<rparr>"
    have r: "r = Inr ()" and t'': "t' = t0\<lparr>vmap := om_insert new ?v (vmap t0)\<rparr>"
      using x True B v by (auto simp: extend_growsdown_start_def map_take_def map_reinsert_def t0_def split: option.splits)
    have t0: "vmap t0 = om_remove cur (vmap t)" by (simp add: t0_def)
    have t': "vmap t' = om_insert new ?v (vmap t0)" using t'' by simp
    note R = remove_view [OF ok(1) v(1) t0]
    have a: "area_ok new ?v" using map_okD [OF mo v(1)] True by (simp add: area_ok_def)
    have "view t0 va = None" if "inside ?v va" for va
      using that True R(2) map_okD(1) [OF mo v(1)] by (cases "va < cur") (auto simp: free_range_def inside_def)
    note I = insert_view [OF R(1) a this t']
    have "view t' = (\<lambda>va. if new \<le> va \<and> va < v_end v then Some (attr_at ?v va) else view t va)"
      using I(2) R(2) map_okD(1) [OF mo v(1)] True by (auto simp: inside_def fun_eq_iff)
    moreover have "owed t' []"
    proof -
      have "areas P (vmap t') = areas P (vmap t)" if "P ?v = P v" for P
        using areas_insert [of "vmap t0" new P ?v] I(4) R(1) areas_remove [OF wf v(1), of P] that t' t0 by (simp add: tree_ok_def)
      moreover have "maps_obj b ?v = maps_obj b v" "attaches b ?v = attaches b v" for b by (simp_all add: maps_obj_def attaches_def object_of_def)
      moreover have "vlog t' = vlog t" "shm_ops t' = shm_ops t" by (simp_all add: t'' t0_def)
      ultimately show ?thesis using ok(2) by (simp add: owed_def)
    qed
    ultimately show ?thesis using I(1) r True v by (auto simp: sound_def)
  qed
qed

section \<open>Policies, audit and the end of the address space\<close>

lemma policy_ok:
  assumes ok: "tree_ok t" and e: "fin < USER_VA_END" and cut: "cuts_fine t start fin"
  shows "\<exists>t'. set_policy_range t start fin pol = Some t' \<and> tree_ok t' \<and> view t' = range_update start fin (attr_policy pol) (view t)"
proof (cases "start < fin")
  case False
  then show ?thesis using ok by (auto simp: set_policy_range_def rewrite_range_def range_update_def fun_eq_iff)
next
  case True
  then show ?thesis
    using binding.walk_ok [OF ok True raw_key [OF e], where skip = False] cuts_fineD [OF cut] unfolding range_update_bind
    by (auto simp: set_policy_range_def rewrite_range_def rewrite_walk)
qed

lemma audit_sequence: "in_sequence vs \<Longrightarrow> (\<And>v. v \<in> set vs \<Longrightarrow> p \<le> v_start v) \<Longrightarrow> audit_walk vs p = Inr ()"
  by (induction vs arbitrary: p) (auto simp: in_sequence_def not_less)

lemma vma_audit_ok: "tree_ok t \<Longrightarrow> audit_no_overlap t = Inr ()"
  using audit_sequence [of "map snd (vmap t)" 0] by (simp add: tree_ok_iff audit_no_overlap_def)

lemma close_all:
  "net_open b (vlog (fold (\<lambda>e t. vma_closed t (snd e)) m t)) = net_open b (vlog t) - areas (maps_obj b) m"
  "shm_ops t \<Longrightarrow> net_shm b (vlog (fold (\<lambda>e t. vma_closed t (snd e)) m t)) = net_shm b (vlog t) - areas (attaches b) m"
  by (induction m arbitrary: t) (auto simp: areas_def closed_net one_def)

lemma fold_shm: "shm_ops (fold (\<lambda>e t. vma_closed t (snd e)) m t) = shm_ops t"
  by (induction m arbitrary: t) auto

end
