(* ===== verification/Vma_Props.thy ===== *)
theory Vma_Props
  imports Vma_Ops
begin

text \<open>
  The properties of the VMA tree: reachable trees are sound, every range operation refines its effect on the view, the
  hooks balance, and the places where the code does not do what it means to.
\<close>

section \<open>Reachable trees\<close>

inductive vm_reach :: "vma_tree \<Rightarrow> bool" where
  vr_new: "vm_reach (tree_new ops)"
| vr_insert: "vm_reach t \<Longrightarrow> v_end v < USER_VA_END \<Longrightarrow> tree_insert t v = Some (t', r) \<Longrightarrow> vm_reach t'"
| vr_remove: "vm_reach t \<Longrightarrow> fin \<le> USER_VA_END \<Longrightarrow> cuts_fine t start fin \<Longrightarrow> remove_range_raw_end t start fin = Some (t', rs) \<Longrightarrow> vm_reach t'"
| vr_protect: "vm_reach t \<Longrightarrow> fin < USER_VA_END \<Longrightarrow> cuts_fine t start fin \<Longrightarrow> mprotect_range_with_pkey t start fin p key = Some (t', r) \<Longrightarrow> vm_reach t'"
| vr_flags: "vm_reach t \<Longrightarrow> fin < USER_VA_END \<Longrightarrow> cuts_fine t start fin \<Longrightarrow> S AND VM_SECRETMEM = 0 \<Longrightarrow> C AND VM_SECRETMEM = 0 \<Longrightarrow>
    update_flags_range t start fin S C = Some t' \<Longrightarrow> vm_reach t'"
| vr_uffd: "vm_reach t \<Longrightarrow> fin < USER_VA_END \<Longrightarrow> cuts_fine t start fin \<Longrightarrow> set_uffd_range t start fin ctx modes = Some t' \<Longrightarrow> vm_reach t'"
| vr_name: "vm_reach t \<Longrightarrow> fin < USER_VA_END \<Longrightarrow> cuts_fine t start fin \<Longrightarrow> set_anon_name_range t start fin nm = Some (t', r) \<Longrightarrow> vm_reach t'"
| vr_seal: "vm_reach t \<Longrightarrow> fin < USER_VA_END \<Longrightarrow> cuts_fine t start fin \<Longrightarrow> seal_range t start fin = Some (t', r) \<Longrightarrow> vm_reach t'"
| vr_grow: "vm_reach t \<Longrightarrow> extend_growsdown_start t cur new = (t', r) \<Longrightarrow> vm_reach t'"

lemma new_sound: "sound (tree_new ops)"
  by (simp add: sound_def tree_ok_iff tree_new_def in_sequence_def owed_def areas_def net_open_def net_shm_def)

lemma reach_sound: "vm_reach t \<Longrightarrow> sound t"
proof (induction rule: vm_reach.induct)
  case (vr_new ops)
  then show ?case by (rule new_sound)
next
  case (vr_insert t v t' r)
  then show ?case using insert_ok [of t v] by auto
next
  case (vr_remove t fin start t' rs)
  then show ?case using remove_ok [of t fin start] by auto
next
  case (vr_protect t fin start p key t' r)
  then show ?case using protect_ok [of t fin start p key] by auto
next
  case (vr_flags t fin start S C t')
  then show ?case using flags_ok(1) [of t fin start S C t'] by auto
next
  case (vr_uffd t fin start ctx modes t')
  then show ?case using uffd_ok [of t fin start ctx modes t'] by auto
next
  case (vr_name t fin start nm t' r)
  then show ?case using name_ok [of t fin start nm t' r] by auto
next
  case (vr_seal t fin start t' r)
  then show ?case using seal_ok [of t fin start] by auto
next
  case (vr_grow t cur new t' r)
  then show ?case using grow_ok [of t cur new t' r] by auto
qed

section \<open>An example\<close>

definition ex_area :: "u64 \<Rightarrow> u64 \<Rightarrow> vma_flags \<Rightarrow> vma" where
  "ex_area s e fl = vma_new 1 (\<lambda>_. None) s e PROT_READ fl Anonymous"

definition ex_tree :: vma_tree where
  "ex_tree = \<lparr>vmap = [(0x1000, ex_area 0x1000 0x2000 VM_PRIVATE), (0x2000, ex_area 0x2000 0x3000 (VM_PRIVATE OR VM_DONTFORK))], vlog = [], shm_ops = False\<rparr>"

lemmas ex_defs = ex_area_def vma_new_def new_with_may_def

lemma ex_fields [simp]:
  "v_start (ex_area s e fl) = s" "v_end (ex_area s e fl) = e" "v_flags (ex_area s e fl) = fl" "backing (ex_area s e fl) = Anonymous"
  by (simp_all add: ex_defs)

lemmas tree_run = tree_insert_def map_put_def vma_opened_def object_of_def dispatch_def fl_contains_def merge_around_def try_merge_left_def
  try_merge_right_def after_left_def om_floor_def om_above_def om_below_def last_of_def mergeable_with_next_def mpol_equal_def Let_def

lemmas flag_values = VM_PRIVATE_def VM_DONTFORK_def VM_SYSVSHM_def PROT_READ_def PROT_WRITE_def PROT_EXEC_def

lemma ex_reach: "vm_reach ex_tree"
proof -
  let ?a = "ex_area 0x1000 0x2000 VM_PRIVATE" and ?b = "ex_area 0x2000 0x3000 (VM_PRIVATE OR VM_DONTFORK)"
  let ?t = "\<lparr>vmap = [(0x1000, ?a)], vlog = [], shm_ops = False\<rparr>"
  have "tree_insert (tree_new False) ?a = Some (?t, Inr ())"
    by (simp add: tree_run tree_new_def flag_values)
  then have 1: "vm_reach ?t" using vr_insert [OF vr_new, of ?a False ?t "Inr ()"] by (simp add: USER_VA_END_def)
  have "tree_insert ?t ?b = Some (ex_tree, Inr ())"
    by (simp add: tree_run ex_tree_def flag_values)
  then show ?thesis using vr_insert [OF 1, of ?b ex_tree "Inr ()"] by (simp add: USER_VA_END_def)
qed


lemma ex_fine: "cuts_fine ex_tree start fin"
  by (simp add: cuts_fine_def ex_tree_def cut_ok_def rebased_def)

section \<open>Properties\<close>







text \<open>C8: \<open>insert\<close> succeeds exactly when the new area is not empty and none of its addresses is mapped; then exactly those
  addresses have gained the attributes of the area, whatever it merged with. It never panics, and a refused
  insertion changes nothing.\<close>

theorem insert_refines:
  assumes "sound t" "v_end v < USER_VA_END"
  shows "\<exists>t' r. tree_insert t v = Some (t', r) \<and> sound t' \<and> (r = Inr () \<longleftrightarrow> v_start v < v_end v \<and> free_range t (v_start v) (v_end v)) \<and>
    (if r = Inr () then view t' = (\<lambda>va. if inside v va then Some (attr_at v va) else view t va) else t' = t)"
  by (rule insert_ok [OF assms])

theorem insert_refines_witness:
  "\<exists>t' r. tree_insert ex_tree (ex_area 0x3000 0x4000 VM_PRIVATE) = Some (t', r) \<and> sound t'"
  using insert_refines [OF reach_sound [OF ex_reach], of "ex_area 0x3000 0x4000 VM_PRIVATE"] by (auto simp: USER_VA_END_def)

text \<open>C17: a range that \<open>seal_range\<close> has sealed is found by the check that \<open>munmap\<close>, \<open>mprotect\<close> and \<open>mremap\<close> run first: any
  range that shares an address with it is refused.\<close>

theorem sealed_range_found:
  assumes t: "sound t" "fin < USER_VA_END" "cuts_fine t start fin" and s: "seal_range t start fin = Some (t', Inr ())"
    and va: "start \<le> va" "va < fin" "low \<le> va" "va < till" "till \<le> USER_VA_END"
  shows "any_sealed_raw_end t' low till"
proof -
  have t': "sound t'" "covered t start fin (\<lambda>_. True)" "view t' = range_update start fin attr_seal (view t)"
    using seal_ok [OF t] s by auto
  have ok: "tree_ok t'" "om_wf (vmap t')" and mo: "map_ok (map_of (vmap t'))" using t'(1) by (auto simp: sound_def tree_ok_def)
  obtain a where "view t' va = Some (attr_seal a)" using t'(2,3) va by (auto simp: covered_def range_update_def)
  then obtain k v where v: "map_of (vmap t') k = Some v" "inside v va" "attr_at v va = attr_seal a" using view_Some [OF ok(1)] by metis
  have fl: "fl_contains (v_flags v) VM_SEALED"
  proof -
    have "v_flags v = at_flags a OR VM_SEALED" using arg_cong [OF v(3), of at_flags] by (simp add: attr_at_def attr_seal_def)
    moreover have "(x OR y) AND y = y" for x y :: "32 word" by (rule bit_word_eqI) (auto simp: bit_simps)
    ultimately show ?thesis by (simp add: fl_contains_def)
  qed
  obtain ek where ek: "raw_end_key till = Some ek"
    using va(5) by (cases "till = USER_VA_END") (auto simp: raw_end_key_def uva_new_def USER_VA_END_def)
  have "k < ek" using map_okD [OF mo v(1)] v(2) va ek by (auto simp: raw_end_key_def uva_new_def inside_def split: if_splits)
  moreover have "(k, v) \<in> set (vmap t')" using v(1) entry_iff [OF ok(2)] by simp
  ultimately show ?thesis
    using ek fl v(2) va(3) by (force simp: any_sealed_raw_end_def list_ex_iff om_range_to_def inside_def)
qed

theorem sealed_range_found_witness: "\<exists>t'. seal_range ex_tree 0x1000 0x2000 = Some (t', Inr ()) \<and> any_sealed_raw_end t' 0 USER_VA_END"
proof -
  have e: "(0x2000 :: nat) < USER_VA_END" by (simp add: USER_VA_END_def)
  have "check_cover Inval (\<lambda>_. None) ex_tree 0x1000 0x2000 = Inr ()" by (simp add: check_cover_def ex_tree_def om_range_to_def)
  then obtain t' where "seal_range ex_tree 0x1000 0x2000 = Some (t', Inr ())"
    using seal_ok [OF reach_sound [OF ex_reach] e ex_fine [of "0x1000" "0x2000"]] by (auto simp: seal_range_def bind_eq_Some_conv)
  then show ?thesis
    using sealed_range_found [OF reach_sound [OF ex_reach] e ex_fine [of "0x1000" "0x2000"], of t' "0x1000" 0 USER_VA_END] by (auto simp: USER_VA_END_def)
qed



text \<open>C15: growing a stack succeeds exactly when the new start is a page boundary below the area, the gap is unmapped and the area
  may grow; the gap then has the attributes of the anonymous stack area, and nothing else has changed.\<close>

theorem stack_growth_refines:
  assumes t: "sound t" and v: "map_of (vmap t) cur = Some v" "backing v = Anonymous" and x: "extend_growsdown_start t cur new = (t', r)"
  shows "sound t' \<and> (r = Inr () \<longleftrightarrow> new < cur \<and> page_offset new = 0 \<and> free_range t new cur \<and> fl_contains (v_flags v) VM_GROWSDOWN) \<and>
    (if r = Inr () then view t' = (\<lambda>va. if new \<le> va \<and> va < cur then Some (attr_at v cur) else view t va) else t' = t)"
proof -
  note G = grow_ok [OF t x]
  have ok: "tree_ok t" and mo: "map_ok (map_of (vmap t))" using t by (auto simp: sound_def tree_ok_def)
  have same: "attr_at (v\<lparr>v_start := new\<rparr>) x = attr_at v y" for x y using v(2) by (simp add: attr_at_def)
  have "view t' va = (if new \<le> va \<and> va < cur then Some (attr_at v cur) else view t va)" if "r = Inr ()" for va
    using G that v(1) map_okD(1,2) [OF mo v(1)] view_at [OF ok v(1), of va] same by (auto simp: inside_def)
  then show ?thesis using G v(1) by auto
qed

theorem stack_growth_refines_witness:
  "\<exists>t t'. sound t \<and> extend_growsdown_start t 0x4000 0x2000 = (t', Inr ()) \<and> sound t' \<and> view t' 0x2000 \<noteq> None"
proof -
  let ?v = "ex_area 0x4000 0x5000 EXEC_STACK_VMA_FLAGS"
  let ?t = "\<lparr>vmap = [(0x4000, ?v)], vlog = [], shm_ops = False\<rparr>"
  have s: "sound ?t"
    by (simp add: sound_def tree_ok_iff in_sequence_def area_ok_def USER_VA_END_def owed_def areas_def maps_obj_def object_of_def net_open_def)
  obtain t' r where x: "extend_growsdown_start ?t 0x4000 0x2000 = (t', r)" by fastforce
  then have r: "r = Inr ()"
    by (auto simp: extend_growsdown_start_def page_offset_def PAGE_SIZE_BYTES_def om_below_def last_of_def map_take_def fl_contains_def
        EXEC_STACK_VMA_FLAGS_def VM_GROWSDOWN_def VM_PRIVATE_def VM_ANONYMOUS_def)
  have v: "map_of (vmap ?t) 0x4000 = Some ?v" "backing ?v = Anonymous" by simp_all
  show ?thesis using stack_growth_refines [OF s v x] s x r by (intro exI [of _ ?t] exI [of _ t']) auto
qed




section \<open>Where the code falls short\<close>

lemmas split_run = map_take_def split_put_def put_left_def put_right_def clone_subrange_def uva_new_def USER_VA_END_def vma_closed_def absorb_def
  overlap_keys_def om_range_to_def

text \<open>C19: two adjacent anonymous areas of which the second is already marked: \<open>madvise(MADV_DONTFORK)\<close> over both marks
  the first, merges it with the second, and then panics on the collected key of the second, which the merge has taken away.\<close>

theorem update_flags_panics: "vm_reach ex_tree \<and> update_flags_range ex_tree 0x1000 0x3000 VM_DONTFORK 0 = None"
proof
  show "vm_reach ex_tree" by (rule ex_reach)
  show "update_flags_range ex_tree 0x1000 0x3000 VM_DONTFORK 0 = None"
    by (simp add: update_flags_range_def ex_tree_def ex_defs split_run tree_run set_flags_def fl_difference_def flag_values VM_SECRETMEM_def)
qed

definition file_area :: "vma_backing \<Rightarrow> vma" where
  "file_area b = vma_new 1 (\<lambda>_. None) 0x1000 0x3000 PROT_READ VM_SHARED b"

definition file_tree :: "vma_backing \<Rightarrow> vma_tree" where
  "file_tree b = \<lparr>vmap = [(0x1000, file_area b)], vlog = (case b of FileB f _ \<Rightarrow> [VmaOpen f] | _ \<Rightarrow> []), shm_ops = False\<rparr>"

lemma file_reach: "vm_reach (file_tree b)"
proof -
  have "tree_insert (tree_new False) (file_area b) = Some (file_tree b, Inr ())"
    by (simp add: tree_run tree_new_def file_tree_def file_area_def vma_new_def new_with_may_def flag_values VM_SHARED_def split: vma_backing.splits)
  then show ?thesis
    using vr_insert [OF vr_new, of "file_area b" False "file_tree b" "Inr ()"] by (simp add: file_area_def vma_new_def new_with_may_def USER_VA_END_def)
qed

text \<open>C20: \<open>mbind\<close> splits areas without running the hooks: after it has cut a file mapping in two, the end of the address space
  closes the object once more often than it was opened.\<close>

theorem policy_split_unbalanced:
  "\<exists>t t'. vm_reach t \<and> set_policy_range t 0x1000 0x2000 None = Some t' \<and> net_open 7 (vlog (tree_drop t)) = 0 \<and> net_open 7 (vlog (tree_drop t')) = - 1"
proof -
  let ?t = "file_tree (FileB 7 0)"
  obtain t' where t': "set_policy_range ?t 0x1000 0x2000 None = Some t'" "vlog t' = [VmaOpen 7]" "map (object_of \<circ> snd) (vmap t') = [Some 7, Some 7]"
    by (simp add: set_policy_range_def rewrite_range_def file_tree_def file_area_def vma_new_def new_with_may_def overlap_keys_def om_range_to_def
        map_take_def rewrite_one_def uva_new_def USER_VA_END_def map_reinsert_def clone_subrange_def object_of_def)
  have "areas (maps_obj 7) (vmap t') = 2"
    using t'(3) by (cases "vmap t'") (auto simp: areas_def maps_obj_def map_eq_Cons_conv)
  moreover have "net_open 7 (vlog t') = 1" using t'(2) by (simp add: net_open_def)
  ultimately have "net_open 7 (vlog (tree_drop t')) = - 1" by (simp add: tree_drop_def close_all)
  moreover have "net_open 7 (vlog ?t) = 1" "areas (maps_obj 7) (vmap ?t) = 1"
    by (simp_all add: file_tree_def net_open_def areas_def maps_obj_def object_of_def file_area_def vma_new_def new_with_may_def)
  then have "net_open 7 (vlog (tree_drop ?t)) = 0" by (simp add: tree_drop_def close_all)
  ultimately show ?thesis using file_reach t'(1) by blast
qed

text \<open>C21: splitting a device mapping moves the frames of its upper part: after the first page of a mapped physical range is
  unmapped, the second page, which mapped the second frame, maps the first one.\<close>

theorem device_split_moves_frames:
  "\<exists>t t' rs. vm_reach t \<and> remove_range_raw_end t 0x1000 0x2000 = Some (t', rs) \<and>
    map_option at_backing (view t 0x2000) = Some (PhysRange 0xe0001000 Device) \<and>
    map_option at_backing (view t' 0x2000) = Some (PhysRange 0xe0000000 Device)"
proof -
  let ?t = "file_tree (PhysRange 0xe0000000 Device)"
  have "map_option at_backing (view ?t 0x2000) = Some (PhysRange 0xe0001000 Device)"
    by (simp add: view_def find_containing_def file_tree_def om_floor_def last_of_def vma_contains_def file_area_def vma_new_def new_with_may_def attr_at_def)
  moreover obtain t' rs where "remove_range_raw_end ?t 0x1000 0x2000 = Some (t', rs)"
      "map_option at_backing (view t' 0x2000) = Some (PhysRange 0xe0000000 Device)"
    by (simp add: remove_range_raw_end_def raw_end_key_def file_tree_def file_area_def vma_new_def new_with_may_def split_run cut_out_def map_put_def
        vma_opened_def dispatch_def object_of_def fl_contains_def VM_SYSVSHM_def VM_SHARED_def view_def find_containing_def om_floor_def last_of_def
        vma_contains_def attr_at_def Let_def)
  ultimately show ?thesis using file_reach by blast
qed

text \<open>\<open>set_home_node_range\<close> refuses a range with a policy that has no home node before it has changed anything: the tree it
  returns with \<open>OpNotSupp\<close> is the one it was given.\<close>

theorem home_node_refusal_changes_nothing:
  "set_home_node_range t start fin node = Some (t', Inl HnOpNotSupp) \<Longrightarrow> t' = t"
  by (cases "home_ranges start fin (map snd (om_range_to (vmap t) fin))")
    (auto simp: set_home_node_range_def bind_eq_Some_conv split: sum.split_asm if_splits)

theorem home_node_refusal_changes_nothing_witness:
  "\<exists>t t'. vmap t \<noteq> [] \<and> set_home_node_range t 0x1000 0x3000 0 = Some (t', Inl HnOpNotSupp) \<and> t' = t"
proof -
  let ?p = "\<lparr>pol_mode = MPOL_LOCAL, pol_flags = 0, pol_nodes = 0, pol_user_nodes = 0, home_node = 0\<rparr>"
  let ?t = "\<lparr>vmap = [(0x1000, (ex_area 0x1000 0x3000 0)\<lparr>mempolicy := Some ?p\<rparr>)], vlog = [], shm_ops = False\<rparr>"
  have "set_home_node_range ?t 0x1000 0x3000 0 = Some (?t, Inl HnOpNotSupp)"
    by (simp add: set_home_node_range_def om_range_to_def ex_defs MPOL_LOCAL_def MPOL_BIND_def MPOL_PREFERRED_MANY_def)
  then show ?thesis using home_node_refusal_changes_nothing by (intro exI [of _ ?t] exI [of _ ?t]) simp
qed

end
