(* ===== verification/Holes.thy ===== *)
theory Holes
  imports Vma_Ops
begin

text \<open>
  The search for unmapped address ranges (\<open>mm-vmm/src/hole.rs\<close>): the clear check and the two aligned first-fit
  searches. Each search finds the highest, respectively the lowest, aligned window, and fails only if there is none.
\<close>

section \<open>Definitions\<close>

definition MIN_USER_VA :: u64 where "MIN_USER_VA = PAGE_SIZE_BYTES"

definition MMAP_TOP :: u64 where "MMAP_TOP = USER_VA_END - 0x1000000"

definition hole_clear :: "vma_tree \<Rightarrow> u64 \<Rightarrow> u64 \<Rightarrow> bool" where
  "hole_clear t start fin =
     (if (case om_floor (vmap t) start of Some (_, v) \<Rightarrow> v_end v > start | None \<Rightarrow> False) then False
      else if (case om_above (vmap t) start of Some (_, v) \<Rightarrow> v_start v < fin | None \<Rightarrow> False) then False
      else True)"

definition align_down :: "u64 \<Rightarrow> u64 \<Rightarrow> u64" where "align_down addr algn = and_not addr algn"

definition align_up :: "u64 \<Rightarrow> u64 \<Rightarrow> u64" where "align_up addr algn = and_not (wrapping_add addr (algn - 1)) algn"

text \<open>The reverse walk: \<^term>\<open>Inl\<close> is a return from inside the loop, \<^term>\<open>Inr\<close> the value of \<open>top\<close> after it.\<close>

fun hole_down :: "u64 \<Rightarrow> u64 \<Rightarrow> u64 \<Rightarrow> vma list \<Rightarrow> u64 \<Rightarrow> u64 option + u64" where
  "hole_down len mmap_top algn [] tp = Inr tp"
| "hole_down len mmap_top algn (v # vs) tp =
     (let s = max (v_start v) MIN_USER_VA; e = min (v_end v) mmap_top in
      if e \<le> s then hole_down len mmap_top algn vs tp
      else if tp - e \<ge> len \<and> align_down (tp - len) algn \<ge> e \<and> align_down (tp - len) algn \<ge> MIN_USER_VA
        then Inl (uva_new (align_down (tp - len) algn))
      else hole_down len mmap_top algn vs s)"

definition find_hole_aligned :: "vma_tree \<Rightarrow> u64 \<Rightarrow> u64 \<Rightarrow> u64 \<Rightarrow> u64 option" where
  "find_hole_aligned t len mmap_top algn =
     (if len = 0 \<or> len > mmap_top - MIN_USER_VA then None
      else case hole_down len mmap_top algn (rev (map snd (vmap t))) mmap_top of
        Inl r \<Rightarrow> r
      | Inr tp \<Rightarrow>
          if tp - MIN_USER_VA \<ge> len \<and> align_down (tp - len) algn \<ge> MIN_USER_VA then uva_new (align_down (tp - len) algn) else None)"

fun hole_up :: "u64 \<Rightarrow> u64 \<Rightarrow> vma list \<Rightarrow> u64 \<Rightarrow> u64 option + u64" where
  "hole_up len algn [] low = Inr low"
| "hole_up len algn (v # vs) low =
     (if v_end v \<le> low then hole_up len algn vs low
      else if v_start v - low \<ge> len then Inl (uva_new low)
      else
        let low' = align_up (v_end v) algn in
        if low' > MMAP_TOP - len then Inl None else hole_up len algn vs low')"

definition find_hole_bottom_up_aligned :: "vma_tree \<Rightarrow> u64 \<Rightarrow> u64 \<Rightarrow> u64 \<Rightarrow> u64 option" where
  "find_hole_bottom_up_aligned t len mmap_floor algn =
     (let flr = align_up (max mmap_floor MIN_USER_VA) algn in
      if len = 0 \<or> len > MMAP_TOP - flr then None
      else case hole_up len algn (map snd (vmap t)) flr of
        Inl r \<Rightarrow> r
      | Inr low \<Rightarrow> if MMAP_TOP - low \<ge> len then uva_new low else None)"

section \<open>Alignment\<close>

lemma align_down_eq: "addr \<le> U64_MAX \<Longrightarrow> n < 64 \<Longrightarrow> align_down addr (2 ^ n) = addr - addr mod 2 ^ n"
  by (simp add: align_down_def and_not_power)

lemma align_down_greatest:
  assumes "addr \<le> U64_MAX" "n < 64"
  shows "2 ^ n dvd align_down addr (2 ^ n)" "align_down addr (2 ^ n) \<le> addr" "2 ^ n dvd x \<Longrightarrow> x \<le> addr \<Longrightarrow> x \<le> align_down addr (2 ^ n)"
proof -
  have e: "align_down addr (2 ^ n) = 2 ^ n * (addr div 2 ^ n)"
    using align_down_eq [OF assms] by (simp add: minus_mod_eq_mult_div)
  show "2 ^ n dvd align_down addr (2 ^ n)" "align_down addr (2 ^ n) \<le> addr" unfolding e by simp_all
  assume "2 ^ n dvd x" "x \<le> addr"
  then obtain q where "x = 2 ^ n * q" by blast
  then show "x \<le> align_down addr (2 ^ n)" unfolding e using \<open>x \<le> addr\<close> by (metis div_le_mono mult_le_mono2 nonzero_mult_div_cancel_left power_not_zero zero_neq_numeral)
qed

lemma align_up_least:
  assumes "addr \<le> USER_VA_END" "n \<le> 47"
  shows "2 ^ n dvd align_up addr (2 ^ n)" "addr \<le> align_up addr (2 ^ n)" "2 ^ n dvd x \<Longrightarrow> addr \<le> x \<Longrightarrow> align_up addr (2 ^ n) \<le> x"
    "align_up addr (2 ^ n) \<le> 2 * USER_VA_END"
proof -
  have p: "(2 :: nat) ^ n \<le> 2 ^ 47" using assms(2) by (rule power_increasing) simp
  then have b: "addr + (2 ^ n - 1) \<le> U64_MAX" "addr + (2 ^ n - 1) \<le> 2 * USER_VA_END" using assms(1) by (simp_all add: USER_VA_END_def U64_MAX_def)
  then have e: "align_up addr (2 ^ n) = align_down (addr + (2 ^ n - 1)) (2 ^ n)" by (simp add: align_up_def align_down_def wrapping_add_eq)
  note D = align_down_greatest [OF b(1), of n]
  have n: "n < 64" using assms(2) by simp
  show "2 ^ n dvd align_up addr (2 ^ n)" "align_up addr (2 ^ n) \<le> 2 * USER_VA_END" using D(1,2) [OF n] b(2) by (simp_all add: e)
  have m: "align_up addr (2 ^ n) = 2 ^ n * ((addr + (2 ^ n - 1)) div 2 ^ n)"
    using align_down_eq [OF b(1) n] by (simp add: e minus_mod_eq_mult_div)
  have "(addr + (2 ^ n - 1)) div 2 ^ n * 2 ^ n + (addr + (2 ^ n - 1)) mod 2 ^ n = addr + (2 ^ n - 1)" by (rule div_mult_mod_eq)
  moreover have "(addr + (2 ^ n - 1)) mod 2 ^ n < 2 ^ n" "0 < (2 :: nat) ^ n" by simp_all
  ultimately have "addr \<le> (addr + (2 ^ n - 1)) div 2 ^ n * 2 ^ n" by linarith
  then show "addr \<le> align_up addr (2 ^ n)" unfolding m by (simp only: mult.commute)
  assume x: "2 ^ n dvd x" "addr \<le> x"
  then obtain q where q: "x = 2 ^ n * q" by blast
  have "(q + 1) * 2 ^ n = x + 2 ^ n" "0 < (2 :: nat) ^ n" by (simp_all add: q)
  then have "addr + (2 ^ n - 1) < (q + 1) * 2 ^ n" using x(2) by linarith
  then have "(addr + (2 ^ n - 1)) div 2 ^ n < q + 1" by (rule less_mult_imp_div_less)
  then show "align_up addr (2 ^ n) \<le> x" unfolding m q by simp
qed


section \<open>The searches\<close>

definition misses :: "vma \<Rightarrow> u64 \<Rightarrow> u64 \<Rightarrow> bool" where "misses v a b \<longleftrightarrow> v_end v \<le> a \<or> b \<le> v_start v"

lemma free_misses:
  assumes "tree_ok t" "a < b"
  shows "free_range t a b \<longleftrightarrow> (\<forall>v\<in>set (map snd (vmap t)). misses v a b)"
proof -
  have wf: "om_wf (vmap t)" and mo: "map_ok (map_of (vmap t))" using assms(1) by (auto simp: tree_ok_def)
  have "(\<forall>va. a \<le> va \<longrightarrow> va < b \<longrightarrow> \<not> inside v va) \<longleftrightarrow> misses v a b" if "v_start v < v_end v" for v
  proof
    assume a: "\<forall>va. a \<le> va \<longrightarrow> va < b \<longrightarrow> \<not> inside v va"
    show "misses v a b"
    proof (rule ccontr)
      assume "\<not> misses v a b"
      then have "max a (v_start v) < b" "inside v (max a (v_start v))" using that assms(2) by (auto simp: misses_def inside_def)
      then show False using a by simp
    qed
  qed (auto simp: misses_def inside_def)
  moreover have "v_start v < v_end v" if "map_of (vmap t) k = Some v" for k v using map_okD(1,2) [OF mo that] by simp
  moreover have "v \<in> set (map snd (vmap t)) \<longleftrightarrow> (\<exists>k. map_of (vmap t) k = Some v)" for v using entry_iff [OF wf] by force
  ultimately show ?thesis unfolding free_range_def view_None [OF assms(1)] by blast
qed

definition window :: "u64 \<Rightarrow> nat \<Rightarrow> vma list \<Rightarrow> u64 \<Rightarrow> u64 \<Rightarrow> u64 \<Rightarrow> bool" where
  "window len n vs lo hi x \<longleftrightarrow> 2 ^ n dvd x \<and> lo \<le> x \<and> x + len \<le> hi \<and> (\<forall>v\<in>set vs. misses v x (x + len))"

definition down_result :: "u64 \<Rightarrow> u64 \<Rightarrow> u64 option + u64 \<Rightarrow> u64 option" where
  "down_result len algn r = (case r of Inl x \<Rightarrow> x | Inr tp \<Rightarrow>
     if tp - MIN_USER_VA \<ge> len \<and> align_down (tp - len) algn \<ge> MIN_USER_VA then uva_new (align_down (tp - len) algn) else None)"

definition greatest :: "(u64 \<Rightarrow> bool) \<Rightarrow> u64 option \<Rightarrow> bool" where
  "greatest P r \<longleftrightarrow> (case r of Some x \<Rightarrow> P x \<and> (\<forall>y. P y \<longrightarrow> y \<le> x) | None \<Rightarrow> \<not> (\<exists>y. P y))"

lemma hole_down_greatest:
  assumes len: "0 < len" and n: "n < 64" and mt: "mmap_top \<le> USER_VA_END"
  shows "in_sequence (rev ds) \<Longrightarrow> tp \<le> mmap_top \<Longrightarrow> (\<And>w. w \<in> set ds \<Longrightarrow> min (v_end w) mmap_top \<le> tp) \<Longrightarrow>
    greatest (window len n ds MIN_USER_VA tp) (down_result len (2 ^ n) (hole_down len mmap_top (2 ^ n) ds tp))"
proof (induction ds arbitrary: tp)
  case Nil
  define at where "at = align_down (tp - len) (2 ^ n)"
  have tl: "tp - len \<le> U64_MAX" using Nil mt by (simp add: USER_VA_END_def U64_MAX_def)
  note A = align_down_greatest [OF tl n, folded at_def]
  show ?case
  proof (cases "tp - MIN_USER_VA \<ge> len \<and> at \<ge> MIN_USER_VA")
    case True
    then have b: "at + len \<le> tp" using A(2) by linarith
    then have "at < USER_VA_END" using Nil(2) len mt by linarith
    moreover have "window len n [] MIN_USER_VA tp at" using True A(1) b by (simp add: window_def)
    moreover have "x \<le> at" if w: "window len n [] MIN_USER_VA tp x" for x
    proof (rule A(3))
      have "x + len \<le> tp" using w by (simp add: window_def)
      then show "x \<le> tp - len" by linarith
    qed (use w in \<open>simp add: window_def\<close>)
    ultimately show ?thesis using True unfolding greatest_def down_result_def by (simp add: uva_new_def at_def [symmetric])
  next
    case False
    have "\<not> window len n [] MIN_USER_VA tp x" for x
    proof
      assume "window len n [] MIN_USER_VA tp x"
      then have w: "2 ^ n dvd x" "MIN_USER_VA \<le> x" "x + len \<le> tp" by (simp_all add: window_def)
      then have "x \<le> at" "len \<le> tp - MIN_USER_VA" using A(3) [of x] by linarith+
      then show False using False w(2) by linarith
    qed
    then show ?thesis using False unfolding greatest_def down_result_def by (auto simp: at_def [symmetric])
  qed
next
  case (Cons v ds)
  define at where "at = align_down (tp - len) (2 ^ n)"
  let ?s = "max (v_start v) MIN_USER_VA" and ?e = "min (v_end v) mmap_top"
  have tl: "tp - len \<le> U64_MAX" using Cons.prems(2) mt by (simp add: USER_VA_END_def U64_MAX_def)
  note A = align_down_greatest [OF tl n, folded at_def]
  have seq: "in_sequence (rev ds)" "v_start v < v_end v" "\<And>w. w \<in> set ds \<Longrightarrow> v_end w \<le> v_start v"
    using Cons.prems(1) by (auto simp: in_sequence_def sorted_wrt_append)
  consider "?e \<le> ?s" | "?s < ?e" "len \<le> tp - ?e" "?e \<le> at" "MIN_USER_VA \<le> at"
    | "?s < ?e" "\<not> (len \<le> tp - ?e \<and> ?e \<le> at \<and> MIN_USER_VA \<le> at)" by linarith
  then show ?case
  proof cases
    case 1
    then have "window len n (v # ds) MIN_USER_VA tp = window len n ds MIN_USER_VA tp"
      using seq(2) Cons.prems(2) len by (auto simp: window_def fun_eq_iff misses_def)
    then show ?thesis using 1 Cons.IH [OF seq(1) Cons.prems(2)] Cons.prems(3) by simp
  next
    case 2
    then have b: "at + len \<le> tp" using A(2) len by linarith
    then have v: "v_end v \<le> at" using 2(3) Cons.prems(2) len by linarith
    have "window len n (v # ds) MIN_USER_VA tp at"
      using A(1) 2(4) b v seq(2,3) by (force simp: window_def misses_def)
    moreover have "x \<le> at" if "window len n (v # ds) MIN_USER_VA tp x" for x
    proof (rule A(3))
      have "x + len \<le> tp" using that by (simp add: window_def)
      then show "x \<le> tp - len" by linarith
    qed (use that in \<open>simp add: window_def\<close>)
    moreover have "at < USER_VA_END" using b len Cons.prems(2) mt by linarith
    moreover have "hole_down len mmap_top (2 ^ n) (v # ds) tp = Inl (uva_new at)"
      using 2(2-4) 2(1) [unfolded not_le [symmetric]] unfolding hole_down.simps Let_def at_def [symmetric] by (simp only: if_True if_False simp_thms)
    ultimately show ?thesis by (simp add: greatest_def down_result_def uva_new_def)
  next
    case 3
    have "?e \<le> tp" by (rule Cons.prems(3)) simp
    then have s: "?s \<le> tp" using 3(1) by linarith
    have wins: "window len n (v # ds) MIN_USER_VA tp = window len n ds MIN_USER_VA ?s"
    proof (intro ext iffI)
      fix x
      assume w: "window len n (v # ds) MIN_USER_VA tp x"
      have "\<not> v_end v \<le> x"
      proof
        assume "v_end v \<le> x"
        moreover have "2 ^ n dvd x" "MIN_USER_VA \<le> x" "x + len \<le> tp" using w by (simp_all add: window_def)
        moreover have "x \<le> at" using calculation A(3) [of x] by linarith
        ultimately show False using 3(2) by linarith
      qed
      then show "window len n ds MIN_USER_VA ?s x" using w by (auto simp: window_def misses_def)
    next
      fix x
      assume w: "window len n ds MIN_USER_VA ?s x"
      then have "x + len \<le> v_start v" using len by (auto simp: window_def)
      then show "window len n (v # ds) MIN_USER_VA tp x" using w s by (auto simp: window_def misses_def)
    qed
    have "?s \<le> mmap_top" using s Cons.prems(2) by linarith
    moreover have "min (v_end w) mmap_top \<le> ?s" if "w \<in> set ds" for w using seq(3) [OF that] by simp
    ultimately have "greatest (window len n ds MIN_USER_VA ?s) (down_result len (2 ^ n) (hole_down len mmap_top (2 ^ n) ds ?s))"
      by (rule Cons.IH [OF seq(1)])
    moreover have "hole_down len mmap_top (2 ^ n) (v # ds) tp = hole_down len mmap_top (2 ^ n) ds ?s"
      using 3(2) 3(1) [unfolded not_le [symmetric]] unfolding hole_down.simps Let_def at_def [symmetric] by (simp only: if_True if_False simp_thms)
    ultimately show ?thesis unfolding wins by simp
  qed
qed


definition up_result :: "u64 \<Rightarrow> u64 option + u64 \<Rightarrow> u64 option" where
  "up_result len r = (case r of Inl x \<Rightarrow> x | Inr low \<Rightarrow> if MMAP_TOP - low \<ge> len then uva_new low else None)"

definition least :: "(u64 \<Rightarrow> bool) \<Rightarrow> u64 option \<Rightarrow> bool" where
  "least P r \<longleftrightarrow> (case r of Some x \<Rightarrow> P x \<and> (\<forall>y. P y \<longrightarrow> x \<le> y) | None \<Rightarrow> \<not> (\<exists>y. P y))"

lemma hole_up_least:
  assumes len: "0 < len" and n: "n \<le> 47"
  shows "in_sequence vs \<Longrightarrow> 2 ^ n dvd low \<Longrightarrow> low + len \<le> MMAP_TOP \<Longrightarrow> (\<And>w. w \<in> set vs \<Longrightarrow> v_end w \<le> USER_VA_END) \<Longrightarrow>
    least (window len n vs low MMAP_TOP) (up_result len (hole_up len (2 ^ n) vs low))"
proof (induction vs arbitrary: low)
  case Nil
  then have "low < USER_VA_END" "len \<le> MMAP_TOP - low" using len by (simp_all add: MMAP_TOP_def USER_VA_END_def)
  then show ?case using Nil by (simp add: least_def up_result_def uva_new_def window_def)
next
  case (Cons v vs)
  have seq: "in_sequence vs" "v_start v < v_end v" "\<And>w. w \<in> set vs \<Longrightarrow> v_end v \<le> v_start w"
    using Cons.prems(1) by (auto simp: in_sequence_def)
  define low' where "low' = align_up (v_end v) (2 ^ n)"
  note U = align_up_least [OF Cons.prems(4) [of v, OF list.set_intros(1)] n, folded low'_def]
  note IH = Cons.IH [OF seq(1) _ _ Cons.prems(4) [OF list.set_intros(2)]]
  have top: "MMAP_TOP < USER_VA_END" by (simp add: MMAP_TOP_def USER_VA_END_def)
  consider "v_end v \<le> low" | "low < v_end v" "len \<le> v_start v - low" | "low < v_end v" "\<not> len \<le> v_start v - low" by linarith
  then show ?case
  proof cases
    case 1
    then have "window len n (v # vs) low MMAP_TOP = window len n vs low MMAP_TOP" by (auto simp: window_def fun_eq_iff misses_def)
    then show ?thesis using 1 IH Cons.prems(2,3) by simp
  next
    case 2
    then have "low + len \<le> v_start v" using len by linarith
    then have "window len n (v # vs) low MMAP_TOP low" using Cons.prems(2,3) seq by (force simp: window_def misses_def)
    moreover have "low \<le> x" if "window len n (v # vs) low MMAP_TOP x" for x using that by (simp add: window_def)
    moreover have "low < USER_VA_END" using Cons.prems(3) top by linarith
    ultimately show ?thesis using 2 by (simp add: least_def up_result_def uva_new_def)
  next
    case 3
    have wins: "window len n (v # vs) low MMAP_TOP = window len n vs low' MMAP_TOP"
    proof (intro ext iffI)
      fix x
      assume w: "window len n (v # vs) low MMAP_TOP x"
      then have "2 ^ n dvd x" "low \<le> x" "misses v x (x + len)" by (simp_all add: window_def)
      then have "v_end v \<le> x" using 3(2) unfolding misses_def by linarith
      then have "low' \<le> x" using U(3) \<open>2 ^ n dvd x\<close> by blast
      then show "window len n vs low' MMAP_TOP x" using w by (simp add: window_def)
    next
      fix x
      assume w: "window len n vs low' MMAP_TOP x"
      then have "low' \<le> x" by (simp add: window_def)
      then have "v_end v \<le> x" "low \<le> x" using U(2) 3(1) by linarith+
      then show "window len n (v # vs) low MMAP_TOP x" using w by (simp add: window_def misses_def)
    qed
    show ?thesis
    proof (cases "MMAP_TOP - len < low'")
      case True
      have "\<not> window len n vs low' MMAP_TOP x" for x
      proof
        assume "window len n vs low' MMAP_TOP x"
        then have "low' \<le> x" "x + len \<le> MMAP_TOP" by (simp_all add: window_def)
        then show False using True by linarith
      qed
      then show ?thesis using 3 True unfolding wins by (simp add: least_def up_result_def Let_def low'_def [symmetric])
    next
      case False
      then have "low' + len \<le> MMAP_TOP" using Cons.prems(3) by linarith
      then have "least (window len n vs low' MMAP_TOP) (up_result len (hole_up len (2 ^ n) vs low'))" using U(1) by (intro IH)
      then show ?thesis using 3 False unfolding wins by (simp add: Let_def low'_def [symmetric])
    qed
  qed
qed

section \<open>Properties\<close>

definition usable :: "vma_tree \<Rightarrow> u64 \<Rightarrow> nat \<Rightarrow> u64 \<Rightarrow> u64 \<Rightarrow> u64 \<Rightarrow> bool" where
  "usable t len n lo hi x \<longleftrightarrow> 2 ^ n dvd x \<and> lo \<le> x \<and> x + len \<le> hi \<and> free_range t x (x + len)"

lemma usable_window: "tree_ok t \<Longrightarrow> 0 < len \<Longrightarrow> usable t len n lo hi = window len n (map snd (vmap t)) lo hi"
  using free_misses [of t] by (auto simp: usable_def window_def fun_eq_iff)

text \<open>C22: the top-down search of \<open>mmap\<close> returns the highest address on the requested alignment at which \<open>len\<close> unmapped bytes
  fit between the first usable page and the top of the arena, and fails only if there is no such address.\<close>

theorem top_down_search_exact:
  assumes ok: "tree_ok t" and len: "0 < len" and n: "n < 64" and mt: "mmap_top \<le> USER_VA_END"
  shows "greatest (usable t len n MIN_USER_VA mmap_top) (find_hole_aligned t len mmap_top (2 ^ n))"
proof (cases "len > mmap_top - MIN_USER_VA")
  case True
  then have "\<not> usable t len n MIN_USER_VA mmap_top x" for x by (auto simp: usable_def)
  then show ?thesis using True by (simp add: find_hole_aligned_def greatest_def)
next
  case False
  have seq: "in_sequence (map snd (vmap t))" using ok by (simp add: tree_ok_iff)
  have "find_hole_aligned t len mmap_top (2 ^ n) = down_result len (2 ^ n) (hole_down len mmap_top (2 ^ n) (rev (map snd (vmap t))) mmap_top)"
    using False len by (simp add: find_hole_aligned_def down_result_def)
  moreover have "greatest (window len n (rev (map snd (vmap t))) MIN_USER_VA mmap_top)
      (down_result len (2 ^ n) (hole_down len mmap_top (2 ^ n) (rev (map snd (vmap t))) mmap_top))"
    by (rule hole_down_greatest [OF len n mt]) (use seq in simp_all)
  moreover have "window len n (rev (map snd (vmap t))) MIN_USER_VA mmap_top = usable t len n MIN_USER_VA mmap_top"
    unfolding usable_window [OF ok len] by (simp add: window_def fun_eq_iff)
  ultimately show ?thesis by simp
qed

theorem top_down_search_exact_witness: "find_hole_aligned (tree_new False) 0x1000 0x10000 (2 ^ 12) = Some 0xf000"
proof -
  have ok: "tree_ok (tree_new False)" by (simp add: tree_ok_iff tree_new_def in_sequence_def)
  have "usable (tree_new False) 0x1000 12 MIN_USER_VA 0x10000 0xf000"
    by (simp add: usable_def MIN_USER_VA_def PAGE_SIZE_BYTES_def free_range_def view_def find_containing_def tree_new_def om_floor_def last_of_def)
  moreover have "x \<le> 0xf000" if "usable (tree_new False) 0x1000 12 MIN_USER_VA 0x10000 x" for x using that by (simp add: usable_def)
  ultimately show ?thesis
    using top_down_search_exact [OF ok, of "0x1000" 12 "0x10000"] by (auto simp: greatest_def USER_VA_END_def antisym split: option.splits)
qed

text \<open>C23: the bottom-up search returns the lowest such address at or above the floor, and fails only if there is none.\<close>

theorem bottom_up_search_exact:
  assumes ok: "tree_ok t" and len: "0 < len" and n: "n \<le> 47" and mf: "mmap_floor \<le> USER_VA_END"
  shows "least (usable t len n (max mmap_floor MIN_USER_VA) MMAP_TOP) (find_hole_bottom_up_aligned t len mmap_floor (2 ^ n))"
proof -
  define flr where "flr = align_up (max mmap_floor MIN_USER_VA) (2 ^ n)"
  have m: "max mmap_floor MIN_USER_VA \<le> USER_VA_END" using mf by (simp add: MIN_USER_VA_def PAGE_SIZE_BYTES_def USER_VA_END_def)
  note U = align_up_least [OF m n, folded flr_def]
  have lo: "usable t len n (max mmap_floor MIN_USER_VA) MMAP_TOP = usable t len n flr MMAP_TOP"
    using U(2,3) unfolding usable_def fun_eq_iff by (meson le_trans)
  show ?thesis
  proof (cases "len > MMAP_TOP - flr")
    case True
    have "\<not> usable t len n flr MMAP_TOP x" for x
    proof
      assume "usable t len n flr MMAP_TOP x"
      then have "flr \<le> x" "x + len \<le> MMAP_TOP" by (simp_all add: usable_def)
      then show False using True by linarith
    qed
    then show ?thesis using True unfolding lo by (simp add: find_hole_bottom_up_aligned_def least_def flr_def [symmetric])
  next
    case False
    then have fits: "flr + len \<le> MMAP_TOP" using len by linarith
    have "find_hole_bottom_up_aligned t len mmap_floor (2 ^ n) = up_result len (hole_up len (2 ^ n) (map snd (vmap t)) flr)"
      using False len by (simp add: find_hole_bottom_up_aligned_def up_result_def flr_def [symmetric])
    moreover have "least (window len n (map snd (vmap t)) flr MMAP_TOP) (up_result len (hole_up len (2 ^ n) (map snd (vmap t)) flr))"
      by (rule hole_up_least [OF len n _ U(1) fits]) (use ok in \<open>auto simp: tree_ok_iff list_all_iff area_ok_def\<close>)
    ultimately show ?thesis unfolding lo by (simp add: usable_window [OF ok len])
  qed
qed

theorem bottom_up_search_exact_witness: "find_hole_bottom_up_aligned (tree_new False) 0x1000 0x1234 (2 ^ 12) = Some 0x2000"
proof -
  have ok: "tree_ok (tree_new False)" by (simp add: tree_ok_iff tree_new_def in_sequence_def)
  have "usable (tree_new False) 0x1000 12 (max 0x1234 MIN_USER_VA) MMAP_TOP 0x2000"
    by (simp add: usable_def MIN_USER_VA_def MMAP_TOP_def USER_VA_END_def PAGE_SIZE_BYTES_def free_range_def view_def find_containing_def tree_new_def om_floor_def last_of_def)
  moreover have "0x2000 \<le> x" if "usable (tree_new False) 0x1000 12 (max 0x1234 MIN_USER_VA) MMAP_TOP x" for x
  proof -
    have x: "4096 dvd x" "0x1234 \<le> x" using that by (simp_all add: usable_def)
    then obtain q where "x = 4096 * q" by blast
    then show ?thesis using x(2) by simp
  qed
  ultimately show ?thesis
    using bottom_up_search_exact [OF ok, of "0x1000" 12 "0x1234"] by (auto simp: least_def USER_VA_END_def antisym split: option.splits)
qed

text \<open>The clear check looks only at the neighbours, and that decides whether a range is unmapped.\<close>

theorem hole_clear_exact:
  assumes "tree_ok t" "start < fin"
  shows "hole_clear t start fin \<longleftrightarrow> free_range t start fin"
  using neighbours_free [OF assms] by (auto simp: hole_clear_def)

theorem hole_clear_exact_witness: "hole_clear (tree_new False) 0x1000 0x2000 \<and> free_range (tree_new False) 0x1000 0x2000"
proof -
  have ok: "tree_ok (tree_new False)" by (simp add: tree_ok_iff tree_new_def in_sequence_def)
  show ?thesis using hole_clear_exact [OF ok, of "0x1000" "0x2000"] by (simp add: hole_clear_def tree_new_def om_floor_def om_above_def last_of_def)
qed

end
