(* ===== verification/Spec2Isabelle.thy ===== *)
theory Spec2Isabelle
  imports Pmm_Foreign Userns_Props Vma_Props Holes Mempolicy
begin

text \<open>
  Verification of parts of the oxide kernel: its physical page allocator, the tree of memory areas of an
  address space, memory policies, and the identities and id maps of namespaces. The Rust sources are under
  \<open>src/crates/kernel\<close>.

  \<^bold>\<open>Conventions.\<close> A \<open>u64\<close> is a natural number, and the arithmetic that the source writes as checked, saturating
  or wrapping carries its bound explicitly; flags, masks and user ids are words of their width. A computation
  that may panic is an \<open>option\<close> with \<^const>\<open>None\<close> for the panic (a failed \<open>kassert!\<close>, \<open>expect\<close>, an index out of range), and
  \<open>returns m P\<close> says that \<open>m\<close> does not panic and its result satisfies \<open>P\<close>. A \<open>Result\<close> is a sum with the error on the left.
  An operation that runs under a lock is one state-passing function. Theory \<open>Prelude\<close> holds this vocabulary.

  \<^bold>\<open>The physical page allocator\<close> (\<open>mm-pmm\<close>).
  \<^item> \<open>Zones\<close>: \<open>zone/*.rs\<close> and \<open>watermark.rs\<close>. The layout of zones, allocation flags, the fallback list, the lowmem reserve, the
    watermark gate and the derivation of the watermarks.
  \<^item> \<open>Bitmaps\<close> and \<open>Free_Nodes\<close>: the bit arrays, the pageblock types (\<open>buddy/pageblock.rs\<close>) and the header that a free page
    carries in its own bytes (\<open>buddy/free_node.rs\<close>), behind the interfaces \<open>bit_array\<close>, \<open>type_map\<close> and \<open>node_store\<close>.
  \<^item> \<open>Buddy\<close>: the record \<open>pmm\<close> for the structs \<open>PmmInner\<close> and \<open>Pmm\<close>, and the list operations of \<open>buddy/inner.rs\<close> and \<open>buddy/free.rs\<close>.
    \<open>Buddy_Inv\<close> states the invariant \<open>buddy_inv\<close> (lists, headers, counts and bitmaps describe the same set of
    blocks); \<open>Buddy_Ops\<close> and \<open>Buddy_Free\<close> show that every operation returns, keeps it, and moves exactly its block.
  \<^item> \<open>Pagesets\<close>: the per-CPU lists of \<open>buddy/pcp.rs\<close>; \<open>Pagesets_Inv\<close>, \<open>Pagesets_Ops\<close>, \<open>Pagesets_Alloc\<close> and \<open>Pagesets_Drain\<close> carry the
    invariant \<open>pmm_inv\<close> of the whole allocator through them. Reclaim and the out-of-memory loop (\<open>oom_entry.rs\<close>) are in \<open>Oom\<close>.
  \<^item> \<open>Pmm\<close>: construction, allocation, free, reservation and audit (\<open>buddy/construct.rs\<close>, \<open>api.rs\<close>, \<open>reserve.rs\<close>, \<open>audit.rs\<close>). \<open>Pmm_Init\<close>,
    \<open>Pmm_Inv\<close>, \<open>Pmm_Api\<close>, \<open>Pmm_Reserve\<close> and \<open>Pmm_Audit\<close> prove them against the invariant; \<open>kernel_env\<close> and
    \<open>kernel_progress\<close> are what the slowpath relies on of reclaim and the killer, with the hosted build as their instance.
  \<^item> \<open>Pmm_Run\<close>: runs as a step relation over the allocator, the reserved pages and the blocks that callers hold.
    \<open>Pmm_Live\<close> says when a request succeeds. \<open>Pmm_Props\<close> has the properties of runs: pages are partitioned, blocks handed out are
    exclusive and zeroed, a held block can be freed, a double free is caught, the audit accepts every state.
    \<open>Pmm_Foreign\<close> shows that the premise of the single-page theorems is needed.

  \<^bold>\<open>Memory areas\<close> (\<open>mm-vmm\<close>).
  \<^item> \<open>Ordered_Map\<close>: the ordered map of the standard library, as an interface and an implementation by sorted lists.
  \<^item> \<open>Vma\<close>: the area record, its flags, \<open>clone_subrange\<close> and the merge condition (\<open>vma.rs\<close>, \<open>vma/clone.rs\<close>, \<open>vm_ops.rs\<close>).
    \<open>Vma_Tree\<close>: the tree and its range operations (\<open>tree.rs\<close>, \<open>tree_ranges.rs\<close>, \<open>tree/*.rs\<close>); calls of hooks are a log.
  \<^item> \<open>Vma_View\<close>: the abstraction, a function from addresses to attributes. \<open>Vma_Hooks\<close> accounts for opens and closes,
    \<open>Vma_Pieces\<close> and \<open>Vma_Merge\<close> for splitting and merging, \<open>Vma_Walk\<close> and \<open>Vma_Ranges\<close> for the loops, behind the interface
    \<open>range_walk\<close>; \<open>Vma_Updates\<close> and \<open>Vma_Spec\<close> interpret it for each operation. \<open>Vma_Ops\<close> and \<open>Vma_Props\<close> state that
    \<open>insert\<close>, \<open>munmap\<close>, \<open>mprotect\<close>, flag updates, sealing and stack growth refine the pointwise update of the view.
  \<^item> \<open>Holes\<close>: the search for free address ranges (\<open>hole.rs\<close>). \<open>Mempolicy\<close>: memory policies and the arguments of their system
    calls (\<open>mempolicy/*.rs\<close>) and of \<open>mseal\<close> (\<open>mseal.rs\<close>).

  \<^bold>\<open>Namespaces\<close> (\<open>namespace-identity\<close>, \<open>user-namespace\<close>).
  \<^item> \<open>Pid_Numbers\<close>: the numbers of a PID namespace (\<open>pid_numbers.rs\<close>).
  \<^item> \<open>Namespaces\<close>: identities in an object heap and the registry (\<open>identity.rs\<close>, \<open>registry.rs\<close>). \<open>Namespaces_Inv\<close>, \<open>Namespaces_Run\<close>
    and \<open>Namespaces_Reach\<close> carry the reference-count invariant through every interleaving of operations, \<open>Namespaces_Props\<close>
    states what follows.
  \<^item> \<open>Idmap\<close>: id maps and their translation (\<open>extent.rs\<close>, \<open>translate.rs\<close>); both directions are instances of one interface.
    \<open>Userns\<close> and \<open>Userns_Props\<close>: the table of user namespaces together with the registry (\<open>engine.rs\<close>, \<open>resolve.rs\<close>).

  \<^bold>\<open>Bounds and recursion.\<close> No definition uses fuel. Loops over lists and orders are structural or have a termination proof. The
  retry loop of the slowpath, the list walks of the audit, and the walks up the owner chain of a namespace need not end on every state
  and are partial functions, for which not returning is \<^const>\<open>None\<close>, as a panic is. That they return is proved: for the slowpath under
  \<open>kernel_progress\<close>, for the audit in every state of a run, for activation and release in every reachable state of the registry. Boot
  asserts that the last page number leaves room for one largest block below \<open>2 ^ 64\<close>.

  \<^bold>\<open>Premises.\<close> Single-page allocations assume \<open>no_foreign\<close>: the free fragments of the zones in question have the requested
  migration type. Range operations assume \<open>cuts_fine\<close>: no device mapping is cut at a place where the code would move its frames.
  Both are needed (\<open>foreign_refill_panics\<close>, \<open>device_split_moves_frames\<close>).

  \<^bold>\<open>Not modelled.\<close> Interleavings inside a lock region and memory ordering; raw page pointers and debug poisoning of pages; the
  image of hibernation; kswapd, swap and hugetlb; page tables, faults, fork, \<open>mremap\<close> and the page scan of \<open>mbind\<close>, which work through
  the hardware's tables; the files behind mappings, which are identities here; and the rest of the kernel (scheduler,
  file systems, networking, drivers, security modules, architecture code) and user space.
\<close>

end
